(* ===== verification/Prelude.thy ===== *)
theory Prelude
  imports Main "HOL-Library.Word"
begin

unbundle bit_operations_syntax

text \<open>
  The prelude of the development: the machine types of the Go program, the values that stand for
  Go errors and panics, the big-endian integer codec of \<^verbatim>\<open>encoding/binary\<close> that the store
  and the index use (\<^verbatim>\<open>var enc = binary.BigEndian\<close>, src/internal/log/store.go), and the
  generic list and word lemmas that the components share.

  \<^item> \<^verbatim>\<open>uint64\<close>, \<^verbatim>\<open>uint32\<close> and \<^verbatim>\<open>byte\<close> are words of their width, so \<open>+\<close> and \<open>-\<close> wrap as in
    Go; an \<^verbatim>\<open>int64\<close> is the same 64 bits read with \<^term>\<open>sint\<close>.
  \<^item> A Go call that returns \<^verbatim>\<open>(x, err)\<close> is a value of \<^typ>\<open>'e + 'a\<close>: \<open>Inl\<close> the error, \<open>Inr\<close>
    the result. A run-time panic is the error \<open>Panic\<close>: it travels like an error that no caller
    handles.
\<close>

section \<open>Machine types\<close>

type_synonym u8 = "8 word"
type_synonym u32 = "32 word"
type_synonym u64 = "64 word"
type_synonym bytes = "u8 list"

section \<open>Errors\<close>

text \<open>
  The errors of the program and of the standard library calls it makes. \<open>OSError\<close> is what a failing
  system call reports, \<open>Status\<close> a gRPC status with its code and message, \<open>Extern\<close> an error of a
  third-party library, \<open>Errorf\<close> the result of \<^verbatim>\<open>fmt.Errorf\<close>.
\<close>

datatype code = Code_Unknown | Code_OutOfRange | Code_PermissionDenied | Code_Unimplemented

datatype goerr =
    EOF
  | ErrUnexpectedEOF
  | ErrNotExist
  | ErrClosed
  | ErrNegativeOffset
  | ErrInvalid
  | OSError string
  | ErrOffsetOutOfRange u64
  | Status code string
  | Extern string
  | Errorf string
  | Panic string

definition is_panic :: "goerr \<Rightarrow> bool" where
  "is_panic e = (case e of Panic _ \<Rightarrow> True | _ \<Rightarrow> False)"

lemma is_panic_simps [simp]:
  "is_panic (Panic m)" "\<not> is_panic EOF" "\<not> is_panic (OSError m)" "\<not> is_panic (ErrOffsetOutOfRange off)"
  by (simp_all add: is_panic_def)

section \<open>The collections of the development\<close>

named_theorems enc_simps \<open>lengths and round trips of the byte encodings\<close>
named_theorems os_ok \<open>what an operating-system call does when no fault is injected\<close>
named_theorems frame_intros \<open>introduction rules for the frame conditions on the file system\<close>

section \<open>Big-endian integers\<close>

definition PutUint64 :: "u64 \<Rightarrow> bytes" where
  "PutUint64 v =
     [ucast (drop_bit 56 v), ucast (drop_bit 48 v), ucast (drop_bit 40 v), ucast (drop_bit 32 v),
      ucast (drop_bit 24 v), ucast (drop_bit 16 v), ucast (drop_bit 8 v), ucast v]"

definition Uint64 :: "bytes \<Rightarrow> u64" where
  "Uint64 b =
     ucast (b ! 7) OR push_bit 8 (ucast (b ! 6)) OR push_bit 16 (ucast (b ! 5)) OR
     push_bit 24 (ucast (b ! 4)) OR push_bit 32 (ucast (b ! 3)) OR push_bit 40 (ucast (b ! 2)) OR
     push_bit 48 (ucast (b ! 1)) OR push_bit 56 (ucast (b ! 0))"

definition PutUint32 :: "u32 \<Rightarrow> bytes" where
  "PutUint32 v = [ucast (drop_bit 24 v), ucast (drop_bit 16 v), ucast (drop_bit 8 v), ucast v]"

definition Uint32 :: "bytes \<Rightarrow> u32" where
  "Uint32 b =
     ucast (b ! 3) OR push_bit 8 (ucast (b ! 2)) OR push_bit 16 (ucast (b ! 1)) OR
     push_bit 24 (ucast (b ! 0))"

lemma length_PutUint64 [simp, enc_simps]: "length (PutUint64 v) = 8"
  by (simp add: PutUint64_def)

lemma length_PutUint32 [simp, enc_simps]: "length (PutUint32 v) = 4"
  by (simp add: PutUint32_def)

lemma Uint64_PutUint64 [simp, enc_simps]: "Uint64 (PutUint64 v) = v"
proof (rule bit_word_eqI)
  fix n assume "n < LENGTH(64)"
  then consider (b0) "n < 8" | (b1) "8 \<le> n" "n < 16" | (b2) "16 \<le> n" "n < 24"
    | (b3) "24 \<le> n" "n < 32" | (b4) "32 \<le> n" "n < 40" | (b5) "40 \<le> n" "n < 48"
    | (b6) "48 \<le> n" "n < 56" | (b7) "56 \<le> n" "n < 64" by force
  then show "bit (Uint64 (PutUint64 v)) n = bit v n"
    by cases (simp_all add: Uint64_def PutUint64_def bit_simps less_diff_conv2)
qed

lemma Uint32_PutUint32 [simp, enc_simps]: "Uint32 (PutUint32 v) = v"
proof (rule bit_word_eqI)
  fix n assume "n < LENGTH(32)"
  then consider (b0) "n < 8" | (b1) "8 \<le> n" "n < 16" | (b2) "16 \<le> n" "n < 24"
    | (b3) "24 \<le> n" "n < 32" by force
  then show "bit (Uint32 (PutUint32 v)) n = bit v n"
    by cases (simp_all add: Uint32_def PutUint32_def bit_simps less_diff_conv2)
qed

section \<open>Words as bounded naturals\<close>

lemma u64_bound: "unat (x :: u64) < 2 ^ 64"
  using unsigned_less [of x, where 'a = nat] by simp

lemma u64_of_nat [simp]: "n < 2 ^ 64 \<Longrightarrow> unat (of_nat n :: u64) = n"
  by (simp add: unat_of_nat)

lemma u32_of_nat [simp]: "n < 2 ^ 32 \<Longrightarrow> unat (of_nat n :: u32) = n"
  by (simp add: unat_of_nat)

lemma unat_u64_add: "unat (a :: u64) + unat b < 2 ^ 64 \<Longrightarrow> unat (a + b) = unat a + unat b"
  by (simp add: unat_word_ariths)

lemma unat_u64_sub: "unat (b :: u64) \<le> unat a \<Longrightarrow> unat (a - b) = unat a - unat b"
  by (simp add: unat_sub word_le_nat_alt)

lemma unat_u64_Suc: "unat (a :: u64) + 1 < 2 ^ 64 \<Longrightarrow> unat (a + 1) = unat a + 1"
  by (simp add: unat_word_ariths)

lemma u64_eq_iff: "(a :: u64) = b \<longleftrightarrow> unat a = unat b"
  by (simp add: word_unat_eq_iff)

lemma u64_le_iff: "(a :: u64) \<le> b \<longleftrightarrow> unat a \<le> unat b"
  by (simp add: word_le_nat_alt)

lemma u64_less_iff: "(a :: u64) < b \<longleftrightarrow> unat a < unat b"
  by (simp add: word_less_nat_alt)

lemma u64_of_nat_eq: "n < 2 ^ 64 \<Longrightarrow> unat (a :: u64) = n \<Longrightarrow> a = of_nat n"
  by (simp add: u64_eq_iff)

lemma sint_u64: "unat (a :: u64) < 2 ^ 63 \<Longrightarrow> sint a = int (unat a)"
proof -
  assume "unat a < 2 ^ 63"
  then have "uint a < 2 ^ 63"
    by (metis of_nat_less_numeral_power_cancel_iff of_nat_unat)
  then show ?thesis
    by (simp add: sint_uint signed_take_bit_int_eq_self order_trans [OF _ uint_ge_0])
qed

lemma sint_u64_nonneg: "unat (a :: u64) < 2 ^ 63 \<Longrightarrow> \<not> sint a < 0"
  by (simp add: sint_u64)

lemma unat_ucast_u32 [simp]: "unat (ucast (a :: u32) :: u64) = unat a"
proof -
  have "unat a < 2 ^ 32" using unsigned_less [of a, where 'a = nat] by simp
  then show ?thesis by (simp add: unsigned_ucast_eq take_bit_nat_eq_self)
qed

lemma unat_u64_max: "unat (-1 :: u64) = 2 ^ 64 - 1"
  by (simp add: unsigned_minus_1_eq_mask mask_eq_exp_minus_1)

lemma ucast_u64_u32_of_nat: "ucast (of_nat n :: u64) = (of_nat n :: u32)"
  by (rule bit_word_eqI) (simp add: bit_simps)

lemmas u64_simps = u64_eq_iff u64_le_iff u64_less_iff

section \<open>Lists\<close>

lemma take_drop_append_mid:
  "length a = n \<Longrightarrow> length b = m \<Longrightarrow> take m (drop n (a @ b @ c)) = b"
  by simp

lemma concat_replicate_pair: "concat (map (\<lambda>b. [b, b]) bs) = [] \<longleftrightarrow> bs = []"
  by (cases bs) auto

lemma take_Suc_drop: "i < length xs \<Longrightarrow> take (Suc k) (drop i xs) = xs ! i # take k (drop (Suc i) xs)"
  by (simp add: Cons_nth_drop_Suc [symmetric])

end
