(* ===== verification/GoOS.thy ===== *)
theory GoOS
  imports Prelude "HOL-Library.AList" "HOL-Library.Char_ord" "HOL-Library.List_Lexorder"
    "HOL-Library.Sublist"
begin

text \<open>
  What the program uses of Go's standard library: files and directories (\<^verbatim>\<open>os\<close>), the buffered
  writer (\<^verbatim>\<open>bufio.Writer\<close>), and the decimal and path helpers (\<^verbatim>\<open>fmt\<close>, \<^verbatim>\<open>strconv\<close>, \<^verbatim>\<open>path\<close>,
  \<^verbatim>\<open>strings\<close>) that name segment files.

  The state outside the process is a \<open>world\<close>: the directories with their files, the kernel's read
  position of each open file, and a list of faults. Every system call takes the head of the fault
  list: \<open>None\<close> lets it run, \<open>Some (e, n)\<close> makes it fail with \<open>e\<close> after it has moved \<open>n\<close> bytes. The
  empty list means that no call fails any more, so every error branch of the program can be
  reached by some world, and \<open>quiet\<close> worlds are those where the machine does its work.

  A file is found by its path. The program closes a file before it removes it and never opens a
  file twice at a time, so a path names one open file.
\<close>

section \<open>The world\<close>

type_synonym path = "string \<times> string"
type_synonym fault = "(goerr \<times> nat) option"

record world =
  fs :: "string \<Rightarrow> (string \<times> bytes) list option"
  fpos :: "path \<Rightarrow> nat"
  faults :: "fault list"

record osfile =
  fname :: path
  fclosed :: bool

definition quiet :: "world \<Rightarrow> bool" where
  "quiet w \<longleftrightarrow> faults w = []"

definition take_fault :: "world \<Rightarrow> fault \<times> world" where
  "take_fault w = (case faults w of [] \<Rightarrow> (None, w) | f # rest \<Rightarrow> (f, w\<lparr>faults := rest\<rparr>))"

definition fget :: "world \<Rightarrow> path \<Rightarrow> bytes option" where
  "fget w p = (case fs w (fst p) of None \<Rightarrow> None | Some d \<Rightarrow> map_of d (snd p))"

definition fput :: "path \<Rightarrow> bytes \<Rightarrow> world \<Rightarrow> world" where
  "fput p bs w = (case fs w (fst p) of None \<Rightarrow> w
     | Some d \<Rightarrow> w\<lparr>fs := (fs w)(fst p := Some (AList.update (snd p) bs d))\<rparr>)"

definition fdel :: "path \<Rightarrow> world \<Rightarrow> world" where
  "fdel p w = (case fs w (fst p) of None \<Rightarrow> w
     | Some d \<Rightarrow> w\<lparr>fs := (fs w)(fst p := Some (AList.delete (snd p) d))\<rparr>)"

definition names :: "world \<Rightarrow> string \<Rightarrow> string list option" where
  "names w d = map_option (map fst) (fs w d)"

definition resize :: "nat \<Rightarrow> bytes \<Rightarrow> bytes" where
  "resize n bs = take n bs @ replicate (n - length bs) 0"

section \<open>Files\<close>

text \<open>\<^verbatim>\<open>os.OpenFile(name, os.O_RDWR|os.O_CREATE, 0600)\<close>: the read position starts at 0.\<close>

definition os_OpenFile :: "path \<Rightarrow> world \<Rightarrow> (goerr + osfile) \<times> world" where
  "os_OpenFile p w0 = (case take_fault w0 of
     (Some (e, _), w) \<Rightarrow> (Inl e, w)
   | (None, w) \<Rightarrow>
       (case fs w (fst p) of None \<Rightarrow> (Inl ErrNotExist, w)
        | Some _ \<Rightarrow>
            (let w1 = (if fget w p = None then fput p [] w else w)
             in (Inr \<lparr>fname = p, fclosed = False\<rparr>, w1\<lparr>fpos := (fpos w1)(p := 0)\<rparr>))))"

definition os_Stat :: "path \<Rightarrow> world \<Rightarrow> (goerr + nat) \<times> world" where
  "os_Stat p w0 = (case take_fault w0 of
     (Some (e, _), w) \<Rightarrow> (Inl e, w)
   | (None, w) \<Rightarrow> (case fget w p of None \<Rightarrow> (Inl ErrNotExist, w) | Some c \<Rightarrow> (Inr (length c), w)))"

text \<open>\<^verbatim>\<open>os.Truncate\<close> and \<^verbatim>\<open>File.Truncate\<close>; the length is an \<^verbatim>\<open>int64\<close>.\<close>

definition os_Truncate :: "path \<Rightarrow> u64 \<Rightarrow> world \<Rightarrow> goerr option \<times> world" where
  "os_Truncate p n w0 = (case take_fault w0 of
     (Some (e, _), w) \<Rightarrow> (Some e, w)
   | (None, w) \<Rightarrow>
       (if sint n < 0 then (Some ErrInvalid, w)
        else case fget w p of None \<Rightarrow> (Some ErrNotExist, w)
             | Some c \<Rightarrow> (None, fput p (resize (unat n) c) w)))"

definition os_FTruncate :: "osfile \<Rightarrow> u64 \<Rightarrow> world \<Rightarrow> goerr option \<times> world" where
  "os_FTruncate f n w = (if fclosed f then (Some ErrClosed, w) else os_Truncate (fname f) n w)"

text \<open>
  \<^verbatim>\<open>File.Write\<close> on a file opened with \<^verbatim>\<open>O_APPEND\<close>: the bytes go to the end of the file and the read
  position moves behind them. A failing call reports how many bytes went out.
\<close>

definition os_Write :: "osfile \<Rightarrow> bytes \<Rightarrow> world \<Rightarrow> (nat \<times> goerr option) \<times> world" where
  "os_Write f p w0 =
     (if fclosed f then ((0, Some ErrClosed), w0)
      else case take_fault w0 of (flt, w) \<Rightarrow>
        (let (n, err) = (case flt of None \<Rightarrow> (length p, None) | Some (e, k) \<Rightarrow> (min k (length p), Some e))
         in case fget w (fname f) of
              None \<Rightarrow> ((n, err), w)
            | Some c \<Rightarrow>
                (let c' = c @ take n p
                 in ((n, err), (fput (fname f) c' w)\<lparr>fpos := (fpos w)(fname f := length c')\<rparr>))))"

text \<open>
  \<^verbatim>\<open>File.ReadAt\<close>: a negative offset is an error, an empty buffer reads nothing and succeeds, and a
  read that cannot fill its buffer returns what there is with \<^verbatim>\<open>io.EOF\<close>.
\<close>

definition os_ReadAt :: "osfile \<Rightarrow> nat \<Rightarrow> u64 \<Rightarrow> world \<Rightarrow> (bytes \<times> goerr option) \<times> world" where
  "os_ReadAt f n off w0 =
     (if sint off < 0 then (([], Some ErrNegativeOffset), w0)
      else if n = 0 then (([], None), w0)
      else if fclosed f then (([], Some ErrClosed), w0)
      else case take_fault w0 of (flt, w) \<Rightarrow>
        (let c = (case fget w (fname f) of None \<Rightarrow> [] | Some c \<Rightarrow> c);
             data = take n (drop (unat off) c)
         in case flt of
              Some (e, k) \<Rightarrow> ((take k data, Some e), w)
            | None \<Rightarrow> ((data, if length data < n then Some EOF else None), w)))"

definition os_Sync :: "osfile \<Rightarrow> world \<Rightarrow> goerr option \<times> world" where
  "os_Sync f w0 = (if fclosed f then (Some ErrClosed, w0)
     else case take_fault w0 of (Some (e, _), w) \<Rightarrow> (Some e, w) | (None, w) \<Rightarrow> (None, w))"

text \<open>\<^verbatim>\<open>File.Close\<close> gives the descriptor up even when the system call reports an error.\<close>

definition os_Close :: "osfile \<Rightarrow> world \<Rightarrow> goerr option \<times> osfile \<times> world" where
  "os_Close f w0 = (if fclosed f then (Some ErrClosed, f, w0)
     else case take_fault w0 of
       (Some (e, _), w) \<Rightarrow> (Some e, f\<lparr>fclosed := True\<rparr>, w)
     | (None, w) \<Rightarrow> (None, f\<lparr>fclosed := True\<rparr>, w))"

section \<open>Directories\<close>

definition os_Remove :: "path \<Rightarrow> world \<Rightarrow> goerr option \<times> world" where
  "os_Remove p w0 = (case take_fault w0 of
     (Some (e, _), w) \<Rightarrow> (Some e, w)
   | (None, w) \<Rightarrow> (case fget w p of None \<Rightarrow> (Some ErrNotExist, w) | Some _ \<Rightarrow> (None, fdel p w)))"

text \<open>\<^verbatim>\<open>os.RemoveAll\<close> removes the directory itself; a missing one is no error.\<close>

definition os_RemoveAll :: "string \<Rightarrow> world \<Rightarrow> goerr option \<times> world" where
  "os_RemoveAll d w0 = (case take_fault w0 of
     (Some (e, _), w) \<Rightarrow> (Some e, w)
   | (None, w) \<Rightarrow> (None, w\<lparr>fs := (fs w)(d := None)\<rparr>))"

definition os_MkdirAll :: "string \<Rightarrow> world \<Rightarrow> goerr option \<times> world" where
  "os_MkdirAll d w0 = (case take_fault w0 of
     (Some (e, _), w) \<Rightarrow> (Some e, w)
   | (None, w) \<Rightarrow> (None, if fs w d = None then w\<lparr>fs := (fs w)(d := Some [])\<rparr> else w))"

text \<open>\<^verbatim>\<open>os.ReadDir\<close> returns the entries sorted by file name.\<close>

definition os_ReadDir :: "string \<Rightarrow> world \<Rightarrow> (goerr + string list) \<times> world" where
  "os_ReadDir d w0 = (case take_fault w0 of
     (Some (e, _), w) \<Rightarrow> (Inl e, w)
   | (None, w) \<Rightarrow> (case names w d of None \<Rightarrow> (Inl ErrNotExist, w) | Some ns \<Rightarrow> (Inr (sort ns), w)))"

section \<open>The buffered writer\<close>

record bufio =
  bw_buf :: bytes
  bw_err :: "goerr option"

definition bufio_size :: nat where
  "bufio_size = 4096"

definition bufio_NewWriter :: bufio where
  "bufio_NewWriter = \<lparr>bw_buf = [], bw_err = None\<rparr>"

definition bufio_Flush :: "osfile \<Rightarrow> bufio \<Rightarrow> world \<Rightarrow> goerr option \<times> bufio \<times> world" where
  "bufio_Flush f b w0 = (case bw_err b of
     Some e \<Rightarrow> (Some e, b, w0)
   | None \<Rightarrow>
       if bw_buf b = [] then (None, b, w0)
       else case os_Write f (bw_buf b) w0 of ((n, err), w) \<Rightarrow>
         (case err of
            Some e \<Rightarrow> (Some e, b\<lparr>bw_buf := drop n (bw_buf b), bw_err := Some e\<rparr>, w)
          | None \<Rightarrow> (None, b\<lparr>bw_buf := []\<rparr>, w)))"

lemma os_Write_progress: "os_Write f p w = ((n, None), w') \<Longrightarrow> n = length p"
  by (auto simp: os_Write_def Let_def split: if_splits prod.splits option.splits)

lemma bufio_Flush_empties:
  "bufio_Flush f b w = (r, b', w') \<Longrightarrow> bw_err b' \<noteq> None \<or> bw_buf b' = []"
proof (cases "bw_err b")
  case None
  moreover assume "bufio_Flush f b w = (r, b', w')"
  ultimately show ?thesis
    by (auto simp: bufio_Flush_def split: option.splits prod.splits if_splits)
next
  case (Some e)
  moreover assume "bufio_Flush f b w = (r, b', w')"
  ultimately have "b' = b" by (simp add: bufio_Flush_def)
  with Some show ?thesis by simp
qed

text \<open>
  The loop of \<^verbatim>\<open>Writer.Write\<close>: while the data does not fit, an empty buffer is bypassed and a
  partly filled one is topped up and flushed; an error sticks to the writer.
\<close>

function bufio_Write_loop ::
  "osfile \<Rightarrow> bytes \<Rightarrow> nat \<Rightarrow> bufio \<Rightarrow> world \<Rightarrow> (nat \<times> goerr option) \<times> bufio \<times> world" where
  "bufio_Write_loop f p nn b w =
     (if bufio_size - length (bw_buf b) < length p \<and> bw_err b = None then
        (if bw_buf b = [] then
           (case os_Write f p w of ((n, err), w') \<Rightarrow>
              bufio_Write_loop f (drop n p) (nn + n) (b\<lparr>bw_err := err\<rparr>) w')
         else
           (let n = min (length p) (bufio_size - length (bw_buf b))
            in case bufio_Flush f (b\<lparr>bw_buf := bw_buf b @ take n p\<rparr>) w of (_, b', w') \<Rightarrow>
                 bufio_Write_loop f (drop n p) (nn + n) b' w'))
      else (case bw_err b of
              Some e \<Rightarrow> ((nn, Some e), b, w)
            | None \<Rightarrow> ((nn + length p, None), b\<lparr>bw_buf := bw_buf b @ p\<rparr>, w)))"
  by pat_completeness auto

termination bufio_Write_loop
proof (relation "measure (\<lambda>(f, p, nn, b, w).
    if bw_err b \<noteq> None then 0 else 1 + 2 * length p + (if bw_buf b = [] then 0 else 1))",
    goal_cases)
  case (2 f p nn b w x1 w' n err)
  then show ?case
    by (cases err) (auto dest!: os_Write_progress [OF sym])
next
  case (3 f p nn b w n x r b' w')
  then have "bufio_Flush f (b\<lparr>bw_buf := bw_buf b @ take n p\<rparr>) w = (x, b', w')"
    by simp
  then have "bw_err b' \<noteq> None \<or> bw_buf b' = []"
    by (rule bufio_Flush_empties)
  with 3 show ?case by auto
qed auto

declare bufio_Write_loop.simps [simp del]

definition bufio_Write ::
  "osfile \<Rightarrow> bytes \<Rightarrow> bufio \<Rightarrow> world \<Rightarrow> (nat \<times> goerr option) \<times> bufio \<times> world" where
  "bufio_Write f p b w = bufio_Write_loop f p 0 b w"

section \<open>File names\<close>

text \<open>\<^verbatim>\<open>fmt.Sprintf("%d", n)\<close> of an unsigned integer.\<close>

fun dec :: "nat \<Rightarrow> string" where
  "dec n = (if n < 10 then [char_of (48 + n)] else dec (n div 10) @ [char_of (48 + n mod 10)])"

declare dec.simps [simp del]

text \<open>
  The value of \<^verbatim>\<open>strconv.ParseUint(s, 10, 0)\<close> with its error dropped: 0 on a syntax error, the
  largest \<^verbatim>\<open>uint64\<close> on overflow.
\<close>

fun ParseUint_loop :: "nat \<Rightarrow> string \<Rightarrow> nat" where
  "ParseUint_loop n [] = n"
| "ParseUint_loop n (c # cs) =
     (if of_char c < (48::nat) \<or> (57::nat) < of_char c then 0
      else (let n1 = n * 10 + (of_char c - 48)
            in if 2 ^ 64 \<le> n1 then 2 ^ 64 - 1 else ParseUint_loop n1 cs))"

definition ParseUint :: "string \<Rightarrow> u64" where
  "ParseUint s = (if s = [] then 0 else of_nat (ParseUint_loop 0 s))"

text \<open>\<^verbatim>\<open>path.Ext\<close>: the suffix from the last dot of the last path element.\<close>

definition path_Ext :: "string \<Rightarrow> string" where
  "path_Ext s =
     (let r = takeWhile (\<lambda>c. c \<noteq> CHR ''.'' \<and> c \<noteq> CHR ''/'') (rev s)
      in if length r < length s \<and> rev s ! length r = CHR ''.'' then CHR ''.'' # rev r else [])"

definition TrimSuffix :: "string \<Rightarrow> string \<Rightarrow> string" where
  "TrimSuffix s suf = (if suffix suf s then take (length s - length suf) s else s)"

text \<open>
  \<^verbatim>\<open>filepath.Clean\<close> and \<^verbatim>\<open>filepath.Join\<close> on Unix. The elements are taken from the front; the stack holds
  those kept so far in reverse order.
\<close>

fun path_split :: "string \<Rightarrow> string list" where
  "path_split [] = [[]]"
| "path_split (c # cs) = (if c = CHR ''/'' then [] # path_split cs
     else (case path_split cs of [] \<Rightarrow> [[c]] | e # es \<Rightarrow> (c # e) # es))"

fun clean_elems :: "bool \<Rightarrow> string list \<Rightarrow> string list \<Rightarrow> string list" where
  "clean_elems rooted stack [] = rev stack"
| "clean_elems rooted stack (e # es) =
     (if e = [] \<or> e = ''.'' then clean_elems rooted stack es
      else if e = ''..'' then
        (case stack of
           [] \<Rightarrow> clean_elems rooted (if rooted then [] else [e]) es
         | t # rest \<Rightarrow> clean_elems rooted (if t = ''..'' then e # stack else rest) es)
      else clean_elems rooted (e # stack) es)"

fun path_glue :: "string list \<Rightarrow> string" where
  "path_glue [] = []"
| "path_glue [e] = e"
| "path_glue (e # es) = e @ CHR ''/'' # path_glue es"

definition path_Clean :: "string \<Rightarrow> string" where
  "path_Clean s =
     (let rooted = (take 1 s = ''/'');
          r = (if rooted then ''/'' else []) @ path_glue (clean_elems rooted [] (path_split s))
      in if r = [] then ''.'' else r)"

definition path_Join :: "string list \<Rightarrow> string" where
  "path_Join es = (case dropWhile (\<lambda>e. e = []) es of [] \<Rightarrow> [] | es' \<Rightarrow> path_Clean (path_glue es'))"

text \<open>\<^verbatim>\<open>fmt.Sprintf("%d", n)\<close> of a signed integer.\<close>

definition dec_int :: "int \<Rightarrow> string" where
  "dec_int n = (if n < 0 then CHR ''-'' # dec (nat (- n)) else dec (nat n))"

section \<open>Decimal names are read back\<close>

definition is_dec :: "char \<Rightarrow> bool" where
  "is_dec c \<longleftrightarrow> (48::nat) \<le> of_char c \<and> of_char c \<le> (57::nat)"

lemma of_char_digit [simp]: "d < 10 \<Longrightarrow> of_char (char_of (48 + d :: nat)) = (48 + d :: nat)"
  by (simp add: of_char_of)

lemma dec_nonempty [simp]: "dec n \<noteq> []"
  by (subst dec.simps) simp

lemma dec_digits: "c \<in> set (dec n) \<Longrightarrow> is_dec c"
proof (induction n rule: dec.induct)
  case (1 n)
  then show ?case
    by (subst (asm) dec.simps) (auto simp: is_dec_def of_char_of split: if_splits)
qed

lemma dec_no_separator: "CHR ''.'' \<notin> set (dec n)" "CHR ''/'' \<notin> set (dec n)"
  using dec_digits [of _ n] by (force simp: is_dec_def)+

lemma ParseUint_loop_append:
  assumes "\<forall>c \<in> set s. is_dec c" "ParseUint_loop n s < 2 ^ 64 - 1"
  shows "ParseUint_loop n (s @ t) = ParseUint_loop (ParseUint_loop n s) t"
  using assms
proof (induction s arbitrary: n)
  case (Cons c s)
  then show ?case by (auto simp: is_dec_def Let_def split: if_splits)
qed simp

lemma ParseUint_loop_dec: "n < 2 ^ 64 \<Longrightarrow> ParseUint_loop 0 (dec n) = n"
proof (induction n rule: dec.induct)
  case (1 n)
  show ?case
  proof (cases "n < 10")
    case True
    then show ?thesis by (subst dec.simps) (simp add: of_char_of)
  next
    case False
    have IH: "ParseUint_loop 0 (dec (n div 10)) = n div 10" using 1 False by simp
    have "ParseUint_loop 0 (dec n) = ParseUint_loop (n div 10) [char_of (48 + n mod 10)]"
      using False IH 1(2) dec_digits [of _ "n div 10"]
      by (subst dec.simps) (simp add: ParseUint_loop_append)
    moreover have "\<not> 9 < n mod 10" by presburger
    ultimately show ?thesis using 1(2) by (simp add: of_char_of Let_def)
  qed
qed

lemma ParseUint_dec [simp]: "ParseUint (dec (unat n)) = n"
  using ParseUint_loop_dec [OF u64_bound, of n] by (simp add: ParseUint_def)

lemma dec_inject [simp]: "dec (unat (a :: u64)) = dec (unat b) \<longleftrightarrow> a = b"
  by (metis ParseUint_dec)

lemma path_Ext_dot:
  "CHR ''.'' \<notin> set e \<Longrightarrow> CHR ''/'' \<notin> set e \<Longrightarrow> path_Ext (s @ CHR ''.'' # e) = CHR ''.'' # e"
proof -
  assume "CHR ''.'' \<notin> set e" "CHR ''/'' \<notin> set e"
  then have "takeWhile (\<lambda>c. c \<noteq> CHR ''.'' \<and> c \<noteq> CHR ''/'') (rev (s @ CHR ''.'' # e)) = rev e"
    by (subst rev_append, subst rev.simps, simp) (subst takeWhile_append2, auto)
  then show ?thesis by (simp add: path_Ext_def nth_append)
qed

lemma TrimSuffix_append [simp]: "TrimSuffix (s @ t) t = s"
  by (simp add: TrimSuffix_def suffixI)

section \<open>Looking up after an update\<close>

lemma fget_fput [simp]:
  "fget (fput p bs w) q = (if q = p \<and> fs w (fst p) \<noteq> None then Some bs else fget w q)"
  by (cases p; cases q)
     (auto simp: fget_def fput_def update_conv' split: option.splits)

lemma fget_fdel [simp]: "fget (fdel p w) q = (if q = p then None else fget w q)"
  by (cases p; cases q) (auto simp: fget_def fdel_def delete_conv' split: option.splits)

lemma fget_dir: "fget w p = Some c \<Longrightarrow> fs w (fst p) \<noteq> None"
  by (auto simp: fget_def split: option.splits)

lemma fget_names: "fget w (d, n) \<noteq> None \<longleftrightarrow> (\<exists>ns. names w d = Some ns \<and> n \<in> set ns)"
  by (auto simp: fget_def names_def simp flip: dom_map_of_conv_image_fst split: option.splits)

lemma names_dir: "names w d = Some ns \<Longrightarrow> \<exists>fl. fs w d = Some fl"
  by (auto simp: names_def)

lemma names_fput:
  "names (fput p bs w) d =
     (if d = fst p \<and> fget w p = None then map_option (\<lambda>ns. ns @ [snd p]) (names w d) else names w d)"
  by (cases p)
     (auto simp: names_def fput_def fget_def update_keys map_of_eq_None_iff split: option.splits)

lemma names_fdel:
  "names (fdel p w) d =
     (if d = fst p then map_option (removeAll (snd p)) (names w d) else names w d)"
  by (cases p) (auto simp: names_def fdel_def delete_keys split: option.splits)

lemma faults_fput [simp]: "faults (fput p bs w) = faults w"
  by (simp add: fput_def split: option.splits)

lemma faults_fdel [simp]: "faults (fdel p w) = faults w"
  by (simp add: fdel_def split: option.splits)

lemma fpos_fput [simp]: "fpos (fput p bs w) = fpos w"
  by (simp add: fput_def split: option.splits)

lemma fget_fpos_update [simp]: "fget (fpos_update g w) p = fget w p"
  by (simp add: fget_def)

lemma names_fpos_update [simp]: "names (fpos_update g w) d = names w d"
  by (simp add: names_def)

lemma length_resize [simp]: "length (resize n bs) = n"
  by (simp add: resize_def)

lemma resize_self [simp]: "resize (length bs) bs = bs"
  by (simp add: resize_def)

lemma take_resize: "k \<le> n \<Longrightarrow> k \<le> length bs \<Longrightarrow> take k (resize n bs) = take k bs"
  by (simp add: resize_def)

section \<open>Calls that do not fail\<close>

lemma take_fault_quiet [os_ok, simp]: "quiet w \<Longrightarrow> take_fault w = (None, w)"
  by (simp add: take_fault_def quiet_def)

lemma quiet_fput [simp]: "quiet (fput p bs w) \<longleftrightarrow> quiet w"
  by (simp add: quiet_def)

lemma quiet_fdel [simp]: "quiet (fdel p w) \<longleftrightarrow> quiet w"
  by (simp add: quiet_def)

lemma quiet_fpos_update [simp]: "quiet (fpos_update g w) \<longleftrightarrow> quiet w"
  by (simp add: quiet_def)

text \<open>
  \<open>touches P w w'\<close>: between two quiet worlds only the contents of the files in \<open>P\<close> changed, and no
  file came or went.
\<close>

definition touches :: "path set \<Rightarrow> world \<Rightarrow> world \<Rightarrow> bool" where
  "touches P w w' \<longleftrightarrow> quiet w' \<and> (\<forall>p. p \<notin> P \<longrightarrow> fget w' p = fget w p) \<and> names w' = names w"

lemma touches_refl [frame_intros]: "quiet w \<Longrightarrow> touches P w w"
  by (simp add: touches_def)

lemma touches_trans [frame_intros]: "touches P w w' \<Longrightarrow> touches P w' w'' \<Longrightarrow> touches P w w''"
  by (simp add: touches_def)

lemma touches_mono: "touches P w w' \<Longrightarrow> P \<subseteq> Q \<Longrightarrow> touches Q w w'"
  by (auto simp: touches_def)

lemma touches_quiet [simp]: "touches P w w' \<Longrightarrow> quiet w'"
  by (simp add: touches_def)

lemma touches_fget: "touches P w w' \<Longrightarrow> p \<notin> P \<Longrightarrow> fget w' p = fget w p"
  by (cases p) (simp add: touches_def)

lemma touches_names: "touches P w w' \<Longrightarrow> names w' = names w"
  by (simp add: touches_def)

lemma touches_fput [frame_intros]:
  "quiet w \<Longrightarrow> fget w p \<noteq> None \<Longrightarrow> p \<in> P \<Longrightarrow> touches P w (fput p bs w)"
  by (auto simp: touches_def names_fput)

lemma touches_fpos_update [simp]: "touches P w (fpos_update g w') \<longleftrightarrow> touches P w w'"
  by (auto simp: touches_def fun_eq_iff)

lemma os_Stat_quiet [os_ok]:
  "quiet w \<Longrightarrow> fget w p = Some c \<Longrightarrow> os_Stat p w = (Inr (length c), w)"
  by (simp add: os_Stat_def)

lemma os_Truncate_quiet [os_ok]:
  "quiet w \<Longrightarrow> fget w p = Some c \<Longrightarrow> unat n < 2 ^ 63 \<Longrightarrow>
     os_Truncate p n w = (None, fput p (resize (unat n) c) w)"
  by (simp add: os_Truncate_def sint_u64_nonneg)

lemma os_Write_quiet [os_ok]:
  "quiet w \<Longrightarrow> \<not> fclosed f \<Longrightarrow> fget w (fname f) = Some c \<Longrightarrow>
     os_Write f p w = ((length p, None),
       (fput (fname f) (c @ p) w)\<lparr>fpos := (fpos w)(fname f := length (c @ p))\<rparr>)"
  by (simp add: os_Write_def Let_def)

lemma os_ReadAt_quiet [os_ok]:
  "quiet w \<Longrightarrow> \<not> fclosed f \<Longrightarrow> fget w (fname f) = Some c \<Longrightarrow> unat off < 2 ^ 63 \<Longrightarrow>
     unat off + n \<le> length c \<Longrightarrow> os_ReadAt f n off w = ((take n (drop (unat off) c), None), w)"
  by (auto simp: os_ReadAt_def sint_u64_nonneg Let_def)

lemma os_Close_quiet [os_ok]:
  "quiet w \<Longrightarrow> \<not> fclosed f \<Longrightarrow> os_Close f w = (None, f\<lparr>fclosed := True\<rparr>, w)"
  by (simp add: os_Close_def)

lemma os_Sync_quiet [os_ok]: "quiet w \<Longrightarrow> \<not> fclosed f \<Longrightarrow> os_Sync f w = (None, w)"
  by (simp add: os_Sync_def)

lemma os_Remove_quiet [os_ok]:
  "quiet w \<Longrightarrow> fget w p = Some c \<Longrightarrow> os_Remove p w = (None, fdel p w)"
  by (simp add: os_Remove_def)

lemma os_ReadDir_quiet [os_ok]:
  "quiet w \<Longrightarrow> names w d = Some ns \<Longrightarrow> os_ReadDir d w = (Inr (sort ns), w)"
  by (simp add: os_ReadDir_def)

section \<open>The buffered writer keeps every byte\<close>

lemma bufio_Flush_quiet:
  assumes "quiet w" "\<not> fclosed f" "bw_err b = None" "fget w (fname f) = Some c"
  shows "\<exists>w'. bufio_Flush f b w = (None, b\<lparr>bw_buf := []\<rparr>, w') \<and>
           fget w' (fname f) = Some (c @ bw_buf b) \<and> touches {fname f} w w'"
proof (cases "bw_buf b = []")
  case True
  then have "b\<lparr>bw_buf := []\<rparr> = b" by (cases b) simp
  with True assms show ?thesis
    by (auto simp: bufio_Flush_def intro: frame_intros)
next
  case False
  with assms fget_dir [OF assms(4)] show ?thesis
    by (auto simp: bufio_Flush_def os_Write_quiet intro!: touches_fput)
qed

text \<open>
  A step of the writer's loop on a quiet world: whatever the fill of the buffer, the file followed
  by the buffer grows by exactly the data, and no byte is lost or reordered.
\<close>

lemma bufio_Write_loop_quiet:
  assumes "quiet w" "\<not> fclosed f" "bw_err b = None" "fget w (fname f) = Some c"
  shows "\<exists>b' w' c'. bufio_Write_loop f p nn b w = ((nn + length p, None), b', w') \<and>
           bw_err b' = None \<and> fget w' (fname f) = Some c' \<and>
           c' @ bw_buf b' = c @ bw_buf b @ p \<and> touches {fname f} w w'"
  using assms
proof (induction f p nn b w arbitrary: c rule: bufio_Write_loop.induct)
  case (1 f p nn b w)
  note prems = "1.prems"
  show ?case
  proof (cases "bufio_size - length (bw_buf b) < length p")
    case False
    with prems show ?thesis
      by (auto simp: bufio_Write_loop.simps [of f p nn b w] intro: frame_intros)
  next
    case fits: True
    show ?thesis
    proof (cases "bw_buf b = []")
      case True
      let ?w = "(fput (fname f) (c @ p) w)\<lparr>fpos := (fpos w)(fname f := length (c @ p))\<rparr>"
      have w: "os_Write f p w = ((length p, None), ?w)"
        using prems by (simp add: os_Write_quiet)
      have "fget ?w (fname f) = Some (c @ p)" "touches {fname f} w ?w"
        using prems fget_dir [OF prems(4)] by (auto intro!: touches_fput)
      moreover have "b\<lparr>bw_err := None\<rparr> = b" using prems by (cases b) simp
      ultimately show ?thesis
        using fits True prems w
        by (auto simp: bufio_Write_loop.simps [of f p nn b w] bufio_Write_loop.simps [of f "[]"])
    next
      case False
      let ?n = "min (length p) (bufio_size - length (bw_buf b))"
      let ?b = "b\<lparr>bw_buf := bw_buf b @ take ?n p\<rparr>"
      obtain w1 where fl: "bufio_Flush f ?b w = (None, b\<lparr>bw_buf := []\<rparr>, w1)"
        and c1: "fget w1 (fname f) = Some (c @ bw_buf b @ take ?n p)"
        and t1: "touches {fname f} w w1"
        using bufio_Flush_quiet [of w f ?b c] prems by auto
      have "\<exists>b' w' c'. bufio_Write_loop f (drop ?n p) (nn + ?n) (b\<lparr>bw_buf := []\<rparr>) w1 =
              ((nn + ?n + length (drop ?n p), None), b', w') \<and> bw_err b' = None \<and>
              fget w' (fname f) = Some c' \<and>
              c' @ bw_buf b' = (c @ bw_buf b @ take ?n p) @ bw_buf (b\<lparr>bw_buf := []\<rparr>) @ drop ?n p \<and>
              touches {fname f} w1 w'"
        by (rule "1.IH"(2)) (use fits False prems fl c1 t1 in auto)
      then obtain b' w' c' where
        "bufio_Write_loop f (drop ?n p) (nn + ?n) (b\<lparr>bw_buf := []\<rparr>) w1 =
           ((nn + length p, None), b', w')" "bw_err b' = None" "fget w' (fname f) = Some c'"
        "c' @ bw_buf b' = c @ bw_buf b @ p" "touches {fname f} w1 w'"
        by (auto simp: min_def split: if_splits)
      with fits False prems fl t1 show ?thesis
        by (auto simp: bufio_Write_loop.simps [of f p nn b w] Let_def intro: touches_trans)
    qed
  qed
qed

lemma bufio_Write_quiet:
  assumes "quiet w" "\<not> fclosed f" "bw_err b = None" "fget w (fname f) = Some c"
  obtains b' w' c' where "bufio_Write f p b w = ((length p, None), b', w')" "bw_err b' = None"
    "fget w' (fname f) = Some c'" "c' @ bw_buf b' = c @ bw_buf b @ p" "touches {fname f} w w'"
  using bufio_Write_loop_quiet [OF assms, of p 0] by (auto simp: bufio_Write_def)

end
