(* ===== verification/Store.thy ===== *)
theory Store
  imports GoOS
begin

text \<open>
  The store (src/internal/log/store.go): an append-only file of length-prefixed byte strings,
  written through a buffer. \<open>store_rep s w bs\<close> says that the store \<open>s\<close> in the world \<open>w\<close> holds the
  byte string \<open>bs\<close>, part of it in the file and the rest still in the buffer. The interface the segment
  relies on is the locale \<open>frame_store\<close>, interpreted here on the model of the code.
\<close>

section \<open>State\<close>

definition recordLenBytes :: nat where
  "recordLenBytes = 8"

record store =
  st_File :: osfile
  st_buf :: bufio
  st_size :: u64

text \<open>Go's limit on the length of a slice that \<^verbatim>\<open>make\<close> accepts on a 64-bit Linux.\<close>

definition maxAlloc :: nat where
  "maxAlloc = 2 ^ 48"

section \<open>Operations\<close>

definition newStore :: "osfile \<Rightarrow> world \<Rightarrow> (goerr + store) \<times> world" where
  "newStore f w0 = (case os_Stat (fname f) w0 of
     (Inl e, w) \<Rightarrow> (Inl e, w)
   | (Inr n, w) \<Rightarrow> (Inr \<lparr>st_File = f, st_buf = bufio_NewWriter, st_size = of_nat n\<rparr>, w))"

definition store_Append ::
  "bytes \<Rightarrow> store \<Rightarrow> world \<Rightarrow> (goerr + u64 \<times> u64) \<times> store \<times> world" where
  "store_Append p s w0 =
     (let pos = st_size s in
      case bufio_Write (st_File s) (PutUint64 (of_nat (length p))) (st_buf s) w0 of
        ((_, Some e), b, w) \<Rightarrow> (Inl e, s\<lparr>st_buf := b\<rparr>, w)
      | ((_, None), b, w) \<Rightarrow>
          (case bufio_Write (st_File s) p b w of
             ((_, Some e), b', w') \<Rightarrow> (Inl e, s\<lparr>st_buf := b'\<rparr>, w')
           | ((bytesWritten, None), b', w') \<Rightarrow>
               (let n = of_nat (bytesWritten + recordLenBytes)
                in (Inr (n, pos), s\<lparr>st_buf := b', st_size := st_size s + n\<rparr>, w'))))"

definition store_Read :: "u64 \<Rightarrow> store \<Rightarrow> world \<Rightarrow> (goerr + bytes) \<times> store \<times> world" where
  "store_Read pos s w0 = (case bufio_Flush (st_File s) (st_buf s) w0 of
     (Some e, b, w) \<Rightarrow> (Inl e, s\<lparr>st_buf := b\<rparr>, w)
   | (None, b, w) \<Rightarrow>
       (case os_ReadAt (st_File s) recordLenBytes pos w of
          ((_, Some e), w1) \<Rightarrow> (Inl e, s\<lparr>st_buf := b\<rparr>, w1)
        | ((sz, None), w1) \<Rightarrow>
            (let n = unat (Uint64 sz)
             in if maxAlloc < n then (Inl (Panic ''makeslice: len out of range''), s\<lparr>st_buf := b\<rparr>, w1)
                else case os_ReadAt (st_File s) n (pos + of_nat recordLenBytes) w1 of
                       ((_, Some e), w2) \<Rightarrow> (Inl e, s\<lparr>st_buf := b\<rparr>, w2)
                     | ((recordBytes, None), w2) \<Rightarrow> (Inr recordBytes, s\<lparr>st_buf := b\<rparr>, w2))))"

text \<open>\<^verbatim>\<open>ReadAt\<close> fills a buffer of \<open>n\<close> bytes; the result is what was read and the error.\<close>

definition store_ReadAt ::
  "nat \<Rightarrow> u64 \<Rightarrow> store \<Rightarrow> world \<Rightarrow> (bytes \<times> goerr option) \<times> store \<times> world" where
  "store_ReadAt n off s w0 = (case bufio_Flush (st_File s) (st_buf s) w0 of
     (Some e, b, w) \<Rightarrow> (([], Some e), s\<lparr>st_buf := b\<rparr>, w)
   | (None, b, w) \<Rightarrow>
       (case os_ReadAt (st_File s) n off w of (r, w1) \<Rightarrow> (r, s\<lparr>st_buf := b\<rparr>, w1)))"

definition store_Close :: "store \<Rightarrow> world \<Rightarrow> goerr option \<times> store \<times> world" where
  "store_Close s w0 = (case bufio_Flush (st_File s) (st_buf s) w0 of
     (Some e, b, w) \<Rightarrow> (Some e, s\<lparr>st_buf := b\<rparr>, w)
   | (None, b, w) \<Rightarrow>
       (case os_Close (st_File s) w of (err, f, w1) \<Rightarrow> (err, s\<lparr>st_buf := b, st_File := f\<rparr>, w1)))"

section \<open>What a store holds\<close>

definition frame :: "bytes \<Rightarrow> bytes" where
  "frame p = PutUint64 (of_nat (length p)) @ p"

definition frame_at :: "bytes \<Rightarrow> nat \<Rightarrow> bytes \<Rightarrow> bool" where
  "frame_at bs pos p \<longleftrightarrow> pos + length (frame p) \<le> length bs \<and>
     take (length (frame p)) (drop pos bs) = frame p"

definition store_rep :: "store \<Rightarrow> world \<Rightarrow> bytes \<Rightarrow> bool" where
  "store_rep s w bs \<longleftrightarrow> quiet w \<and> \<not> fclosed (st_File s) \<and> bw_err (st_buf s) = None \<and>
     (\<exists>c. fget w (fname (st_File s)) = Some c \<and> c @ bw_buf (st_buf s) = bs) \<and>
     unat (st_size s) = length bs \<and> length bs < 2 ^ 63"

abbreviation st_path :: "store \<Rightarrow> path" where
  "st_path s \<equiv> fname (st_File s)"

lemma length_frame [simp]: "length (frame p) = length p + 8"
  by (simp add: frame_def)

lemma frame_at_append: "frame_at bs pos p \<Longrightarrow> frame_at (bs @ cs) pos p"
  by (auto simp: frame_at_def)

lemma frame_at_end: "frame_at (bs @ frame p) (length bs) p"
  by (simp add: frame_at_def)

lemma frame_at_size: "frame_at bs pos p \<Longrightarrow> take 8 (drop pos bs) = PutUint64 (of_nat (length p))"
proof -
  assume "frame_at bs pos p"
  then have "take 8 (take (length (frame p)) (drop pos bs)) = take 8 (frame p)"
    by (simp add: frame_at_def)
  then show ?thesis by (simp add: frame_def)
qed

lemma frame_at_data: "frame_at bs pos p \<Longrightarrow> take (length p) (drop (pos + 8) bs) = p"
proof -
  assume "frame_at bs pos p"
  then have "drop 8 (take (length (frame p)) (drop pos bs)) = drop 8 (frame p)"
    by (simp add: frame_at_def)
  then show ?thesis by (simp add: frame_def drop_take add.commute)
qed

section \<open>Behaviour\<close>

lemma newStore_rep:
  assumes "quiet w" "\<not> fclosed f" "fget w (fname f) = Some c" "length c < 2 ^ 63"
  shows "\<exists>s. newStore f w = (Inr s, w) \<and> st_File s = f \<and> store_rep s w c"
  using assms by (simp add: newStore_def os_Stat_quiet store_rep_def bufio_NewWriter_def)

lemma store_Append_rep:
  assumes rep: "store_rep s w bs" and room: "length bs + length (frame p) < 2 ^ 63"
  shows "\<exists>s' w'. store_Append p s w = (Inr (of_nat (length (frame p)), of_nat (length bs)), s', w') \<and>
    store_rep s' w' (bs @ frame p) \<and> st_File s' = st_File s \<and> touches {st_path s} w w'"
proof -
  from rep obtain c where c: "quiet w" "\<not> fclosed (st_File s)" "bw_err (st_buf s) = None"
    "fget w (st_path s) = Some c" "c @ bw_buf (st_buf s) = bs"
    "unat (st_size s) = length bs" by (auto simp: store_rep_def)
  obtain b1 w1 c1 where 1: "bufio_Write (st_File s) (PutUint64 (of_nat (length p))) (st_buf s) w =
      ((8, None), b1, w1)" "bw_err b1 = None" "fget w1 (st_path s) = Some c1"
      "c1 @ bw_buf b1 = bs @ PutUint64 (of_nat (length p))" "touches {st_path s} w w1"
    by (rule bufio_Write_quiet [OF c(1-4), of "PutUint64 (of_nat (length p))"])
       (use c in \<open>simp flip: append_assoc\<close>)
  obtain b2 w2 c2 where 2: "bufio_Write (st_File s) p b1 w1 = ((length p, None), b2, w2)"
      "bw_err b2 = None" "fget w2 (st_path s) = Some c2" "c2 @ bw_buf b2 = c1 @ bw_buf b1 @ p"
      "touches {st_path s} w1 w2"
    by (rule bufio_Write_quiet [of w1 "st_File s" b1 c1 p]) (use 1 c in auto)
  have sz: "st_size s = of_nat (length bs)" using c room by (simp add: u64_of_nat_eq)
  let ?s = "s\<lparr>st_buf := b2, st_size := st_size s + of_nat (length p + 8)\<rparr>"
  have run: "store_Append p s w = (Inr (of_nat (length (frame p)), of_nat (length bs)), ?s, w2)"
    using 1(1) 2(1) by (simp add: store_Append_def recordLenBytes_def sz Let_def)
  have "unat (of_nat (length p + 8) :: u64) = length p + 8"
    using room by (intro u64_of_nat) simp
  then have "unat (st_size ?s) = length (bs @ frame p)"
    using c room by (simp add: unat_u64_add del: of_nat_add)
  moreover have "c2 @ bw_buf b2 = bs @ frame p"
    using 1(4) 2(4) by (simp add: frame_def flip: append_assoc)
  moreover have t: "touches {st_path s} w w2" using 1 2 by (blast intro: touches_trans)
  ultimately have "store_rep ?s w2 (bs @ frame p)"
    unfolding store_rep_def using 2(2,3) c(2) room touches_quiet [OF t] by simp
  with run t show ?thesis by auto
qed

lemma store_flush_rep:
  assumes "store_rep s w bs"
  obtains w' where "bufio_Flush (st_File s) (st_buf s) w = (None, (st_buf s)\<lparr>bw_buf := []\<rparr>, w')"
    "fget w' (st_path s) = Some bs" "touches {st_path s} w w'"
    "store_rep (s\<lparr>st_buf := (st_buf s)\<lparr>bw_buf := []\<rparr>\<rparr>) w' bs"
  using assms bufio_Flush_quiet [of w "st_File s" "st_buf s"] by (auto simp: store_rep_def)

lemma store_Read_rep:
  assumes rep: "store_rep s w bs" and at: "frame_at bs pos p" and small: "length p \<le> maxAlloc"
  shows "\<exists>s' w'. store_Read (of_nat pos) s w = (Inr p, s', w') \<and> store_rep s' w' bs \<and>
    st_File s' = st_File s \<and> touches {st_path s} w w'"
proof -
  obtain w' where w': "bufio_Flush (st_File s) (st_buf s) w = (None, (st_buf s)\<lparr>bw_buf := []\<rparr>, w')"
    "fget w' (st_path s) = Some bs" "touches {st_path s} w w'"
    "store_rep (s\<lparr>st_buf := (st_buf s)\<lparr>bw_buf := []\<rparr>\<rparr>) w' bs"
    using store_flush_rep [OF rep] .
  from rep have nc: "\<not> fclosed (st_File s)" and len: "length bs < 2 ^ 63"
    by (auto simp: store_rep_def)
  from at have pos: "pos + 8 + length p \<le> length bs" by (simp add: frame_at_def)
  have "unat (of_nat pos + 8 :: u64) = pos + 8"
    using pos len by (subst unat_u64_add) simp_all
  then have "os_ReadAt (st_File s) (length p) (of_nat pos + 8) w' = ((p, None), w')"
    using w' nc pos len frame_at_data [OF at] by (subst os_ReadAt_quiet) auto
  moreover have "os_ReadAt (st_File s) 8 (of_nat pos) w' = ((PutUint64 (of_nat (length p)), None), w')"
    using w' nc pos len frame_at_size [OF at] by (subst os_ReadAt_quiet) auto
  moreover have "unat (of_nat (length p) :: u64) = length p" using pos len by simp
  ultimately show ?thesis
    using w' small by (auto simp: store_Read_def recordLenBytes_def Let_def)
qed

lemma store_Close_rep:
  assumes "store_rep s w bs"
  shows "\<exists>s' w'. store_Close s w = (None, s', w') \<and> fget w' (st_path s) = Some bs \<and>
    fname (st_File s') = st_path s \<and> fclosed (st_File s') \<and> touches {st_path s} w w'"
proof -
  obtain w' where "bufio_Flush (st_File s) (st_buf s) w = (None, (st_buf s)\<lparr>bw_buf := []\<rparr>, w')"
    "fget w' (st_path s) = Some bs" "touches {st_path s} w w'"
    using store_flush_rep [OF assms] .
  with assms show ?thesis
    by (auto simp: store_Close_def os_Close_quiet store_rep_def)
qed

section \<open>Errors\<close>

text \<open>
  An error sticks to the writer: once an append has failed, the store refuses every further append
  with the same error, so a half-written frame is never followed by another one.
\<close>

lemma bufio_Write_loop_error:
  "bufio_Write_loop f p nn b w = ((n, Some e), b', w') \<Longrightarrow> bw_err b' = Some e"
proof (induction f p nn b w rule: bufio_Write_loop.induct)
  case (1 f p nn b w)
  from "1.prems" show ?case
    by (subst (asm) bufio_Write_loop.simps)
       (auto simp: Let_def split: if_splits prod.splits option.splits intro: "1.IH")
qed

lemma bufio_Write_failed:
  "bw_err b = Some e \<Longrightarrow> bufio_Write f p b w = ((0, Some e), b, w)"
  by (simp add: bufio_Write_def bufio_Write_loop.simps)

lemma store_Append_failed:
  assumes "store_Append p s w = (Inl e, s', w')"
  shows "bw_err (st_buf s') = Some e \<and> st_size s' = st_size s \<and> st_File s' = st_File s"
  using assms
  by (auto simp: store_Append_def Let_def bufio_Write_def split: prod.splits option.splits
      dest: bufio_Write_loop_error)

lemma store_rep_cong:
  "store_rep s w bs \<Longrightarrow> quiet w' \<Longrightarrow> fget w' (st_path s) = fget w (st_path s) \<Longrightarrow> store_rep s w' bs"
  by (simp add: store_rep_def)

section \<open>The interface of the store\<close>

text \<open>
  What a client of the store relies on: an append writes one frame at the end and returns its
  length and position, a read at the position of a frame returns its payload, and neither disturbs
  anything else (\<open>keeps\<close>).
\<close>

locale frame_store =
  fixes append :: "bytes \<Rightarrow> 's \<Rightarrow> (goerr + u64 \<times> u64) \<times> 's"
    and read :: "u64 \<Rightarrow> 's \<Rightarrow> (goerr + bytes) \<times> 's"
    and rep :: "'s \<Rightarrow> bytes \<Rightarrow> bool"
    and keeps :: "'s \<Rightarrow> 's \<Rightarrow> bool"
  assumes append_rep: "rep s bs \<Longrightarrow> length bs + length (frame p) < 2 ^ 63 \<Longrightarrow>
      \<exists>s'. append p s = (Inr (of_nat (length (frame p)), of_nat (length bs)), s') \<and>
           rep s' (bs @ frame p) \<and> keeps s s'"
    and read_rep: "rep s bs \<Longrightarrow> frame_at bs pos p \<Longrightarrow> length p \<le> maxAlloc \<Longrightarrow>
      \<exists>s'. read (of_nat pos) s = (Inr p, s') \<and> rep s' bs \<and> keeps s s'"
    and keeps_refl: "rep s bs \<Longrightarrow> keeps s s"
    and keeps_trans: "keeps s s' \<Longrightarrow> keeps s' s'' \<Longrightarrow> keeps s s''"
begin

primrec appends :: "bytes list \<Rightarrow> 's \<Rightarrow> (goerr + u64 list) \<times> 's" where
  "appends [] s = (Inr [], s)"
| "appends (p # ps) s = (case append p s of
     (Inl e, s') \<Rightarrow> (Inl e, s')
   | (Inr (_, pos), s') \<Rightarrow>
       (case appends ps s' of (Inl e, s'') \<Rightarrow> (Inl e, s'')
        | (Inr poss, s'') \<Rightarrow> (Inr (pos # poss), s'')))"

lemma appends_rep:
  assumes "rep s bs" "length bs + length (concat (map frame ps)) < 2 ^ 63"
  shows "\<exists>poss s'. appends ps s = (Inr (map of_nat poss), s') \<and> length poss = length ps \<and>
    rep s' (bs @ concat (map frame ps)) \<and> keeps s s' \<and>
    (\<forall>i < length ps. frame_at (bs @ concat (map frame ps)) (poss ! i) (ps ! i))"
  using assms
proof (induction ps arbitrary: s bs)
  case Nil
  then show ?case by (auto intro: keeps_refl)
next
  case (Cons p ps)
  then obtain s1 where s1: "append p s = (Inr (of_nat (length (frame p)), of_nat (length bs)), s1)"
    "rep s1 (bs @ frame p)" "keeps s s1"
    using append_rep [of s bs p] by auto
  obtain poss s' where IH: "appends ps s1 = (Inr (map of_nat poss), s')" "length poss = length ps"
    "rep s' ((bs @ frame p) @ concat (map frame ps))" "keeps s1 s'"
    "\<forall>i < length ps. frame_at ((bs @ frame p) @ concat (map frame ps)) (poss ! i) (ps ! i)"
    using Cons.IH [OF s1(2)] Cons.prems by auto
  let ?all = "bs @ frame p @ concat (map frame ps)"
  have "frame_at ?all ((length bs # poss) ! i) ((p # ps) ! i)" if "i < length (p # ps)" for i
  proof (cases i)
    case 0
    then show ?thesis using frame_at_append [OF frame_at_end, of bs p] by simp
  next
    case (Suc j)
    with that IH(5) show ?thesis by simp
  qed
  moreover have "appends (p # ps) s = (Inr (map of_nat (length bs # poss)), s')"
    using s1 IH by simp
  ultimately show ?case
    using s1 IH keeps_trans by (intro exI [of _ "length bs # poss"] exI [of _ s']) auto
qed

text \<open>Whatever was appended is read back, from every position handed out.\<close>

lemma appends_read:
  assumes "rep s bs" "length bs + length (concat (map frame ps)) < 2 ^ 63"
    and "\<forall>p \<in> set ps. length p \<le> maxAlloc"
  shows "\<exists>poss s'. appends ps s = (Inr poss, s') \<and> length poss = length ps \<and>
    (\<forall>i < length ps. \<exists>s''. read (poss ! i) s' = (Inr (ps ! i), s''))"
proof -
  obtain poss s' where *: "appends ps s = (Inr (map of_nat poss), s')" "length poss = length ps"
    "rep s' (bs @ concat (map frame ps))"
    "\<forall>i < length ps. frame_at (bs @ concat (map frame ps)) (poss ! i) (ps ! i)"
    using appends_rep [OF assms(1,2)] by blast
  then have "\<exists>s''. read (map of_nat poss ! i) s' = (Inr (ps ! i), s'')" if "i < length ps" for i
    using read_rep [OF *(3), of "poss ! i" "ps ! i"] assms(3) that by auto
  with * show ?thesis by (intro exI [of _ "map of_nat poss"] exI [of _ s']) simp
qed

end

interpretation st: frame_store
  "\<lambda>p (s, w). store_Append p s w" "\<lambda>pos (s, w). store_Read pos s w"
  "\<lambda>(s, w) bs. store_rep s w bs"
  "\<lambda>(s, w) (s', w'). st_File s' = st_File s \<and> touches {st_path s} w w'"
proof (unfold_locales, goal_cases)
  case (1 s bs p)
  then show ?case using store_Append_rep by (cases s) fastforce
next
  case (2 s bs pos p)
  then show ?case using store_Read_rep by (cases s) fastforce
next
  case (3 s bs)
  then show ?case by (auto simp: store_rep_def intro: touches_refl)
next
  case (4 s s' s'')
  then show ?case by (auto intro: touches_trans)
qed


text \<open>A sequence of appends to a store, with the positions that they return.\<close>

fun store_appends :: "bytes list \<Rightarrow> store \<Rightarrow> world \<Rightarrow> (goerr + u64 list) \<times> store \<times> world" where
  "store_appends [] s w = (Inr [], s, w)"
| "store_appends (p # ps) s w = (case store_Append p s w of
     (Inl e, s', w') \<Rightarrow> (Inl e, s', w')
   | (Inr (_, pos), s', w') \<Rightarrow> (case store_appends ps s' w' of
       (Inl e, s'', w'') \<Rightarrow> (Inl e, s'', w'')
     | (Inr poss, s'', w'') \<Rightarrow> (Inr (pos # poss), s'', w'')))"

lemma store_appends_eq: "store_appends ps s w = st.appends ps (s, w)"
  by (induction ps arbitrary: s w) (auto split: sum.splits prod.splits)

end
