(* ===== verification/Api.thy ===== *)
theory Api
  imports GoOS
begin

text \<open>
  The messages of the service (src/api/v1/log.proto, the fields of src/api/v1/log.pb.go), the
  configuration of the log package (src/internal/log/config.go), and the third-party functions that
  the log package calls. The latter are not part of the repository: they are the fields of a record
  \<open>ext\<close> that every definition that calls them takes as an argument, and what the code relies on is
  stated by the two predicates \<open>codec_ok\<close> and \<open>mmap_ok\<close>.
\<close>

section \<open>Messages\<close>

record api_Record =
  r_Value :: bytes
  r_Offset :: u64
  r_Term :: u64
  r_Type :: u32

text \<open>Message fields of message type are pointers in Go, so the record of a request may be missing.\<close>

record ProduceRequest = preq_Record :: "api_Record option"

record ProduceResponse = pres_Offset :: u64

record ConsumeRequest = creq_Offset :: u64

record ConsumeResponse = cres_Record :: api_Record

record api_Server =
  srv_Id :: string
  srv_RpcAddr :: string
  srv_IsLeader :: bool

record GetServersResponse = gres_Servers :: "api_Server list"

section \<open>The out-of-range error\<close>

text \<open>
  The status that \<^verbatim>\<open>ErrOffsetOutOfRange.GRPCStatus\<close> builds (src/api/v1/error.go): a code, a message
  and localised messages as details. Attaching a detail is a function of the gRPC library, the
  parameter \<open>withDetails\<close>; when it fails the status goes out without the detail.
\<close>

record status =
  status_code :: code
  status_msg :: string
  status_details :: "(string \<times> string) list"

definition GRPCStatus :: "(status \<Rightarrow> string \<times> string \<Rightarrow> goerr + status) \<Rightarrow> u64 \<Rightarrow> status" where
  "GRPCStatus withDetails off =
     (let st = \<lparr>status_code = Code_OutOfRange, status_msg = ''offset out of range: '' @ dec (unat off),
                status_details = []\<rparr>;
          msg = ''The requested offset is outside the log's range: '' @ dec (unat off)
      in case withDetails st (''en-US'', msg) of Inl _ \<Rightarrow> st | Inr std \<Rightarrow> std)"

text \<open>
  The text of the error is that of its status, \<open>statusErr\<close>, as the gRPC library prints it
  (\<^verbatim>\<open>Status.Err().Error()\<close>).
\<close>

definition ErrOffsetOutOfRange_Error :: "(status \<Rightarrow> string) \<Rightarrow> (status \<Rightarrow> string \<times> string \<Rightarrow> goerr + status) \<Rightarrow> u64 \<Rightarrow> string" where
  "ErrOffsetOutOfRange_Error statusErr withDetails off = statusErr (GRPCStatus withDetails off)"

section \<open>Configuration of the log\<close>

record Config =
  MaxStoreBytes :: u64
  MaxIndexBytes :: u64
  InitialOffset :: u64

text \<open>
  The sizes for which the code is meant: an index that has room for an entry and whose relative
  offsets fit 32 bits, and a store limit that stays clear of the largest file offset.
\<close>

definition config_ok :: "Config \<Rightarrow> bool" where
  "config_ok c \<longleftrightarrow> 12 \<le> unat (MaxIndexBytes c) \<and> unat (MaxIndexBytes c) < 2 ^ 32 \<and>
     0 < unat (MaxStoreBytes c) \<and> unat (MaxStoreBytes c) < 2 ^ 62"

section \<open>Third-party functions\<close>

text \<open>
  \<open>marshal\<close> and \<open>unmarshal\<close> are \<^verbatim>\<open>proto.Marshal\<close> and \<^verbatim>\<open>proto.Unmarshal\<close> of a \<^verbatim>\<open>Record\<close>;
  \<open>mm_Map\<close> takes the contents of a file to the mapped slice (\<^verbatim>\<open>gommap.Map\<close>), \<open>mm_Sync\<close> takes the
  slice and the contents of the file to the contents after \<^verbatim>\<open>MMap.Sync\<close>, \<open>mm_UnsafeUnmap\<close> is
  \<^verbatim>\<open>MMap.UnsafeUnmap\<close>. They say what the calls do when the operating system grants them; that it may
  refuse them, like any other system call, is part of the operations of \<open>Index\<close> that use them.
\<close>

record ext =
  marshal :: "api_Record \<Rightarrow> goerr + bytes"
  unmarshal :: "bytes \<Rightarrow> goerr + api_Record"
  mm_Map :: "bytes \<Rightarrow> goerr + bytes"
  mm_Sync :: "bytes \<Rightarrow> bytes \<Rightarrow> goerr + bytes"
  mm_UnsafeUnmap :: "bytes \<Rightarrow> goerr option"

text \<open>
  The protobuf documentation: a message that was serialised is parsed back to itself, and a
  serialised message is smaller than 2 GiB.
\<close>

definition codec_ok :: "ext \<Rightarrow> bool" where
  "codec_ok x \<longleftrightarrow> (\<forall>r p. marshal x r = Inr p \<longrightarrow> unmarshal x p = Inr r \<and> length p < 2 ^ 31)"

text \<open>
  The documentation of a shared mapping, for calls that the operating system grants: the slice shows
  the file, synchronising writes the slice to the file, and a mapped slice can be unmapped. A file of
  length 0 cannot be mapped.
\<close>

definition mmap_ok :: "ext \<Rightarrow> bool" where
  "mmap_ok x \<longleftrightarrow> (\<forall>c. c \<noteq> [] \<longrightarrow> mm_Map x c = Inr c) \<and>
     (\<forall>m c. length m = length c \<longrightarrow> mm_Sync x m c = Inr m) \<and> (\<forall>m. mm_UnsafeUnmap x m = None)"

lemma codec_okD:
  "codec_ok x \<Longrightarrow> marshal x r = Inr p \<Longrightarrow> unmarshal x p = Inr r"
  "codec_ok x \<Longrightarrow> marshal x r = Inr p \<Longrightarrow> length p < 2 ^ 31"
  by (auto simp: codec_ok_def)

section \<open>A concrete instance\<close>

text \<open>
  A codec and a mapping that satisfy the two predicates: the fields in a fixed order, the numbers
  big-endian, a record that would exceed the size limit refused. It is used to evaluate the model on
  concrete inputs.
\<close>

definition demo_marshal :: "api_Record \<Rightarrow> goerr + bytes" where
  "demo_marshal r =
     (if 2 ^ 30 \<le> length (r_Value r) then Inl (Extern ''proto: message too large'')
      else Inr (PutUint64 (r_Offset r) @ PutUint64 (r_Term r) @ PutUint32 (r_Type r) @ r_Value r))"

definition demo_unmarshal :: "bytes \<Rightarrow> goerr + api_Record" where
  "demo_unmarshal p =
     (if length p < 20 then Inl (Extern ''proto: cannot parse'')
      else Inr \<lparr>r_Value = drop 20 p, r_Offset = Uint64 (take 8 p),
                r_Term = Uint64 (take 8 (drop 8 p)), r_Type = Uint32 (take 4 (drop 16 p))\<rparr>)"

definition demo :: ext where
  "demo = \<lparr>marshal = demo_marshal, unmarshal = demo_unmarshal, mm_Map = Inr,
           mm_Sync = (\<lambda>m c. Inr m), mm_UnsafeUnmap = (\<lambda>m. None)\<rparr>"

lemma demo_codec_ok [simp]: "codec_ok demo"
  by (auto simp: codec_ok_def demo_def demo_marshal_def demo_unmarshal_def split: if_splits)

lemma demo_mmap_ok [simp]: "mmap_ok demo"
  by (simp add: mmap_ok_def demo_def)

end
