(* ===== verification/Index.thy ===== *)
theory Index
  imports GoOS Api
begin

text \<open>
  The index (src/internal/log/index.go): fixed-width entries (relative offset, position) in a
  memory-mapped file of \<open>MaxIndexBytes\<close> bytes. \<open>index_rep c i w es\<close> says that the open index \<open>i\<close>
  holds the entries \<open>es\<close>; \<open>index_disk p w es\<close> says so of a closed index file.
\<close>

section \<open>State\<close>

definition offWidth :: u64 where "offWidth = 4"
definition posWidth :: u64 where "posWidth = 8"
definition entWidth :: u64 where "entWidth = offWidth + posWidth"

record index =
  ix_file :: osfile
  ix_mmap :: bytes
  ix_mapped :: bool
  ix_size :: u64

text \<open>
  A slice expression \<^verbatim>\<open>m[a:b]\<close> on the mapped memory panics out of bounds. After \<^verbatim>\<open>UnsafeUnmap\<close> the slice
  still has its old address. Touching it is an error that the model marks by the panic
  \<^verbatim>\<open>unexpected fault address\<close>: that is what happens as long as the address is free. When it has been
  mapped again in the meantime the access hits that other mapping, and nothing is claimed about what
  follows; statements about histories of operations end there (\<open>undefined_access\<close>).
\<close>

definition mem_slice :: "index \<Rightarrow> u64 \<Rightarrow> u64 \<Rightarrow> goerr + bytes" where
  "mem_slice i a b =
     (if b < a \<or> length (ix_mmap i) < unat b then Inl (Panic ''slice bounds out of range'')
      else if \<not> ix_mapped i then Inl (Panic ''unexpected fault address'')
      else Inr (take (unat b - unat a) (drop (unat a) (ix_mmap i))))"

definition mem_put :: "u64 \<Rightarrow> u64 \<Rightarrow> bytes \<Rightarrow> index \<Rightarrow> goerr + index" where
  "mem_put a b bs i =
     (if b < a \<or> length (ix_mmap i) < unat b then Inl (Panic ''slice bounds out of range'')
      else if \<not> ix_mapped i then Inl (Panic ''unexpected fault address'')
      else Inr (i\<lparr>ix_mmap := take (unat a) (ix_mmap i) @ bs @ drop (unat a + length bs) (ix_mmap i)\<rparr>))"

section \<open>Operations\<close>

text \<open>
  The three calls on the mapping are system calls, so each of them may be refused: the next fault of
  the world is taken first. A synchronisation that fails may have written a part of the slice.
\<close>

definition file_bytes :: "world \<Rightarrow> path \<Rightarrow> bytes" where
  "file_bytes w p = (case fget w p of None \<Rightarrow> [] | Some bs \<Rightarrow> bs)"

definition mmap_Map :: "ext \<Rightarrow> path \<Rightarrow> world \<Rightarrow> (goerr + bytes) \<times> world" where
  "mmap_Map x p w0 = (case take_fault w0 of
     (Some (e, k), w) \<Rightarrow> (Inl e, w)
   | (None, w) \<Rightarrow> (mm_Map x (file_bytes w p), w))"

definition mmap_Sync :: "ext \<Rightarrow> path \<Rightarrow> bytes \<Rightarrow> world \<Rightarrow> goerr option \<times> world" where
  "mmap_Sync x p m w0 = (case take_fault w0 of
     (Some (e, k), w) \<Rightarrow> (Some e, fput p (take k m @ drop k (file_bytes w p)) w)
   | (None, w) \<Rightarrow> (case mm_Sync x m (file_bytes w p) of
       Inl e \<Rightarrow> (Some e, w)
     | Inr synced \<Rightarrow> (None, fput p synced w)))"

definition mmap_UnsafeUnmap :: "ext \<Rightarrow> bytes \<Rightarrow> world \<Rightarrow> goerr option \<times> world" where
  "mmap_UnsafeUnmap x m w0 = (case take_fault w0 of
     (Some (e, k), w) \<Rightarrow> (Some e, w)
   | (None, w) \<Rightarrow> (mm_UnsafeUnmap x m, w))"

definition newIndex :: "ext \<Rightarrow> osfile \<Rightarrow> Config \<Rightarrow> world \<Rightarrow> (goerr + index) \<times> world" where
  "newIndex x f c w0 = (case os_Stat (fname f) w0 of
     (Inl e, w) \<Rightarrow> (Inl e, w)
   | (Inr n, w) \<Rightarrow>
       (case os_Truncate (fname f) (MaxIndexBytes c) w of
          (Some e, w1) \<Rightarrow> (Inl e, w1)
        | (None, w1) \<Rightarrow>
            (case mmap_Map x (fname f) w1 of
               (Inl e, w2) \<Rightarrow> (Inl e, w2)
             | (Inr m, w2) \<Rightarrow>
                 (Inr \<lparr>ix_file = f, ix_mmap = m, ix_mapped = True, ix_size = of_nat n\<rparr>, w2))))"

text \<open>
  Once the slice has been unmapped its address is free and \<^verbatim>\<open>msync\<close> fails; should the address have been
  mapped again, the call acts on that other mapping, which is an undefined access like those above.
\<close>

definition index_Close :: "ext \<Rightarrow> index \<Rightarrow> world \<Rightarrow> goerr option \<times> index \<times> world" where
  "index_Close x i w =
     (if \<not> ix_mapped i then (Some (Extern ''msync: cannot allocate memory''), i, w)
      else case mmap_Sync x (fname (ix_file i)) (ix_mmap i) w of
        (Some e, w1) \<Rightarrow> (Some e, i, w1)
      | (None, w1) \<Rightarrow> (case mmap_UnsafeUnmap x (ix_mmap i) w1 of
          (Some e, w2) \<Rightarrow> (Some e, i, w2)
        | (None, w2) \<Rightarrow>
            (let i1 = i\<lparr>ix_mapped := False\<rparr> in
             case os_Sync (ix_file i1) w2 of
               (Some e, w3) \<Rightarrow> (Some e, i1, w3)
             | (None, w3) \<Rightarrow>
                 (case os_FTruncate (ix_file i1) (ix_size i1) w3 of
                    (Some e, w4) \<Rightarrow> (Some e, i1, w4)
                  | (None, w4) \<Rightarrow>
                      (case os_Close (ix_file i1) w4 of (err, f, w5) \<Rightarrow>
                         (err, i1\<lparr>ix_file := f\<rparr>, w5))))))"

text \<open>The argument is an \<^verbatim>\<open>int64\<close>; \<open>-1\<close> asks for the last entry.\<close>

definition index_Read :: "u64 \<Rightarrow> index \<Rightarrow> goerr + u32 \<times> u64" where
  "index_Read inn i =
     (if ix_size i = 0 then Inl EOF
      else
        (let out = (if inn = -1 then ucast (ix_size i div entWidth - 1) else ucast inn) :: u32;
             pos = ucast out * entWidth
         in if ix_size i < pos + entWidth then Inl EOF
            else case mem_slice i pos (pos + offWidth) of
                   Inl e \<Rightarrow> Inl e
                 | Inr ob \<Rightarrow>
                     (case mem_slice i (pos + offWidth) (pos + entWidth) of
                        Inl e \<Rightarrow> Inl e
                      | Inr pb \<Rightarrow> Inr (Uint32 ob, Uint64 pb))))"

definition index_isMaxed :: "index \<Rightarrow> bool" where
  "index_isMaxed i \<longleftrightarrow> of_nat (length (ix_mmap i)) < ix_size i + entWidth"

definition index_Write :: "u32 \<Rightarrow> u64 \<Rightarrow> index \<Rightarrow> goerr option \<times> index" where
  "index_Write off pos i =
     (if index_isMaxed i then (Some EOF, i)
      else case mem_put (ix_size i) (ix_size i + offWidth) (PutUint32 off) i of
             Inl e \<Rightarrow> (Some e, i)
           | Inr i1 \<Rightarrow>
               (case mem_put (ix_size i + offWidth) (ix_size i + entWidth) (PutUint64 pos) i1 of
                  Inl e \<Rightarrow> (Some e, i1)
                | Inr i2 \<Rightarrow> (None, i2\<lparr>ix_size := ix_size i2 + entWidth\<rparr>)))"

definition index_Name :: "index \<Rightarrow> path" where
  "index_Name i = fname (ix_file i)"

section \<open>What an index holds\<close>

type_synonym entry = "u32 \<times> u64"

definition ent :: "entry \<Rightarrow> bytes" where
  "ent e = PutUint32 (fst e) @ PutUint64 (snd e)"

definition index_rep :: "Config \<Rightarrow> index \<Rightarrow> world \<Rightarrow> entry list \<Rightarrow> bool" where
  "index_rep c i w es \<longleftrightarrow> config_ok c \<and> quiet w \<and> \<not> fclosed (ix_file i) \<and> ix_mapped i \<and>
     (\<exists>bs. fget w (fname (ix_file i)) = Some bs \<and> length bs = length (ix_mmap i)) \<and>
     length (ix_mmap i) = unat (MaxIndexBytes c) \<and>
     unat (ix_size i) = 12 * length es \<and> 12 * length es \<le> length (ix_mmap i) \<and>
     take (12 * length es) (ix_mmap i) = concat (map ent es) \<and>
     drop (12 * length es) (ix_mmap i) = replicate (length (ix_mmap i) - 12 * length es) 0"

definition index_disk :: "path \<Rightarrow> world \<Rightarrow> entry list \<Rightarrow> bool" where
  "index_disk p w es \<longleftrightarrow> fget w p = Some (concat (map ent es))"

lemma length_ent [simp]: "length (ent e) = 12"
  by (simp add: ent_def)

lemma length_ents [simp]: "length (concat (map ent es)) = 12 * length es"
  by (induction es) auto

lemma entWidth_eq: "entWidth = 12"
  by (simp add: entWidth_def offWidth_def posWidth_def)

lemma ents_nth: "i < length es \<Longrightarrow> take 12 (drop (12 * i) (concat (map ent es))) = ent (es ! i)"
proof (induction es arbitrary: i)
  case (Cons e es)
  then show ?case by (cases i) (simp_all add: algebra_simps)
qed simp

lemma index_rep_entry:
  assumes "index_rep c i w es" "k < length es"
  shows "take 4 (drop (12 * k) (ix_mmap i)) = PutUint32 (fst (es ! k))"
    and "take 8 (drop (12 * k + 4) (ix_mmap i)) = PutUint64 (snd (es ! k))"
proof -
  have "take 12 (drop (12 * k) (ix_mmap i)) = take 12 (drop (12 * k) (take (12 * length es) (ix_mmap i)))"
    using assms(2) by (simp add: drop_take min_def)
  also have "\<dots> = ent (es ! k)"
    using assms ents_nth by (simp add: index_rep_def)
  finally have e: "take 12 (drop (12 * k) (ix_mmap i)) = ent (es ! k)" .
  have "take 4 (take 12 (drop (12 * k) (ix_mmap i))) = PutUint32 (fst (es ! k))"
    by (simp only: e) (simp add: ent_def)
  then show "take 4 (drop (12 * k) (ix_mmap i)) = PutUint32 (fst (es ! k))" by simp
  have "drop 4 (take 12 (drop (12 * k) (ix_mmap i))) = PutUint64 (snd (es ! k))"
    by (simp only: e) (simp add: ent_def)
  then show "take 8 (drop (12 * k + 4) (ix_mmap i)) = PutUint64 (snd (es ! k))"
    by (simp add: drop_take add.commute)
qed

section \<open>Behaviour\<close>

lemma mmap_quiet [os_ok]:
  "quiet w \<Longrightarrow> mmap_Map x p w = (mm_Map x (file_bytes w p), w)"
  "quiet w \<Longrightarrow> mmap_Sync x p m w = (case mm_Sync x m (file_bytes w p) of Inl e \<Rightarrow> (Some e, w) | Inr synced \<Rightarrow> (None, fput p synced w))"
  "quiet w \<Longrightarrow> mmap_UnsafeUnmap x m w = (mm_UnsafeUnmap x m, w)"
  by (simp_all add: mmap_Map_def mmap_Sync_def mmap_UnsafeUnmap_def)

lemma mmap_Map_frame:
  "mmap_Map x p w = (r, w') \<Longrightarrow> fs w' = fs w \<and> fpos w' = fpos w \<and> fget w' = fget w \<and> (\<forall>m. r = Inr m \<longrightarrow> mm_Map x (file_bytes w p) = Inr m)"
  by (auto simp: mmap_Map_def take_fault_def fget_def file_bytes_def fun_eq_iff split: list.splits option.splits)

lemma index_Read_at:
  assumes rep: "index_rep c i w es" and k: "k < length es"
    and out: "(if inn = -1 then ucast (ix_size i div entWidth - 1) else ucast inn) = (of_nat k :: u32)"
  shows "index_Read inn i = Inr (es ! k)"
proof -
  let ?pos = "ucast (of_nat k :: u32) * entWidth :: u64"
  have bnd: "12 * length es < 2 ^ 32" "12 * k + 12 \<le> 12 * length es"
    using rep k by (auto simp: index_rep_def config_ok_def)
  have "unat (of_nat k :: u32) = k" using bnd by (intro u32_of_nat) simp
  then have pos: "unat ?pos = 12 * k"
    using bnd by (simp add: entWidth_eq unat_word_ariths)
  have p4: "unat (?pos + offWidth) = 12 * k + 4" and p12: "unat (?pos + entWidth) = 12 * k + 12"
    using pos bnd by (simp_all add: unat_u64_add offWidth_def entWidth_eq)
  have sz: "unat (ix_size i) = 12 * length es" "12 * length es \<le> length (ix_mmap i)" "ix_mapped i"
    using rep by (auto simp: index_rep_def)
  have s1: "mem_slice i ?pos (?pos + offWidth) = Inr (PutUint32 (fst (es ! k)))"
    using pos p4 sz bnd index_rep_entry(1) [OF rep k] by (simp add: mem_slice_def u64_less_iff)
  have s2: "mem_slice i (?pos + offWidth) (?pos + entWidth) = Inr (PutUint64 (snd (es ! k)))"
    using p12 p4 sz bnd index_rep_entry(2) [OF rep k] by (simp add: mem_slice_def u64_less_iff)
  have "ix_size i \<noteq> 0" "\<not> ix_size i < ?pos + entWidth"
    using sz bnd k p12 by (auto simp: u64_simps)
  with s1 s2 out show ?thesis by (simp add: index_Read_def Let_def)
qed

lemma index_Read_rep:
  assumes "index_rep c i w es" "k < length es"
  shows "index_Read (of_nat k) i = Inr (es ! k)"
proof (rule index_Read_at [OF assms])
  have "k < 2 ^ 32" using assms by (auto simp: index_rep_def config_ok_def)
  moreover have "of_nat k \<noteq> (-1 :: u64)"
  proof
    assume "of_nat k = (-1 :: u64)"
    then have "unat (of_nat k :: u64) = unat (-1 :: u64)" by simp
    with \<open>k < 2 ^ 32\<close> show False by (simp add: unat_u64_max)
  qed
  ultimately show "(if (of_nat k :: u64) = -1 then ucast (ix_size i div entWidth - 1)
      else ucast (of_nat k :: u64)) = (of_nat k :: u32)" by (simp add: ucast_u64_u32_of_nat)
qed

lemma index_Read_last:
  assumes "index_rep c i w es" "es \<noteq> []"
  shows "index_Read (-1) i = Inr (last es)"
proof -
  have n: "length es < 2 ^ 32" "unat (ix_size i) = 12 * length es"
    using assms by (auto simp: index_rep_def config_ok_def)
  have "unat (ix_size i div entWidth) = length es"
    using n by (simp add: entWidth_eq unat_div)
  then have "ix_size i div entWidth - 1 = of_nat (length es - 1)"
    using assms(2) n by (intro u64_of_nat_eq) (simp_all add: unat_u64_sub Suc_leI)
  with index_Read_at [OF assms(1), of "length es - 1" "-1"] assms(2) show ?thesis
    by (simp add: ucast_u64_u32_of_nat last_conv_nth)
qed

lemma index_Read_EOF:
  assumes rep: "index_rep c i w es" and k: "length es \<le> k" "k < 2 ^ 32"
  shows "index_Read (of_nat k) i = Inl EOF"
proof (cases "es = []")
  case True
  with rep show ?thesis by (simp add: index_rep_def index_Read_def u64_eq_iff)
next
  case False
  have ne: "of_nat k \<noteq> (-1 :: u64)"
  proof
    assume "of_nat k = (-1 :: u64)"
    then have "unat (of_nat k :: u64) = unat (-1 :: u64)" by simp
    with k show False by (simp add: unat_u64_max)
  qed
  have u: "unat (of_nat k :: u32) = k" using k by (intro u32_of_nat) simp
  then have "unat (ucast (of_nat k :: u32) * entWidth :: u64) = 12 * k"
    using k by (simp add: entWidth_eq unat_word_ariths)
  then have "unat (ucast (of_nat k :: u32) * entWidth + entWidth :: u64) = 12 * k + 12"
    using k by (simp add: unat_u64_add entWidth_eq)
  moreover have "unat (ix_size i) = 12 * length es" using rep by (simp add: index_rep_def)
  ultimately have "ix_size i < ucast (of_nat k :: u32) * entWidth + entWidth"
    using k by (simp add: u64_less_iff)
  with ne show ?thesis by (simp add: index_Read_def ucast_u64_u32_of_nat)
qed

text \<open>
  The argument is cut to 32 bits, so every 64-bit argument reads the entry of its low half, -1 apart.
\<close>

lemma index_Read_any:
  assumes rep: "index_rep c i w es" and k: "inn \<noteq> -1"
  shows "index_Read inn i = (let k = unat (ucast inn :: u32) in if k < length es then Inr (es ! k) else Inl EOF)"
proof (cases "unat (ucast inn :: u32) < length es")
  case True
  have "ucast inn = (of_nat (unat (ucast inn :: u32)) :: u32)" by simp
  with index_Read_at [OF rep True] k True show ?thesis by simp
next
  case False
  let ?k = "unat (ucast inn :: u32)"
  have "?k < 2 ^ 32" using unsigned_less [of "ucast inn :: u32", where 'a = nat] by simp
  moreover from this have "unat (ucast (ucast inn :: u32) * entWidth :: u64) = 12 * ?k"
    by (simp add: entWidth_eq unat_word_ariths)
  ultimately have "unat (ucast (ucast inn :: u32) * entWidth + entWidth :: u64) = 12 * ?k + 12"
    by (simp add: unat_u64_add entWidth_eq)
  moreover have "unat (ix_size i) = 12 * length es" using rep by (simp add: index_rep_def)
  ultimately have "ix_size i < ucast (ucast inn :: u32) * entWidth + entWidth"
    using False by (simp add: u64_less_iff)
  with k False show ?thesis by (simp add: index_Read_def Let_def)
qed

lemma index_isMaxed_rep:
  assumes "index_rep c i w es"
  shows "index_isMaxed i \<longleftrightarrow> unat (MaxIndexBytes c) < 12 * length es + 12"
proof -
  have n: "unat (ix_size i) = 12 * length es" "12 * length es \<le> unat (MaxIndexBytes c)"
    "unat (MaxIndexBytes c) < 2 ^ 32" "length (ix_mmap i) = unat (MaxIndexBytes c)"
    using assms by (auto simp: index_rep_def config_ok_def)
  then have "unat (ix_size i + entWidth) = 12 * length es + 12"
    by (simp add: unat_u64_add entWidth_eq)
  with n show ?thesis by (simp add: index_isMaxed_def u64_less_iff)
qed

lemma index_Write_full:
  "index_rep c i w es \<Longrightarrow> unat (MaxIndexBytes c) < 12 * length es + 12 \<Longrightarrow>
     index_Write off pos i = (Some EOF, i)"
  by (simp add: index_Write_def index_isMaxed_rep)

lemma index_Write_rep:
  assumes rep: "index_rep c i w es" and room: "12 * length es + 12 \<le> unat (MaxIndexBytes c)"
  shows "\<exists>i'. index_Write off pos i = (None, i') \<and> index_rep c i' w (es @ [(off, pos)]) \<and>
    ix_file i' = ix_file i"
proof -
  let ?n = "12 * length es" and ?m = "ix_mmap i"
  have r: "unat (ix_size i) = ?n" "length ?m = unat (MaxIndexBytes c)" "ix_mapped i"
    "unat (MaxIndexBytes c) < 2 ^ 32" "take ?n ?m = concat (map ent es)"
    "drop ?n ?m = replicate (length ?m - ?n) 0"
    using rep by (auto simp: index_rep_def config_ok_def)
  have sz: "unat (ix_size i + offWidth) = ?n + 4" "unat (ix_size i + entWidth) = ?n + 12"
    using r room by (simp_all add: unat_u64_add offWidth_def entWidth_eq)
  let ?m1 = "take ?n ?m @ PutUint32 off @ drop (?n + 4) ?m"
  have p1: "mem_put (ix_size i) (ix_size i + offWidth) (PutUint32 off) i = Inr (i\<lparr>ix_mmap := ?m1\<rparr>)"
    using r sz room by (simp add: mem_put_def u64_less_iff)
  let ?m2 = "take (?n + 4) ?m1 @ PutUint64 pos @ drop (?n + 4 + 8) ?m1"
  have len: "length ?m1 = length ?m" "length ?m2 = length ?m" using r room by auto
  have p2: "mem_put (ix_size i + offWidth) (ix_size i + entWidth) (PutUint64 pos) (i\<lparr>ix_mmap := ?m1\<rparr>)
      = Inr (i\<lparr>ix_mmap := ?m2\<rparr>)"
    using r sz room len by (simp add: mem_put_def u64_less_iff)
  have "take (?n + 4) ?m1 = concat (map ent es) @ PutUint32 off"
    using r room by simp
  then have "take (12 * length (es @ [(off, pos)])) ?m2 = concat (map ent (es @ [(off, pos)]))"
    by (simp add: ent_def)
  moreover have "drop (12 * length (es @ [(off, pos)])) ?m2 = drop (12 + ?n) ?m"
    using r(1,2) room by simp
  then have "drop (12 * length (es @ [(off, pos)])) ?m2 = drop 12 (drop ?n ?m)" by simp
  then have "drop (12 * length (es @ [(off, pos)])) ?m2 = replicate (length ?m2 - 12 * length (es @ [(off, pos)])) 0"
    unfolding r(6) using len by (simp add: add.commute)
  moreover have "\<not> index_isMaxed i" using room by (simp add: index_isMaxed_rep [OF rep])
  ultimately show ?thesis
    using p1 p2 rep len sz room r by (auto simp: index_Write_def index_rep_def)
qed

lemma newIndex_rep:
  assumes "config_ok c" "mmap_ok x" "quiet w" "\<not> fclosed f" "index_disk (fname f) w es"
    and "12 * length es \<le> unat (MaxIndexBytes c)"
  shows "\<exists>i w'. newIndex x f c w = (Inr i, w') \<and> ix_file i = f \<and> index_rep c i w' es \<and>
    touches {fname f} w w'"
proof -
  let ?bs = "concat (map ent es)" and ?n = "unat (MaxIndexBytes c)"
  have n: "12 \<le> ?n" "?n < 2 ^ 32" using assms(1) by (auto simp: config_ok_def)
  have f: "fget w (fname f) = Some ?bs" using assms(5) by (simp add: index_disk_def)
  let ?w = "fput (fname f) (resize ?n ?bs) w"
  have w': "fget ?w (fname f) = Some (resize ?n ?bs)" "touches {fname f} w ?w"
    using f fget_dir [OF f] assms(3) by (auto intro!: touches_fput)
  have "resize ?n ?bs \<noteq> []" using n by (metis length_resize list.size(3) not_numeral_le_zero)
  then have "mm_Map x (resize ?n ?bs) = Inr (resize ?n ?bs)"
    using assms(2) by (simp add: mmap_ok_def)
  moreover have "take (12 * length es) (resize ?n ?bs) = ?bs"
    "drop (12 * length es) (resize ?n ?bs) = replicate (?n - 12 * length es) 0"
    using assms(6) by (simp_all add: resize_def)
  moreover have "unat (of_nat (12 * length es) :: u64) = 12 * length es"
    using assms(6) n by (intro u64_of_nat) simp
  ultimately show ?thesis
    using f w' n assms fget_dir [OF f]
    by (auto simp: newIndex_def os_Stat_quiet os_Truncate_quiet mmap_quiet file_bytes_def index_rep_def simp del: of_nat_mult)
qed

lemma index_Close_rep:
  assumes rep: "index_rep c i w es" and x: "mmap_ok x"
  shows "\<exists>i' w'. index_Close x i w = (None, i', w') \<and> index_disk (index_Name i) w' es \<and>
    index_Name i' = index_Name i \<and> fclosed (ix_file i') \<and> \<not> ix_mapped i' \<and>
    ix_size i' = ix_size i \<and> ix_mmap i' = ix_mmap i \<and> touches {index_Name i} w w'"
proof -
  let ?p = "index_Name i" and ?m = "ix_mmap i"
  obtain bs where r: "quiet w" "\<not> fclosed (ix_file i)" "ix_mapped i" "fget w ?p = Some bs"
    "length bs = length ?m" "unat (ix_size i) = 12 * length es" "length ?m < 2 ^ 32"
    "12 * length es \<le> length ?m" "take (12 * length es) ?m = concat (map ent es)"
    using rep by (auto simp: index_rep_def config_ok_def index_Name_def)
  have d: "fs w (fst ?p) \<noteq> None" using r(4) by (rule fget_dir)
  let ?w1 = "fput ?p ?m w" and ?w2 = "fput ?p (resize (12 * length es) ?m) (fput ?p ?m w)"
  have w1: "quiet ?w1" "fget ?w1 ?p = Some ?m" "touches {?p} w ?w1"
    using r d by (auto intro!: touches_fput)
  have w2: "fget ?w2 ?p = Some (concat (map ent es))" "touches {?p} w ?w2"
    using r w1 fget_dir [OF w1(2)]
    by (auto intro!: touches_trans [OF w1(3)] touches_fput simp: resize_def)
  have "os_FTruncate (ix_file i) (ix_size i) ?w1 = (None, ?w2)"
    using r w1 by (simp add: os_FTruncate_def os_Truncate_quiet index_Name_def)
  then have "index_Close x i w =
      (None, i\<lparr>ix_mapped := False, ix_file := (ix_file i)\<lparr>fclosed := True\<rparr>\<rparr>, ?w2)"
    using r w1 x touches_quiet [OF w2(2)]
    by (simp add: index_Close_def mmap_quiet file_bytes_def mmap_ok_def os_Sync_quiet os_Close_quiet index_Name_def)
  with w2 show ?thesis by (auto simp: index_disk_def index_Name_def)
qed

lemma index_rep_quiet: "index_rep c i w es \<Longrightarrow> quiet w \<and> config_ok c"
  by (simp add: index_rep_def)

lemma index_rep_cong:
  "index_rep c i w es \<Longrightarrow> quiet w' \<Longrightarrow> fget w' (index_Name i) = fget w (index_Name i) \<Longrightarrow>
     index_rep c i w' es"
  by (auto simp: index_rep_def index_Name_def)

lemma index_disk_cong: "index_disk p w es \<Longrightarrow> fget w' p = fget w p \<Longrightarrow> index_disk p w' es"
  by (simp add: index_disk_def)

section \<open>The interface of the index\<close>

text \<open>
  What a client of the index relies on. \<open>rep i cap es\<close>: the index \<open>i\<close> holds the entries \<open>es\<close> and has
  room for \<open>cap\<close> of them. The client lemma \<open>recover\<close> is how a segment finds its next offset again:
  when the entries carry the relative offsets 0, 1, 2, ... the last one tells their number.
\<close>

locale entry_index =
  fixes read :: "u64 \<Rightarrow> 'i \<Rightarrow> goerr + entry"
    and wr :: "u32 \<Rightarrow> u64 \<Rightarrow> 'i \<Rightarrow> goerr option \<times> 'i"
    and rep :: "'i \<Rightarrow> nat \<Rightarrow> entry list \<Rightarrow> bool"
  assumes read_hit: "rep i cap es \<Longrightarrow> k < length es \<Longrightarrow> read (of_nat k) i = Inr (es ! k)"
    and read_miss: "rep i cap es \<Longrightarrow> length es \<le> k \<Longrightarrow> k < 2 ^ 32 \<Longrightarrow> read (of_nat k) i = Inl EOF"
    and read_last: "rep i cap es \<Longrightarrow> es \<noteq> [] \<Longrightarrow> read (-1) i = Inr (last es)"
    and read_empty: "rep i cap [] \<Longrightarrow> read (-1) i = Inl EOF"
    and write_room: "rep i cap es \<Longrightarrow> length es < cap \<Longrightarrow>
      \<exists>i'. wr off pos i = (None, i') \<and> rep i' cap (es @ [(off, pos)])"
    and write_full: "rep i cap es \<Longrightarrow> cap \<le> length es \<Longrightarrow> wr off pos i = (Some EOF, i)"
    and rep_small: "rep i cap es \<Longrightarrow> length es < 2 ^ 32"
begin

lemma write_read:
  assumes "rep i cap es" "length es < cap"
  shows "\<exists>i'. wr off pos i = (None, i') \<and> read (of_nat (length es)) i' = Inr (off, pos) \<and>
    (\<forall>k < length es. read (of_nat k) i' = read (of_nat k) i)"
proof -
  obtain i' where i': "wr off pos i = (None, i')" "rep i' cap (es @ [(off, pos)])"
    using write_room [OF assms] by blast
  then show ?thesis
    using read_hit [OF i'(2)] read_hit [OF assms(1)] by (auto simp: nth_append)
qed

lemma recover:
  assumes "rep i cap es" "map fst es = map of_nat [0..<length es]"
  shows "case read (-1) i of Inl _ \<Rightarrow> length es = 0 | Inr (off, _) \<Rightarrow> unat off + 1 = length es"
proof (cases "es = []")
  case True
  with assms read_empty show ?thesis by simp
next
  case False
  have "fst (last es) = of_nat (length es - 1)"
    using arg_cong [OF assms(2), of last] False by (simp add: last_map)
  then have "unat (fst (last es)) = length es - 1"
    using rep_small [OF assms(1)] by simp
  then show ?thesis using read_last [OF assms(1) False] False by (cases "last es") simp
qed

end

interpretation ix: entry_index index_Read index_Write
  "\<lambda>i cap es. \<exists>c w. index_rep c i w es \<and> cap = unat (MaxIndexBytes c) div 12"
proof (unfold_locales, goal_cases)
  case (1 i cap es k)
  then show ?case using index_Read_rep by blast
next
  case (2 i cap es k)
  then show ?case using index_Read_EOF by blast
next
  case (3 i cap es)
  then show ?case using index_Read_last by blast
next
  case (4 i cap)
  then show ?case by (auto simp: index_rep_def index_Read_def u64_eq_iff)
next
  case (5 i cap es off pos)
  then obtain c w where "index_rep c i w es" "12 * length es + 12 \<le> unat (MaxIndexBytes c)"
    "cap = unat (MaxIndexBytes c) div 12" by auto
  then show ?case using index_Write_rep by blast
next
  case (6 i cap es off pos)
  then obtain c w where "index_rep c i w es" "unat (MaxIndexBytes c) < 12 * length es + 12" by auto
  then show ?case by (rule index_Write_full)
next
  case (7 i cap es)
  then show ?case by (auto simp: index_rep_def config_ok_def)
qed

end
