(* ===== verification/Segment.thy ===== *)
theory Segment
  imports Store Index
begin

text \<open>
  The segment (src/internal/log/segment.go): a store and an index that belong together.
  \<open>seg_rep x dir s w rs\<close> says that the open segment \<open>s\<close> holds exactly the records \<open>rs\<close>, with
  consecutive offsets from its base offset; \<open>seg_disk\<close> says so of the two files of a closed segment.
  The proofs go through the interfaces of the store and the index (\<open>st\<close> and \<open>ix\<close>).
\<close>

section \<open>State\<close>

record segment =
  sg_store :: store
  sg_index :: index
  sg_baseOffset :: u64
  sg_nextOffset :: u64
  sg_config :: Config

definition store_file :: "u64 \<Rightarrow> string" where
  "store_file base = dec (unat base) @ ''.store''"

definition index_file :: "u64 \<Rightarrow> string" where
  "index_file base = dec (unat base) @ ''.index''"

section \<open>Operations\<close>

definition newSegment :: "ext \<Rightarrow> string \<Rightarrow> u64 \<Rightarrow> Config \<Rightarrow> world \<Rightarrow> (goerr + segment) \<times> world" where
  "newSegment x dir baseOffset c w0 = (case os_OpenFile (dir, store_file baseOffset) w0 of
     (Inl e, w1) \<Rightarrow> (Inl e, w1)
   | (Inr storeFile, w1) \<Rightarrow>
       (case newStore storeFile w1 of
          (Inl e, w2) \<Rightarrow> (Inl e, w2)
        | (Inr st, w2) \<Rightarrow>
            (case os_OpenFile (dir, index_file baseOffset) w2 of
               (Inl e, w3) \<Rightarrow> (Inl e, w3)
             | (Inr indexFile, w3) \<Rightarrow>
                 (case newIndex x indexFile c w3 of
                    (Inl e, w4) \<Rightarrow> (Inl e, w4)
                  | (Inr i, w4) \<Rightarrow>
                      (case index_Read (-1) i of
                         Inl e \<Rightarrow>
                           (if is_panic e then (Inl e, w4)
                            else (Inr \<lparr>sg_store = st, sg_index = i, sg_baseOffset = baseOffset,
                                       sg_nextOffset = baseOffset, sg_config = c\<rparr>, w4))
                       | Inr (off, _) \<Rightarrow>
                           (Inr \<lparr>sg_store = st, sg_index = i, sg_baseOffset = baseOffset,
                                 sg_nextOffset = baseOffset + ucast off + 1, sg_config = c\<rparr>, w4))))))"

text \<open>The record is passed by pointer; assigning through a nil pointer panics.\<close>

definition segment_Append ::
  "ext \<Rightarrow> api_Record option \<Rightarrow> segment \<Rightarrow> world \<Rightarrow> (goerr + u64) \<times> segment \<times> world" where
  "segment_Append x record s w0 = (case record of
     None \<Rightarrow> (Inl (Panic ''nil pointer dereference''), s, w0)
   | Some r \<Rightarrow>
       (let cur = sg_nextOffset s in
        case marshal x (r\<lparr>r_Offset := cur\<rparr>) of
          Inl e \<Rightarrow> (Inl e, s, w0)
        | Inr p \<Rightarrow>
            (case store_Append p (sg_store s) w0 of
               (Inl e, st, w) \<Rightarrow> (Inl e, s\<lparr>sg_store := st\<rparr>, w)
             | (Inr (_, pos), st, w) \<Rightarrow>
                 (case index_Write (ucast (sg_nextOffset s - sg_baseOffset s)) pos (sg_index s) of
                    (Some e, i) \<Rightarrow> (Inl e, s\<lparr>sg_store := st, sg_index := i\<rparr>, w)
                  | (None, i) \<Rightarrow>
                      (Inr cur, s\<lparr>sg_store := st, sg_index := i,
                                  sg_nextOffset := sg_nextOffset s + 1\<rparr>, w)))))"

definition segment_Read ::
  "ext \<Rightarrow> u64 \<Rightarrow> segment \<Rightarrow> world \<Rightarrow> (goerr + api_Record) \<times> segment \<times> world" where
  "segment_Read x off s w0 = (case index_Read (off - sg_baseOffset s) (sg_index s) of
     Inl e \<Rightarrow> (Inl e, s, w0)
   | Inr (_, pos) \<Rightarrow>
       (case store_Read pos (sg_store s) w0 of
          (Inl e, st, w) \<Rightarrow> (Inl e, s\<lparr>sg_store := st\<rparr>, w)
        | (Inr p, st, w) \<Rightarrow> (unmarshal x p, s\<lparr>sg_store := st\<rparr>, w)))"

definition segment_IsMaxed :: "segment \<Rightarrow> bool" where
  "segment_IsMaxed s \<longleftrightarrow> MaxStoreBytes (sg_config s) \<le> st_size (sg_store s) \<or>
     MaxIndexBytes (sg_config s) \<le> ix_size (sg_index s) \<or> index_isMaxed (sg_index s)"

definition segment_Close :: "ext \<Rightarrow> segment \<Rightarrow> world \<Rightarrow> goerr option \<times> segment \<times> world" where
  "segment_Close x s w0 = (case index_Close x (sg_index s) w0 of
     (Some e, i, w) \<Rightarrow> (Some e, s\<lparr>sg_index := i\<rparr>, w)
   | (None, i, w) \<Rightarrow>
       (case store_Close (sg_store s) w of (err, st, w1) \<Rightarrow>
          (err, s\<lparr>sg_index := i, sg_store := st\<rparr>, w1)))"

definition segment_Remove :: "ext \<Rightarrow> segment \<Rightarrow> world \<Rightarrow> goerr option \<times> segment \<times> world" where
  "segment_Remove x s0 w0 = (case segment_Close x s0 w0 of
     (Some e, s, w) \<Rightarrow> (Some e, s, w)
   | (None, s, w) \<Rightarrow>
       (case os_Remove (index_Name (sg_index s)) w of
          (Some e, w1) \<Rightarrow> (Some e, s, w1)
        | (None, w1) \<Rightarrow>
            (case os_Remove (st_path (sg_store s)) w1 of (err, w2) \<Rightarrow> (err, s, w2))))"

text \<open>\<^verbatim>\<open>nearestMultiple\<close> works on unsigned integers, so its guard always holds.\<close>

definition nearestMultiple :: "u64 \<Rightarrow> u64 \<Rightarrow> goerr + u64" where
  "nearestMultiple j k =
     (if k = 0 then Inl (Panic ''integer divide by zero'')
      else if 0 \<le> j then Inr ((j div k) * k)
      else Inr (((j - k + 1) div k) * k))"

section \<open>What a segment holds\<close>

definition encodes :: "ext \<Rightarrow> api_Record list \<Rightarrow> bytes list \<Rightarrow> bool" where
  "encodes x rs ps \<longleftrightarrow> list_all2 (\<lambda>r p. marshal x r = Inr p) rs ps"

definition frames :: "bytes list \<Rightarrow> bytes" where
  "frames ps = concat (map frame ps)"

definition entries :: "bytes list \<Rightarrow> entry list" where
  "entries ps = map (\<lambda>i. (of_nat i, of_nat (length (frames (take i ps))))) [0..<length ps]"

definition offsets_from :: "u64 \<Rightarrow> api_Record list \<Rightarrow> bool" where
  "offsets_from base rs \<longleftrightarrow> (\<forall>i < length rs. unat (r_Offset (rs ! i)) = unat base + i)"

definition seg_paths :: "string \<Rightarrow> u64 \<Rightarrow> path set" where
  "seg_paths dir base = {(dir, store_file base), (dir, index_file base)}"

definition seg_rep :: "ext \<Rightarrow> string \<Rightarrow> segment \<Rightarrow> world \<Rightarrow> api_Record list \<Rightarrow> bool" where
  "seg_rep x dir s w rs \<longleftrightarrow>
     (\<exists>ps. encodes x rs ps \<and> store_rep (sg_store s) w (frames ps) \<and>
        index_rep (sg_config s) (sg_index s) w (entries ps)) \<and>
     offsets_from (sg_baseOffset s) rs \<and>
     unat (sg_nextOffset s) = unat (sg_baseOffset s) + length rs \<and>
     st_path (sg_store s) = (dir, store_file (sg_baseOffset s)) \<and>
     index_Name (sg_index s) = (dir, index_file (sg_baseOffset s))"

definition seg_disk :: "ext \<Rightarrow> string \<Rightarrow> u64 \<Rightarrow> world \<Rightarrow> api_Record list \<Rightarrow> bool" where
  "seg_disk x dir base w rs \<longleftrightarrow>
     (\<exists>ps. encodes x rs ps \<and> fget w (dir, store_file base) = Some (frames ps) \<and>
        length (frames ps) < 2 ^ 63 \<and> index_disk (dir, index_file base) w (entries ps)) \<and>
     offsets_from base rs \<and> unat base + length rs < 2 ^ 64"

lemma store_file_neq_index_file [simp]: "store_file a \<noteq> index_file b" "index_file b \<noteq> store_file a"
  by (auto simp: store_file_def index_file_def dest: arg_cong [where f = last])

lemma length_entries [simp]: "length (entries ps) = length ps"
  by (simp add: entries_def)

lemma entries_Nil [simp]: "entries [] = []"
  by (simp add: entries_def)

lemma frames_append [simp]: "frames (ps @ qs) = frames ps @ frames qs"
  by (simp add: frames_def)

lemma frames_simps [simp]: "frames [] = []" "frames (p # ps) = frame p @ frames ps"
  by (simp_all add: frames_def)

lemma entries_snoc: "entries (ps @ [p]) = entries ps @ [(of_nat (length ps), of_nat (length (frames ps)))]"
  by (auto simp: entries_def)

lemma frame_at_frames: "i < length ps \<Longrightarrow> frame_at (frames ps) (length (frames (take i ps))) (ps ! i)"
proof -
  assume i: "i < length ps"
  have "frames ps = (frames (take i ps) @ frame (ps ! i)) @ frames (drop (Suc i) ps)"
    using id_take_nth_drop [OF i] by (metis frames_append frames_simps(2) append_assoc)
  then show ?thesis using frame_at_append [OF frame_at_end] by metis
qed

lemma frames_take_le: "length (frames (take i ps)) \<le> length (frames ps)"
  by (metis append_take_drop_id frames_append le_add1 length_append)

lemma entries_nth: "i < length ps \<Longrightarrow> entries ps ! i = (of_nat i, of_nat (length (frames (take i ps))))"
  by (simp add: entries_def)

lemma encodes_length: "encodes x rs ps \<Longrightarrow> length ps = length rs"
  by (simp add: encodes_def list_all2_lengthD)

lemma encodes_snoc: "encodes x rs ps \<Longrightarrow> marshal x r = Inr p \<Longrightarrow> encodes x (rs @ [r]) (ps @ [p])"
  by (simp add: encodes_def list_all2_appendI)

lemma encodes_nth: "encodes x rs ps \<Longrightarrow> i < length rs \<Longrightarrow> marshal x (rs ! i) = Inr (ps ! i)"
  by (auto simp: encodes_def dest: list_all2_nthD)

lemma encodes_unique: "encodes x rs ps \<Longrightarrow> encodes x rs qs \<Longrightarrow> ps = qs"
proof -
  assume a: "encodes x rs ps" "encodes x rs qs"
  have "ps ! i = qs ! i" if "i < length rs" for i
    using encodes_nth [OF a(1) that] encodes_nth [OF a(2) that] by simp
  then show ?thesis using encodes_length [OF a(1)] encodes_length [OF a(2)] by (simp add: nth_equalityI)
qed

lemma offsets_from_snoc:
  "offsets_from base rs \<Longrightarrow> unat off = unat base + length rs \<Longrightarrow>
     offsets_from base (rs @ [r\<lparr>r_Offset := off\<rparr>])"
  by (auto simp: offsets_from_def nth_append less_Suc_eq)

section \<open>Behaviour\<close>

lemma seg_repE:
  assumes "seg_rep x dir s w rs"
  obtains ps where "encodes x rs ps" "store_rep (sg_store s) w (frames ps)"
    "index_rep (sg_config s) (sg_index s) w (entries ps)" "length ps = length rs"
    "offsets_from (sg_baseOffset s) rs" "unat (sg_nextOffset s) = unat (sg_baseOffset s) + length rs"
    "st_path (sg_store s) = (dir, store_file (sg_baseOffset s))"
    "index_Name (sg_index s) = (dir, index_file (sg_baseOffset s))"
    "quiet w" "config_ok (sg_config s)"
  using assms by (auto simp: seg_rep_def dest: encodes_length index_rep_quiet)

lemma seg_rep_cong:
  assumes "seg_rep x dir s w rs" "quiet w'"
    and "\<And>p. p \<in> seg_paths dir (sg_baseOffset s) \<Longrightarrow> fget w' p = fget w p"
  shows "seg_rep x dir s w' rs"
proof -
  obtain ps where ps: "encodes x rs ps" "store_rep (sg_store s) w (frames ps)"
    "index_rep (sg_config s) (sg_index s) w (entries ps)"
    "st_path (sg_store s) = (dir, store_file (sg_baseOffset s))"
    "index_Name (sg_index s) = (dir, index_file (sg_baseOffset s))" by (rule seg_repE [OF assms(1)])
  have "store_rep (sg_store s) w' (frames ps)"
    using assms(2,3) ps(4) by (intro store_rep_cong [OF ps(2)]) (simp_all add: seg_paths_def)
  moreover have "index_rep (sg_config s) (sg_index s) w' (entries ps)"
    using assms(2,3) ps(5) by (intro index_rep_cong [OF ps(3)]) (simp_all add: seg_paths_def)
  ultimately show ?thesis using assms(1) ps(1) by (auto simp: seg_rep_def)
qed

lemma seg_disk_cong:
  assumes "seg_disk x dir base w rs" "\<And>p. p \<in> seg_paths dir base \<Longrightarrow> fget w' p = fget w p"
  shows "seg_disk x dir base w' rs"
  using assms by (auto simp: seg_disk_def seg_paths_def intro: index_disk_cong)

lemma segment_IsMaxed_rep:
  assumes "seg_rep x dir s w rs" "encodes x rs ps"
  shows "segment_IsMaxed s \<longleftrightarrow> unat (MaxStoreBytes (sg_config s)) \<le> length (frames ps) \<or>
    unat (MaxIndexBytes (sg_config s)) < 12 * length rs + 12"
proof -
  obtain qs where qs: "encodes x rs qs" "store_rep (sg_store s) w (frames qs)"
    "index_rep (sg_config s) (sg_index s) w (entries qs)" "length qs = length rs"
    using seg_repE [OF assms(1)] by metis
  have "qs = ps" using qs(1) assms(2) by (rule encodes_unique)
  moreover have "unat (st_size (sg_store s)) = length (frames qs)" using qs(2) by (simp add: store_rep_def)
  moreover have "unat (ix_size (sg_index s)) = 12 * length rs" using qs(3,4) by (simp add: index_rep_def)
  ultimately show ?thesis
    using index_isMaxed_rep [OF qs(3)] qs(4) by (auto simp: segment_IsMaxed_def u64_le_iff)
qed

lemma segment_Append_rep:
  assumes rep: "seg_rep x dir s w rs" and x: "codec_ok x" and nm: "\<not> segment_IsMaxed s"
    and m: "marshal x (r\<lparr>r_Offset := sg_nextOffset s\<rparr>) = Inr p"
    and off: "unat (sg_nextOffset s) + 1 < 2 ^ 64"
  shows "\<exists>s' w'. segment_Append x (Some r) s w = (Inr (sg_nextOffset s), s', w') \<and>
    seg_rep x dir s' w' (rs @ [r\<lparr>r_Offset := sg_nextOffset s\<rparr>]) \<and>
    sg_baseOffset s' = sg_baseOffset s \<and> sg_config s' = sg_config s \<and>
    unat (sg_nextOffset s') = unat (sg_nextOffset s) + 1 \<and>
    touches (seg_paths dir (sg_baseOffset s)) w w'"
proof -
  obtain ps where ps: "encodes x rs ps" "store_rep (sg_store s) w (frames ps)"
    "index_rep (sg_config s) (sg_index s) w (entries ps)" "length ps = length rs"
    "offsets_from (sg_baseOffset s) rs" "unat (sg_nextOffset s) = unat (sg_baseOffset s) + length rs"
    "st_path (sg_store s) = (dir, store_file (sg_baseOffset s))"
    "index_Name (sg_index s) = (dir, index_file (sg_baseOffset s))"
    "quiet w" "config_ok (sg_config s)" by (rule seg_repE [OF rep])
  have "length (frames ps) < 2 ^ 62" and room: "12 * length ps + 12 \<le> unat (MaxIndexBytes (sg_config s))"
    using nm segment_IsMaxed_rep [OF rep ps(1)] ps(4,10) by (auto simp: config_ok_def)
  moreover have "length p < 2 ^ 31" using x m by (rule codec_okD)
  ultimately have "length (frames ps) + length (frame p) < 2 ^ 63" by simp
  then obtain st w' where st: "store_Append p (sg_store s) w =
      (Inr (of_nat (length (frame p)), of_nat (length (frames ps))), st, w')"
    "store_rep st w' (frames ps @ frame p)" "st_File st = st_File (sg_store s)"
    "touches {st_path (sg_store s)} w w'"
    using store_Append_rep [OF ps(2)] by blast
  have i': "index_rep (sg_config s) (sg_index s) w' (entries ps)"
    using ps(3) st(4) ps(7,8) by (auto intro!: index_rep_cong [OF ps(3)] touches_fget)
  have rel: "ucast (sg_nextOffset s - sg_baseOffset s) = (of_nat (length ps) :: u32)"
  proof -
    have "sg_nextOffset s - sg_baseOffset s = of_nat (length ps)"
      using ps(4,6) off by (intro u64_of_nat_eq) (simp_all add: unat_u64_sub)
    then show ?thesis by (simp add: ucast_u64_u32_of_nat)
  qed
  obtain i where i: "index_Write (of_nat (length ps)) (of_nat (length (frames ps))) (sg_index s) = (None, i)"
    "index_rep (sg_config s) i w' (entries (ps @ [p]))" "ix_file i = ix_file (sg_index s)"
    using index_Write_rep [OF i', of "of_nat (length ps)"] room by (auto simp: entries_snoc)
  let ?s = "s\<lparr>sg_store := st, sg_index := i, sg_nextOffset := sg_nextOffset s + 1\<rparr>"
  have run: "segment_Append x (Some r) s w = (Inr (sg_nextOffset s), ?s, w')"
    using m st(1) i(1) rel by (simp add: segment_Append_def Let_def)
  have nx: "unat (sg_nextOffset s + 1) = unat (sg_nextOffset s) + 1" using off by (rule unat_u64_Suc)
  have "seg_rep x dir ?s w' (rs @ [r\<lparr>r_Offset := sg_nextOffset s\<rparr>])"
    unfolding seg_rep_def using st i nx ps(5-8) encodes_snoc [OF ps(1) m] offsets_from_snoc [OF ps(5,6)]
    by (auto intro!: exI [of _ "ps @ [p]"] simp: index_Name_def)
  moreover have "touches (seg_paths dir (sg_baseOffset s)) w w'"
    using st(4) ps(7) by (auto simp: seg_paths_def elim: touches_mono)
  ultimately show ?thesis using run nx by auto
qed

lemma segment_Read_rep:
  assumes rep: "seg_rep x dir s w rs" and x: "codec_ok x" and i: "i < length rs"
    and off: "unat off = unat (sg_baseOffset s) + i"
  shows "\<exists>s' w'. segment_Read x off s w = (Inr (rs ! i), s', w') \<and> seg_rep x dir s' w' rs \<and>
    sg_baseOffset s' = sg_baseOffset s \<and> sg_config s' = sg_config s \<and>
    sg_nextOffset s' = sg_nextOffset s \<and> segment_IsMaxed s' = segment_IsMaxed s \<and>
    touches (seg_paths dir (sg_baseOffset s)) w w'"
proof -
  obtain ps where ps: "encodes x rs ps" "store_rep (sg_store s) w (frames ps)"
    "index_rep (sg_config s) (sg_index s) w (entries ps)" "length ps = length rs"
    "offsets_from (sg_baseOffset s) rs" "unat (sg_nextOffset s) = unat (sg_baseOffset s) + length rs"
    "st_path (sg_store s) = (dir, store_file (sg_baseOffset s))"
    "index_Name (sg_index s) = (dir, index_file (sg_baseOffset s))"
    "quiet w" "config_ok (sg_config s)" by (rule seg_repE [OF rep])
  have ip: "i < length ps" using i ps(4) by simp
  have "off - sg_baseOffset s = of_nat i"
    using off u64_bound [of off] by (intro u64_of_nat_eq) (simp_all add: unat_u64_sub)
  then have rd: "index_Read (off - sg_baseOffset s) (sg_index s) =
      Inr (of_nat i, of_nat (length (frames (take i ps))))"
    using index_Read_rep [OF ps(3), of i] ip by (simp add: entries_nth)
  have m: "marshal x (rs ! i) = Inr (ps ! i)" using ps(1) i by (rule encodes_nth)
  then have "length (ps ! i) < 2 ^ 31" by (rule codec_okD(2) [OF x])
  then have small: "length (ps ! i) \<le> maxAlloc" by (simp add: maxAlloc_def)
  obtain st w' where st: "store_Read (of_nat (length (frames (take i ps)))) (sg_store s) w =
      (Inr (ps ! i), st, w')" "store_rep st w' (frames ps)" "st_File st = st_File (sg_store s)"
    "touches {st_path (sg_store s)} w w'"
    using store_Read_rep [OF ps(2) frame_at_frames [OF ip] small] by blast
  have "index_rep (sg_config s) (sg_index s) w' (entries ps)"
    using st(4) ps(7,8) by (auto intro!: index_rep_cong [OF ps(3)] touches_fget)
  then have "seg_rep x dir (s\<lparr>sg_store := st\<rparr>) w' rs"
    using ps st by (auto simp: seg_rep_def)
  moreover have "st_size st = st_size (sg_store s)"
    using st(2) ps(2) by (simp add: store_rep_def u64_eq_iff)
  moreover have "touches (seg_paths dir (sg_baseOffset s)) w w'"
    using st(4) ps(7) by (auto simp: seg_paths_def elim: touches_mono)
  ultimately show ?thesis
    using rd st(1) codec_okD(1) [OF x m] by (auto simp: segment_Read_def segment_IsMaxed_def)
qed

lemma segment_Close_rep:
  assumes rep: "seg_rep x dir s w rs" and x: "mmap_ok x"
  shows "\<exists>s' w'. segment_Close x s w = (None, s', w') \<and>
    seg_disk x dir (sg_baseOffset s) w' rs \<and> sg_baseOffset s' = sg_baseOffset s \<and>
    sg_nextOffset s' = sg_nextOffset s \<and> sg_config s' = sg_config s \<and>
    index_Name (sg_index s') = index_Name (sg_index s) \<and>
    st_path (sg_store s') = st_path (sg_store s) \<and>
    touches (seg_paths dir (sg_baseOffset s)) w w'"
proof -
  obtain ps where ps: "encodes x rs ps" "store_rep (sg_store s) w (frames ps)"
    "index_rep (sg_config s) (sg_index s) w (entries ps)" "length ps = length rs"
    "offsets_from (sg_baseOffset s) rs" "unat (sg_nextOffset s) = unat (sg_baseOffset s) + length rs"
    "st_path (sg_store s) = (dir, store_file (sg_baseOffset s))"
    "index_Name (sg_index s) = (dir, index_file (sg_baseOffset s))"
    "quiet w" "config_ok (sg_config s)" by (rule seg_repE [OF rep])
  obtain i w1 where i: "index_Close x (sg_index s) w = (None, i, w1)"
    "index_disk (index_Name (sg_index s)) w1 (entries ps)" "index_Name i = index_Name (sg_index s)"
    "touches {index_Name (sg_index s)} w w1"
    using index_Close_rep [OF ps(3) x] by blast
  have "store_rep (sg_store s) w1 (frames ps)"
    using ps(7,8) i(4) by (auto intro!: store_rep_cong [OF ps(2)] touches_fget)
  then obtain st w2 where st: "store_Close (sg_store s) w1 = (None, st, w2)"
    "fget w2 (st_path (sg_store s)) = Some (frames ps)" "st_path st = st_path (sg_store s)"
    "touches {st_path (sg_store s)} w1 w2"
    using store_Close_rep by blast
  have t: "touches (seg_paths dir (sg_baseOffset s)) w w2"
    using i(4) st(4) ps(7,8)
    by (auto simp: seg_paths_def intro!: touches_trans [of _ w w1 w2] elim: touches_mono)
  have "index_disk (index_Name (sg_index s)) w2 (entries ps)"
    using i(2) ps(7,8) touches_fget [OF st(4), of "index_Name (sg_index s)"]
    by (simp add: index_disk_def)
  moreover have "length (frames ps) < 2 ^ 63" using ps(2) by (simp add: store_rep_def)
  ultimately have "seg_disk x dir (sg_baseOffset s) w2 rs"
    using ps st u64_bound [of "sg_nextOffset s"] by (auto simp: seg_disk_def)
  with i st t show ?thesis by (auto simp: segment_Close_def)
qed

lemma segment_Remove_rep:
  assumes rep: "seg_rep x dir s w rs" and x: "mmap_ok x"
  shows "\<exists>s' w'. segment_Remove x s w = (None, s', w') \<and> quiet w' \<and>
    (\<forall>p. fget w' p = (if p \<in> seg_paths dir (sg_baseOffset s) then None else fget w p)) \<and>
    (\<forall>d. names w' d = (if d = dir then map_option (filter (\<lambda>n. n \<noteq> store_file (sg_baseOffset s) \<and>
         n \<noteq> index_file (sg_baseOffset s))) (names w d) else names w d))"
proof -
  let ?p = "(dir, store_file (sg_baseOffset s))" and ?q = "(dir, index_file (sg_baseOffset s))"
  obtain s' w1 where c: "segment_Close x s w = (None, s', w1)"
    "seg_disk x dir (sg_baseOffset s) w1 rs" "index_Name (sg_index s') = ?q"
    "st_path (sg_store s') = ?p" "touches (seg_paths dir (sg_baseOffset s)) w w1"
    using segment_Close_rep [OF assms] seg_repE [OF rep] by metis
  obtain a b where f: "fget w1 ?p = Some a" "fget w1 ?q = Some b"
    using c(2) by (auto simp: seg_disk_def index_disk_def)
  define w2 where "w2 = fdel ?p (fdel ?q w1)"
  have run: "segment_Remove x s w = (None, s', w2)"
    using c f touches_quiet [OF c(5)] by (simp add: segment_Remove_def os_Remove_quiet w2_def)
  have files: "fget w2 p = (if p \<in> seg_paths dir (sg_baseOffset s) then None else fget w p)" for p
    using touches_fget [OF c(5), of p] by (auto simp: seg_paths_def w2_def)
  have "removeAll (store_file (sg_baseOffset s)) (removeAll (index_file (sg_baseOffset s)) ns) =
      filter (\<lambda>n. n \<noteq> store_file (sg_baseOffset s) \<and> n \<noteq> index_file (sg_baseOffset s)) ns" for ns
    by (auto simp: removeAll_filter_not_eq intro!: filter_cong)
  then have "names w2 d = (if d = dir then map_option (filter (\<lambda>n. n \<noteq> store_file (sg_baseOffset s) \<and>
      n \<noteq> index_file (sg_baseOffset s))) (names w d) else names w d)" for d
    using touches_names [OF c(5)] by (simp add: w2_def names_fdel option.map_comp comp_def)
  moreover have "quiet w2" using touches_quiet [OF c(5)] by (simp add: w2_def)
  ultimately show ?thesis using run files by blast
qed

lemma os_OpenFile_existing:
  "quiet w \<Longrightarrow> fget w p = Some c \<Longrightarrow> \<exists>w'. os_OpenFile p w = (Inr \<lparr>fname = p, fclosed = False\<rparr>, w') \<and>
     touches {} w w'"
  using fget_dir [of w p c] by (auto simp: os_OpenFile_def Let_def intro: touches_refl)

lemma os_OpenFile_fresh:
  "quiet w \<Longrightarrow> names w (fst p) = Some ns \<Longrightarrow> fget w p = None \<Longrightarrow>
     \<exists>w'. os_OpenFile p w = (Inr \<lparr>fname = p, fclosed = False\<rparr>, w') \<and> quiet w' \<and>
       (\<forall>q. fget w' q = (if q = p then Some [] else fget w q)) \<and>
       (\<forall>d. names w' d = (if d = fst p then Some (ns @ [snd p]) else names w d))"
  using names_dir [of w "fst p" ns] by (auto simp: os_OpenFile_def Let_def names_fput)

text \<open>
  Both ways to open a segment, on the files of a closed one and on none, come down to this: the store
  file and the index file are open and hold matching contents, and the next offset is recovered from
  the last index entry.
\<close>

lemma newSegment_opened:
  assumes c: "config_ok c" "12 * length rs \<le> unat (MaxIndexBytes c)" and x: "mmap_ok x"
    and o1: "os_OpenFile (dir, store_file base) w = (Inr \<lparr>fname = (dir, store_file base), fclosed = False\<rparr>, w1)"
    and o2: "os_OpenFile (dir, index_file base) w1 = (Inr \<lparr>fname = (dir, index_file base), fclosed = False\<rparr>, w2)"
    and q: "quiet w1" "quiet w2"
    and f: "fget w1 (dir, store_file base) = Some (frames ps)"
      "fget w2 (dir, store_file base) = Some (frames ps)" "index_disk (dir, index_file base) w2 (entries ps)"
    and rs: "encodes x rs ps" "length (frames ps) < 2 ^ 63" "offsets_from base rs"
      "unat base + length rs < 2 ^ 64"
  shows "\<exists>s w'. newSegment x dir base c w = (Inr s, w') \<and> seg_rep x dir s w' rs \<and>
    sg_baseOffset s = base \<and> sg_config s = c \<and> touches {(dir, index_file base)} w2 w'"
proof -
  let ?p = "(dir, store_file base)" and ?q = "(dir, index_file base)"
  have len: "length ps = length rs" using rs(1) by (rule encodes_length)
  obtain st where st: "newStore \<lparr>fname = ?p, fclosed = False\<rparr> w1 = (Inr st, w1)"
    "st_File st = \<lparr>fname = ?p, fclosed = False\<rparr>" "store_rep st w1 (frames ps)"
    using newStore_rep [of w1 "\<lparr>fname = ?p, fclosed = False\<rparr>" "frames ps"] q f rs by auto
  obtain i w3 where i: "newIndex x \<lparr>fname = ?q, fclosed = False\<rparr> c w2 = (Inr i, w3)"
    "ix_file i = \<lparr>fname = ?q, fclosed = False\<rparr>" "index_rep c i w3 (entries ps)" "touches {?q} w2 w3"
    using newIndex_rep [of c x w2 "\<lparr>fname = ?q, fclosed = False\<rparr>" "entries ps"] c x q f len by auto
  have rep: "store_rep st w3 (frames ps)"
    using st f touches_fget [OF i(4), of ?p] touches_quiet [OF i(4)]
    by (auto intro!: store_rep_cong [OF st(3)])
  have ex: "\<exists>c' w'. index_rep c' i w' (entries ps) \<and>
      unat (MaxIndexBytes c) div 12 = unat (MaxIndexBytes c') div 12" using i(3) by blast
  have "map fst (entries ps) = map of_nat [0..<length (entries ps)]"
    by (simp add: entries_def)
  then have rec: "case index_Read (-1) i of Inl _ \<Rightarrow> length ps = 0 | Inr (off, _) \<Rightarrow> unat off + 1 = length ps"
    using ix.recover [OF ex] unfolding length_entries by blast
  let ?s = "\<lambda>n. \<lparr>sg_store = st, sg_index = i, sg_baseOffset = base, sg_nextOffset = n, sg_config = c\<rparr>"
  have "\<exists>n. newSegment x dir base c w = (Inr (?s n), w3) \<and> unat n = unat base + length rs"
  proof (cases "index_Read (-1) i")
    case (Inl e)
    with rec len have "ps = []" "rs = []" by auto
    with Inl i(3) have "e = EOF" using ix.read_empty [where i = i] ex by auto
    with Inl \<open>rs = []\<close> o1 st(1) o2 i(1) show ?thesis by (simp add: newSegment_def)
  next
    case (Inr op)
    then obtain off pos where op: "index_Read (-1) i = Inr (off, pos)" by (cases op) auto
    with rec have off: "unat off + 1 = length ps" by simp
    then have "unat (base + ucast off) = unat base + unat off"
      using rs(4) len by (intro unat_u64_add [THEN trans]) simp_all
    then have "unat (base + ucast off + 1) = unat base + length rs"
      using rs(4) len off by (subst unat_u64_Suc) simp_all
    with op o1 st(1) o2 i(1) show ?thesis by (simp add: newSegment_def)
  qed
  then obtain n where n: "newSegment x dir base c w = (Inr (?s n), w3)" "unat n = unat base + length rs"
    by blast
  then have "seg_rep x dir (?s n) w3 rs"
    using rs rep i st(2) by (auto simp: seg_rep_def index_Name_def)
  with n i(4) show ?thesis by auto
qed

lemma newSegment_disk:
  assumes d: "seg_disk x dir base w rs" and c: "config_ok c" "12 * length rs \<le> unat (MaxIndexBytes c)"
    and x: "mmap_ok x" and w: "quiet w"
  shows "\<exists>s w'. newSegment x dir base c w = (Inr s, w') \<and> seg_rep x dir s w' rs \<and>
    sg_baseOffset s = base \<and> sg_config s = c \<and> touches (seg_paths dir base) w w'"
proof -
  let ?p = "(dir, store_file base)" and ?q = "(dir, index_file base)"
  obtain ps where ps: "encodes x rs ps" "fget w ?p = Some (frames ps)" "length (frames ps) < 2 ^ 63"
    "index_disk ?q w (entries ps)" "offsets_from base rs" "unat base + length rs < 2 ^ 64"
    using d by (auto simp: seg_disk_def)
  obtain w1 where w1: "os_OpenFile ?p w = (Inr \<lparr>fname = ?p, fclosed = False\<rparr>, w1)" "touches {} w w1"
    using os_OpenFile_existing [OF w ps(2)] by blast
  obtain w2 where w2: "os_OpenFile ?q w1 = (Inr \<lparr>fname = ?q, fclosed = False\<rparr>, w2)" "touches {} w1 w2"
    using os_OpenFile_existing [of w1 ?q] ps(4) touches_fget [OF w1(2), of ?q] w1(2)
    by (auto simp: index_disk_def)
  have "touches {} w w2" using w1(2) w2(2) by (rule touches_trans)
  then obtain s w3 where s: "newSegment x dir base c w = (Inr s, w3)" "seg_rep x dir s w3 rs"
    "sg_baseOffset s = base" "sg_config s = c" "touches {?q} w2 w3"
    using newSegment_opened [OF c x w1(1) w2(1), where ps = ps] ps w1(2) w2(2)
      touches_fget [of "{}" w w1] touches_fget [of "{}" w w2] by (auto simp: index_disk_def)
  have "touches (seg_paths dir base) w w3"
    using \<open>touches {} w w2\<close> s(5)
    by (auto simp: seg_paths_def elim!: touches_mono intro: touches_trans [of _ w w2])
  with s show ?thesis by blast
qed

lemma newSegment_fresh:
  assumes c: "config_ok c" and x: "mmap_ok x" and w: "quiet w" "names w dir = Some ns"
    and f: "fget w (dir, store_file base) = None" "fget w (dir, index_file base) = None"
  shows "\<exists>s w'. newSegment x dir base c w = (Inr s, w') \<and> seg_rep x dir s w' [] \<and>
    sg_baseOffset s = base \<and> sg_config s = c \<and>
    (\<forall>p. p \<notin> seg_paths dir base \<longrightarrow> fget w' p = fget w p) \<and>
    (\<forall>d. names w' d = (if d = dir then Some (ns @ [store_file base, index_file base]) else names w d))"
proof -
  let ?p = "(dir, store_file base)" and ?q = "(dir, index_file base)"
  obtain w1 where w1: "os_OpenFile ?p w = (Inr \<lparr>fname = ?p, fclosed = False\<rparr>, w1)" "quiet w1"
    "\<forall>q. fget w1 q = (if q = ?p then Some [] else fget w q)"
    "\<forall>d. names w1 d = (if d = dir then Some (ns @ [store_file base]) else names w d)"
    using os_OpenFile_fresh [of w ?p ns] w f by auto
  obtain w2 where w2: "os_OpenFile ?q w1 = (Inr \<lparr>fname = ?q, fclosed = False\<rparr>, w2)" "quiet w2"
    "\<forall>q. fget w2 q = (if q = ?q then Some [] else fget w1 q)"
    "\<forall>d. names w2 d = (if d = dir then Some (ns @ [store_file base, index_file base]) else names w1 d)"
    using os_OpenFile_fresh [of w1 ?q "ns @ [store_file base]"] w1 f by auto
  obtain s w3 where s: "newSegment x dir base c w = (Inr s, w3)" "seg_rep x dir s w3 []"
    "sg_baseOffset s = base" "sg_config s = c" "touches {?q} w2 w3"
    using newSegment_opened [OF c _ x w1(1) w2(1) w1(2) w2(2), where rs = "[]" and ps = "[]"]
      w1 w2 u64_bound [of base] by (auto simp: index_disk_def encodes_def offsets_from_def)
  have "fget w3 p = fget w p" if "p \<notin> seg_paths dir base" for p
    using that touches_fget [OF s(5), of p] w1(3) w2(3) by (auto simp: seg_paths_def)
  moreover have "names w3 d = (if d = dir then Some (ns @ [store_file base, index_file base]) else names w d)" for d
    using touches_names [OF s(5)] w1(4) w2(4) by simp
  ultimately show ?thesis using s by blast
qed

section \<open>Errors\<close>

lemma segment_Append_nil: "segment_Append x None s w = (Inl (Panic ''nil pointer dereference''), s, w)"
  by (simp add: segment_Append_def)

text \<open>
  The order of the two writes shows when the index is full: the append is refused with \<^verbatim>\<open>io.EOF\<close>, but
  the frame is already in the store, which is how a segment becomes maxed on its store size.
\<close>

lemma segment_Append_index_full:
  assumes rep: "seg_rep x dir s w rs" and x: "codec_ok x" and ps: "encodes x rs ps"
    and full: "unat (MaxIndexBytes (sg_config s)) < 12 * length rs + 12"
    and small: "length (frames ps) < 2 ^ 62"
    and m: "marshal x (r\<lparr>r_Offset := sg_nextOffset s\<rparr>) = Inr p"
  shows "\<exists>s' w'. segment_Append x (Some r) s w = (Inl EOF, s', w') \<and>
    sg_nextOffset s' = sg_nextOffset s \<and> sg_index s' = sg_index s \<and>
    store_rep (sg_store s') w' (frames ps @ frame p)"
proof -
  obtain qs where "encodes x rs qs" and qs: "store_rep (sg_store s) w (frames qs)"
    "index_rep (sg_config s) (sg_index s) w (entries qs)" "length qs = length rs"
    by (rule seg_repE [OF rep])
  then have "qs = ps" using ps encodes_unique by blast
  moreover have "length p < 2 ^ 31" using x m by (rule codec_okD)
  ultimately obtain st w' where "store_Append p (sg_store s) w =
      (Inr (of_nat (length (frame p)), of_nat (length (frames ps))), st, w')"
    "store_rep st w' (frames ps @ frame p)"
    using store_Append_rep [OF qs(1), of p] small by auto
  moreover have "index_Write off pos (sg_index s) = (Some EOF, sg_index s)" for off pos
    using index_Write_full [OF qs(2)] full qs(3) by simp
  ultimately show ?thesis using m by (simp add: segment_Append_def)
qed

lemma nearestMultiple_ok:
  assumes "k \<noteq> 0"
  shows "\<exists>m. nearestMultiple j k = Inr m \<and> unat k dvd unat m \<and> unat m \<le> unat j \<and> unat j < unat m + unat k"
proof -
  have k: "0 < unat k" using assms by (simp add: unat_gt_0)
  have le: "unat j div unat k * unat k \<le> unat j" by (rule div_times_less_eq_dividend)
  have "unat (j div k * k) = unat j div unat k * unat k mod 2 ^ 64"
    by (simp add: unat_word_ariths unat_div mod_mult_left_eq)
  also have "\<dots> = unat j div unat k * unat k"
    using order_le_less_trans [OF le u64_bound] by (rule mod_less)
  finally have m: "unat (j div k * k) = unat j div unat k * unat k" .
  have "unat j < unat j div unat k * unat k + unat k"
    using k by (metis add_less_cancel_left div_mult_mod_eq mod_less_divisor)
  with m le assms show ?thesis by (simp add: nearestMultiple_def)
qed

end
