(* ===== verification/Log.thy ===== *)
theory Log
  imports Segment
begin

text \<open>
  The log (src/internal/log/log.go): an ordered list of segments, the last of them active. Segments
  are shared by pointer, so the log keeps its segment objects in a heap, \<open>lg_segments\<close> and
  \<open>lg_active\<close> are addresses in it, and an operation on a segment through one pointer is seen through
  the other. \<open>log_rep x l w rss\<close> says that the log \<open>l\<close> holds the records \<open>concat rss\<close>, segment by
  segment.
\<close>

section \<open>State\<close>

record Log =
  lg_Dir :: string
  lg_Config :: Config
  lg_active :: "nat option"
  lg_segments :: "nat list"
  lg_heap :: "segment list"

definition seg_of :: "Log \<Rightarrow> nat \<Rightarrow> segment" where
  "seg_of l a = lg_heap l ! a"

definition put_seg :: "nat \<Rightarrow> segment \<Rightarrow> Log \<Rightarrow> Log" where
  "put_seg a s l = l\<lparr>lg_heap := (lg_heap l)[a := s]\<rparr>"

section \<open>Opening a log\<close>

definition Log_newSegment :: "ext \<Rightarrow> u64 \<Rightarrow> Log \<Rightarrow> world \<Rightarrow> goerr option \<times> Log \<times> world" where
  "Log_newSegment x off l w0 = (case newSegment x (lg_Dir l) off (lg_Config l) w0 of
     (Inl e, w) \<Rightarrow> (Some e, l, w)
   | (Inr s, w) \<Rightarrow>
       (None, l\<lparr>lg_heap := lg_heap l @ [s], lg_segments := lg_segments l @ [length (lg_heap l)],
                lg_active := Some (length (lg_heap l))\<rparr>, w))"

text \<open>
  The loop of \<^verbatim>\<open>setup\<close> over the sorted base offsets. Each segment has two files, so the loop takes
  every other offset.
\<close>

fun setup_loop :: "ext \<Rightarrow> u64 list \<Rightarrow> Log \<Rightarrow> world \<Rightarrow> goerr option \<times> Log \<times> world" where
  "setup_loop x [] l w = (None, l, w)"
| "setup_loop x [b] l w = Log_newSegment x b l w"
| "setup_loop x (b # _ # bs) l w = (case Log_newSegment x b l w of
     (Some e, l', w') \<Rightarrow> (Some e, l', w')
   | (None, l', w') \<Rightarrow> setup_loop x bs l' w')"

definition base_of_name :: "string \<Rightarrow> u64" where
  "base_of_name n = ParseUint (TrimSuffix n (path_Ext n))"

definition Log_setup :: "ext \<Rightarrow> Log \<Rightarrow> world \<Rightarrow> goerr option \<times> Log \<times> world" where
  "Log_setup x l w0 = (case os_ReadDir (lg_Dir l) w0 of
     (Inl e, w) \<Rightarrow> (Some e, l, w)
   | (Inr files, w) \<Rightarrow>
       (case setup_loop x (sort (map base_of_name files)) l w of
          (Some e, l', w') \<Rightarrow> (Some e, l', w')
        | (None, l', w') \<Rightarrow>
            (if lg_segments l' = [] then Log_newSegment x (InitialOffset (lg_Config l')) l' w'
             else (None, l', w'))))"

definition config_defaults :: "Config \<Rightarrow> Config" where
  "config_defaults c =
     (let c1 = (if MaxStoreBytes c = 0 then c\<lparr>MaxStoreBytes := 1024\<rparr> else c)
      in if MaxIndexBytes c1 = 0 then c1\<lparr>MaxIndexBytes := 1024\<rparr> else c1)"

definition NewLog :: "ext \<Rightarrow> string \<Rightarrow> Config \<Rightarrow> world \<Rightarrow> goerr option \<times> Log \<times> world" where
  "NewLog x dir c w =
     Log_setup x \<lparr>lg_Dir = dir, lg_Config = config_defaults c, lg_active = None, lg_segments = [],
                  lg_heap = []\<rparr> w"

section \<open>Appending and reading\<close>

definition Log_Append :: "ext \<Rightarrow> api_Record option \<Rightarrow> Log \<Rightarrow> world \<Rightarrow> (goerr + u64) \<times> Log \<times> world" where
  "Log_Append x record l w0 = (case lg_active l of
     None \<Rightarrow> (Inl (Panic ''nil pointer dereference''), l, w0)
   | Some a \<Rightarrow>
       (case segment_Append x record (seg_of l a) w0 of
          (Inl e, s, w) \<Rightarrow> (Inl e, put_seg a s l, w)
        | (Inr off, s, w) \<Rightarrow>
            (if segment_IsMaxed s then
               (case Log_newSegment x (off + 1) (put_seg a s l) w of
                  (Some e, l', w') \<Rightarrow> (Inl e, l', w')
                | (None, l', w') \<Rightarrow> (Inr off, l', w'))
             else (Inr off, put_seg a s l, w))))"

fun Log_find :: "Log \<Rightarrow> u64 \<Rightarrow> nat list \<Rightarrow> nat option \<Rightarrow> nat option" where
  "Log_find l off [] s = s"
| "Log_find l off (a # as) s =
     Log_find l off as
       (if sg_baseOffset (seg_of l a) \<le> off \<and> off < sg_nextOffset (seg_of l a) then Some a else s)"

definition Log_Read :: "ext \<Rightarrow> u64 \<Rightarrow> Log \<Rightarrow> world \<Rightarrow> (goerr + api_Record) \<times> Log \<times> world" where
  "Log_Read x off l w0 = (case Log_find l off (lg_segments l) None of
     None \<Rightarrow> (Inl (ErrOffsetOutOfRange off), l, w0)
   | Some a \<Rightarrow>
       (if sg_nextOffset (seg_of l a) \<le> off then (Inl (ErrOffsetOutOfRange off), l, w0)
        else case segment_Read x off (seg_of l a) w0 of (r, s, w) \<Rightarrow> (r, put_seg a s l, w)))"

section \<open>Closing, removing, resetting\<close>

fun close_segments :: "ext \<Rightarrow> nat list \<Rightarrow> Log \<Rightarrow> world \<Rightarrow> goerr option \<times> Log \<times> world" where
  "close_segments x [] l w = (None, l, w)"
| "close_segments x (a # as) l w0 = (case segment_Close x (seg_of l a) w0 of
     (Some e, s, w) \<Rightarrow> (Some e, put_seg a s l, w)
   | (None, s, w) \<Rightarrow> close_segments x as (put_seg a s l) w)"

definition Log_Close :: "ext \<Rightarrow> Log \<Rightarrow> world \<Rightarrow> goerr option \<times> Log \<times> world" where
  "Log_Close x l w = close_segments x (lg_segments l) l w"

definition Log_Remove :: "ext \<Rightarrow> Log \<Rightarrow> world \<Rightarrow> goerr option \<times> Log \<times> world" where
  "Log_Remove x l0 w0 = (case Log_Close x l0 w0 of
     (Some e, l, w) \<Rightarrow> (Some e, l, w)
   | (None, l, w) \<Rightarrow> (case os_RemoveAll (lg_Dir l) w of (err, w') \<Rightarrow> (err, l, w')))"

definition Log_Reset :: "ext \<Rightarrow> Log \<Rightarrow> world \<Rightarrow> goerr option \<times> Log \<times> world" where
  "Log_Reset x l0 w0 = (case Log_Remove x l0 w0 of
     (Some e, l, w) \<Rightarrow> (Some e, l, w)
   | (None, l, w) \<Rightarrow> Log_setup x l w)"

section \<open>The range of offsets, truncation\<close>

definition LowestOffset :: "Log \<Rightarrow> goerr + u64" where
  "LowestOffset l = (case lg_segments l of
     [] \<Rightarrow> Inl (Panic ''index out of range'')
   | a # _ \<Rightarrow> Inr (sg_baseOffset (seg_of l a)))"

definition highestOffset :: "Log \<Rightarrow> goerr + u64" where
  "highestOffset l =
     (if lg_segments l = [] then Inl (Panic ''index out of range'')
      else (let off = sg_nextOffset (seg_of l (last (lg_segments l)))
            in if off = 0 then Inr 0 else Inr (off - 1)))"

definition HighestOffset :: "Log \<Rightarrow> goerr + u64" where
  "HighestOffset l = highestOffset l"

fun truncate_loop ::
  "ext \<Rightarrow> u64 \<Rightarrow> nat list \<Rightarrow> nat list \<Rightarrow> Log \<Rightarrow> world \<Rightarrow> (goerr + nat list) \<times> Log \<times> world" where
  "truncate_loop x lowest [] kept l w = (Inr kept, l, w)"
| "truncate_loop x lowest (a # as) kept l w0 =
     (if sg_nextOffset (seg_of l a) \<le> lowest + 1 then
        (case segment_Remove x (seg_of l a) w0 of
           (Some e, s, w) \<Rightarrow> (Inl e, put_seg a s l, w)
         | (None, s, w) \<Rightarrow> truncate_loop x lowest as kept (put_seg a s l) w)
      else truncate_loop x lowest as (kept @ [a]) l w0)"

definition Log_Truncate :: "ext \<Rightarrow> u64 \<Rightarrow> Log \<Rightarrow> world \<Rightarrow> goerr option \<times> Log \<times> world" where
  "Log_Truncate x lowest l0 w0 = (case truncate_loop x lowest (lg_segments l0) [] l0 w0 of
     (Inl e, l, w) \<Rightarrow> (Some e, l, w)
   | (Inr kept, l, w) \<Rightarrow> (None, l\<lparr>lg_segments := kept\<rparr>, w))"

section \<open>What a log holds\<close>

definition segs :: "Log \<Rightarrow> segment list" where
  "segs l = map (seg_of l) (lg_segments l)"

fun chained :: "segment list \<Rightarrow> bool" where
  "chained (s # t # ss) \<longleftrightarrow> sg_nextOffset s = sg_baseOffset t \<and> chained (t # ss)"
| "chained _ \<longleftrightarrow> True"

definition seg_files :: "u64 list \<Rightarrow> string set" where
  "seg_files bs = store_file ` set bs \<union> index_file ` set bs"

definition bases :: "Log \<Rightarrow> u64 list" where
  "bases l = map sg_baseOffset (segs l)"

text \<open>The pointers of a log are valid, and the active segment is the last of the list.\<close>

definition ptrs_ok :: "Log \<Rightarrow> bool" where
  "ptrs_ok l \<longleftrightarrow> lg_segments l \<noteq> [] \<and> distinct (lg_segments l) \<and>
     (\<forall>a \<in> set (lg_segments l). a < length (lg_heap l)) \<and> lg_active l = Some (last (lg_segments l))"

text \<open>The directory holds the files of the segments and nothing else.\<close>

definition dir_ok :: "Log \<Rightarrow> world \<Rightarrow> bool" where
  "dir_ok l w \<longleftrightarrow> (\<exists>ns. names w (lg_Dir l) = Some ns \<and> distinct ns \<and> set ns = seg_files (bases l))"

definition log_inv :: "ext \<Rightarrow> Log \<Rightarrow> world \<Rightarrow> api_Record list list \<Rightarrow> bool" where
  "log_inv x l w rss \<longleftrightarrow> quiet w \<and> config_ok (lg_Config l) \<and> ptrs_ok l \<and> dir_ok l w \<and>
     list_all2 (\<lambda>s rs. seg_rep x (lg_Dir l) s w rs \<and> sg_config s = lg_Config l) (segs l) rss \<and>
     chained (segs l) \<and> (\<forall>rs \<in> set (butlast rss). rs \<noteq> [])"

definition log_rep :: "ext \<Rightarrow> Log \<Rightarrow> world \<Rightarrow> api_Record list list \<Rightarrow> bool" where
  "log_rep x l w rss \<longleftrightarrow> log_inv x l w rss \<and> \<not> segment_IsMaxed (last (segs l))"

definition log_low :: "Log \<Rightarrow> nat" where
  "log_low l = unat (sg_baseOffset (hd (segs l)))"

text \<open>The abstraction: a log stands for its lowest offset and the records from there on.\<close>

definition log_abs :: "ext \<Rightarrow> Log \<times> world \<Rightarrow> nat \<Rightarrow> api_Record list \<Rightarrow> bool" where
  "log_abs x st lo rs \<longleftrightarrow>
     (\<exists>rss. log_rep x (fst st) (snd st) rss \<and> lo = log_low (fst st) \<and> rs = concat rss)"

section \<open>The chain of segments\<close>

lemma chained_nth: "chained ss \<Longrightarrow> Suc i < length ss \<Longrightarrow> sg_nextOffset (ss ! i) = sg_baseOffset (ss ! Suc i)"
proof (induction ss arbitrary: i rule: chained.induct)
  case (1 s t ss)
  then show ?case by (cases i) auto
qed auto

lemma chainedI: "(\<And>i. Suc i < length ss \<Longrightarrow> sg_nextOffset (ss ! i) = sg_baseOffset (ss ! Suc i)) \<Longrightarrow> chained ss"
proof (induction ss rule: chained.induct)
  case (1 s t ss)
  from "1.prems" [of 0] have "sg_nextOffset s = sg_baseOffset t" by simp
  moreover have "chained (t # ss)"
  proof (rule "1.IH")
    fix i assume "Suc i < length (t # ss)"
    with "1.prems" [of "Suc i"] show "sg_nextOffset ((t # ss) ! i) = sg_baseOffset ((t # ss) ! Suc i)" by simp
  qed
  ultimately show ?case by simp
qed auto

lemma concat_take_Suc: "i < length xss \<Longrightarrow> concat (take (Suc i) xss) = concat (take i xss) @ xss ! i"
  by (simp add: take_Suc_conv_app_nth)

lemma concat_nth_block:
  assumes "i < length xss" "j < length (xss ! i)"
  shows "concat xss ! (length (concat (take i xss)) + j) = xss ! i ! j"
    and "length (concat (take i xss)) + j < length (concat xss)"
proof -
  have e: "concat xss = concat (take i xss) @ xss ! i @ concat (drop (Suc i) xss)"
    using id_take_nth_drop [OF assms(1)] by (metis concat.simps(2) concat_append)
  show "concat xss ! (length (concat (take i xss)) + j) = xss ! i ! j"
    using assms(2) by (subst e) (simp add: nth_append)
  show "length (concat (take i xss)) + j < length (concat xss)"
    using assms(2) arg_cong [OF e, of length] by simp
qed

lemma concat_block_of:
  assumes "k < length (concat xss)"
  obtains i j where "i < length xss" "j < length (xss ! i)" "k = length (concat (take i xss)) + j"
  using assms
proof (induction xss arbitrary: k thesis)
  case (Cons xs xss)
  show ?case
  proof (cases "k < length xs")
    case True
    then show ?thesis using Cons.prems(1) [of 0 k] by simp
  next
    case False
    with Cons.prems(2) have "k - length xs < length (concat xss)" by simp
    then obtain i j where "i < length xss" "j < length (xss ! i)"
      "k - length xs = length (concat (take i xss)) + j" by (rule Cons.IH [rotated])
    with False show ?thesis using Cons.prems(1) [of "Suc i" j] by simp
  qed
qed simp

lemma log_invD:
  assumes "log_inv x l w rss"
  shows "quiet w" "config_ok (lg_Config l)" "ptrs_ok l" "dir_ok l w" "chained (segs l)"
    "length rss = length (segs l)" "segs l \<noteq> []" "length (bases l) = length (segs l)"
    "length (segs l) = length (lg_segments l)"
    "\<And>i. i < length (segs l) \<Longrightarrow> seg_rep x (lg_Dir l) (segs l ! i) w (rss ! i)"
    "\<And>i. i < length (segs l) \<Longrightarrow> sg_config (segs l ! i) = lg_Config l"
    "\<And>i. Suc i < length (segs l) \<Longrightarrow> rss ! i \<noteq> []"
proof -
  from assms have all: "list_all2 (\<lambda>s rs. seg_rep x (lg_Dir l) s w rs \<and> sg_config s = lg_Config l) (segs l) rss"
    and ne: "\<forall>rs \<in> set (butlast rss). rs \<noteq> []" by (auto simp: log_inv_def)
  show len: "length rss = length (segs l)" using list_all2_lengthD [OF all] by simp
  show "quiet w" "config_ok (lg_Config l)" "ptrs_ok l" "dir_ok l w" "chained (segs l)"
    "length (bases l) = length (segs l)" "length (segs l) = length (lg_segments l)"
    using assms by (auto simp: log_inv_def segs_def bases_def)
  then show "segs l \<noteq> []" by (auto simp: ptrs_ok_def segs_def)
  show "seg_rep x (lg_Dir l) (segs l ! i) w (rss ! i)" "sg_config (segs l ! i) = lg_Config l"
    if "i < length (segs l)" for i using list_all2_nthD [OF all that] by auto
  show "rss ! i \<noteq> []" if "Suc i < length (segs l)" for i
    using ne that len by (metis Suc_less_eq Suc_pred diff_Suc_1 in_set_conv_nth length_butlast
        less_imp_Suc_add nth_butlast zero_less_Suc)
qed

lemma seg_rep_next: "seg_rep x dir s w rs \<Longrightarrow> unat (sg_nextOffset s) = unat (sg_baseOffset s) + length rs"
  by (simp add: seg_rep_def)

text \<open>
  What reading and appending need to know of the segments: they follow each other, the offsets of a
  segment count its records, and only the last may be empty.
\<close>

definition seg_chain :: "segment list \<Rightarrow> api_Record list list \<Rightarrow> bool" where
  "seg_chain ss rss \<longleftrightarrow> ss \<noteq> [] \<and> chained ss \<and>
     list_all2 (\<lambda>s rs. unat (sg_nextOffset s) = unat (sg_baseOffset s) + length rs) ss rss \<and>
     (\<forall>i. Suc i < length ss \<longrightarrow> rss ! i \<noteq> [])"

lemma seg_chainD:
  assumes "seg_chain ss rss"
  shows "ss \<noteq> []" "chained ss" "length rss = length ss"
    "\<And>i. i < length ss \<Longrightarrow> unat (sg_nextOffset (ss ! i)) = unat (sg_baseOffset (ss ! i)) + length (rss ! i)"
    "\<And>i. Suc i < length ss \<Longrightarrow> rss ! i \<noteq> []"
  using assms list_all2_lengthD list_all2_nthD by (auto simp: seg_chain_def) fastforce+

lemma seg_chain_base:
  assumes "seg_chain ss rss" "i < length ss"
  shows "unat (sg_baseOffset (ss ! i)) = unat (sg_baseOffset (hd ss)) + length (concat (take i rss))"
  using assms(2)
proof (induction i)
  case 0
  then show ?case by (simp add: hd_conv_nth)
next
  case (Suc i)
  note D = seg_chainD [OF assms(1)]
  have "sg_baseOffset (ss ! Suc i) = sg_nextOffset (ss ! i)" using chained_nth [OF D(2) Suc.prems] by simp
  also have "unat \<dots> = unat (sg_baseOffset (ss ! i)) + length (rss ! i)" using D(4) [of i] Suc.prems by simp
  also have "\<dots> = unat (sg_baseOffset (hd ss)) + length (concat (take i rss)) + length (rss ! i)" using Suc by simp
  also have "\<dots> = unat (sg_baseOffset (hd ss)) + length (concat (take (Suc i) rss))"
    using Suc.prems D(3) by (subst concat_take_Suc) simp_all
  finally show ?case .
qed

lemma seg_chain_next:
  assumes "seg_chain ss rss" "i < length ss"
  shows "unat (sg_nextOffset (ss ! i)) = unat (sg_baseOffset (hd ss)) + length (concat (take (Suc i) rss))"
  using seg_chain_base [OF assms] seg_chainD(3,4) [OF assms(1)] assms(2)
  by (simp add: concat_take_Suc del: take_Suc_conv_app_nth)

lemma seg_chain_last_next:
  assumes "seg_chain ss rss"
  shows "unat (sg_nextOffset (last ss)) = unat (sg_baseOffset (hd ss)) + length (concat rss)"
  using seg_chain_next [OF assms, of "length ss - 1"] seg_chainD(1,3) [OF assms] by (simp add: last_conv_nth)

lemma seg_chain_strict:
  assumes "seg_chain ss rss" "i < j" "j < length ss"
  shows "sg_baseOffset (ss ! i) < sg_baseOffset (ss ! j)"
proof -
  note D = seg_chainD [OF assms(1)]
  have "concat (take j rss) = concat (take i rss) @ rss ! i @ concat (take (j - Suc i) (drop (Suc i) rss))"
  proof -
    have "take j rss = take (Suc i) rss @ take (j - Suc i) (drop (Suc i) rss)"
      using assms(2) by (metis Suc_leI le_add_diff_inverse take_add)
    then show ?thesis using assms D(3) by (simp add: take_Suc_conv_app_nth)
  qed
  moreover have "rss ! i \<noteq> []" using D(5) [of i] assms(2,3) by simp
  ultimately show ?thesis using seg_chain_base [OF assms(1)] assms(2,3) by (simp add: u64_less_iff)
qed

lemma seg_chain_distinct: "seg_chain ss rss \<Longrightarrow> distinct (map sg_baseOffset ss)"
  unfolding distinct_conv_nth by (metis seg_chain_strict length_map less_irrefl linorder_neqE_nat nth_map)

text \<open>An offset in the range of the chain lies in exactly one segment.\<close>

lemma seg_chain_block:
  assumes "seg_chain ss rss" and "i < length ss" and "sg_baseOffset (ss ! i) \<le> off" "off < sg_nextOffset (ss ! i)"
  defines "lo \<equiv> unat (sg_baseOffset (hd ss))" and "j \<equiv> unat off - unat (sg_baseOffset (ss ! i))"
  shows "unat off = unat (sg_baseOffset (ss ! i)) + j" "j < length (rss ! i)"
    "lo \<le> unat off" "unat off < lo + length (concat rss)" "concat rss ! (unat off - lo) = rss ! i ! j"
proof -
  note D = seg_chainD [OF assms(1)]
  show j: "unat off = unat (sg_baseOffset (ss ! i)) + j" "j < length (rss ! i)"
    using assms(3,4) D(4) [OF assms(2)] by (auto simp: j_def u64_le_iff u64_less_iff)
  have o: "unat off = lo + (length (concat (take i rss)) + j)"
    using j(1) seg_chain_base [OF assms(1,2)] by (simp add: lo_def)
  then show "lo \<le> unat off" "unat off < lo + length (concat rss)" "concat rss ! (unat off - lo) = rss ! i ! j"
    using concat_nth_block [of i rss j] j(2) assms(2) D(3) by simp_all
qed

lemma seg_chain_hit:
  assumes "seg_chain ss rss" and "unat (sg_baseOffset (hd ss)) \<le> unat off"
    and "unat off < unat (sg_baseOffset (hd ss)) + length (concat rss)"
  shows "\<exists>i < length ss. sg_baseOffset (ss ! i) \<le> off \<and> off < sg_nextOffset (ss ! i)"
proof -
  note D = seg_chainD [OF assms(1)]
  have "unat off - unat (sg_baseOffset (hd ss)) < length (concat rss)" using assms(2,3) by simp
  then obtain i j where ij: "i < length rss" "j < length (rss ! i)"
    "unat off - unat (sg_baseOffset (hd ss)) = length (concat (take i rss)) + j" by (rule concat_block_of)
  have "sg_baseOffset (ss ! i) \<le> off \<and> off < sg_nextOffset (ss ! i)"
    using seg_chain_base [OF assms(1), of i] seg_chain_next [OF assms(1), of i] ij D(3) assms(2)
    by (auto simp: u64_le_iff u64_less_iff concat_take_Suc)
  then show ?thesis using ij(1) D(3) by auto
qed

lemma chained_snoc:
  assumes "chained ss" "ss \<noteq> []" "sg_baseOffset s = sg_nextOffset (last ss)"
  shows "chained (ss @ [s])"
proof (rule chainedI)
  fix i assume "Suc i < length (ss @ [s])"
  then consider "Suc i < length ss" | "Suc i = length ss" by fastforce
  then show "sg_nextOffset ((ss @ [s]) ! i) = sg_baseOffset ((ss @ [s]) ! Suc i)"
  proof cases
    case 1
    then show ?thesis using chained_nth [OF assms(1)] by (simp add: nth_append)
  next
    case 2
    then have "i = length ss - 1" by simp
    with assms 2 show ?thesis by (simp add: nth_append last_conv_nth)
  qed
qed

text \<open>A chain stays one when a segment takes more records at the end, or an empty segment follows.\<close>

lemma seg_chain_update:
  assumes "seg_chain ss rss" "i < length ss" and s: "sg_baseOffset s = sg_baseOffset (ss ! i)"
    "unat (sg_nextOffset s) = unat (sg_baseOffset s) + length rs"
    and nx: "Suc i < length ss \<Longrightarrow> sg_nextOffset s = sg_nextOffset (ss ! i) \<and> rs \<noteq> []"
  shows "seg_chain (ss[i := s]) (rss[i := rs])"
proof -
  note D = seg_chainD [OF assms(1)]
  have "chained (ss[i := s])"
  proof (rule chainedI)
    fix j assume j: "Suc j < length (ss[i := s])"
    then have "sg_nextOffset (ss ! j) = sg_baseOffset (ss ! Suc j)" using chained_nth [OF D(2)] by simp
    then show "sg_nextOffset (ss[i := s] ! j) = sg_baseOffset (ss[i := s] ! Suc j)"
      using j nx s(1) assms(2) by (cases "j = i"; cases "Suc j = i") auto
  qed
  moreover have "rss[i := rs] ! j \<noteq> []" if "Suc j < length ss" for j
    using that D(3,5) nx by (cases "j = i") auto
  ultimately show ?thesis using D(1,3,4) s(2) assms(2)
    by (auto simp: seg_chain_def list_all2_conv_all_nth nth_list_update)
qed

lemma seg_chain_snoc:
  assumes "seg_chain ss rss" "last rss \<noteq> []" "sg_baseOffset s = sg_nextOffset (last ss)" "sg_nextOffset s = sg_baseOffset s"
  shows "seg_chain (ss @ [s]) (rss @ [[]])"
proof -
  note D = seg_chainD [OF assms(1)]
  have "rss ! i \<noteq> []" if "i < length ss" for i
  proof (cases "Suc i < length ss")
    case False
    then have "i = length rss - 1" "rss \<noteq> []" using that D(3) by auto
    then show ?thesis using assms(2) by (simp add: last_conv_nth)
  qed (rule D(5))
  then show ?thesis using chained_snoc [OF D(2,1) assms(3)] D(3,4) assms(4)
    by (auto simp: seg_chain_def list_all2_conv_all_nth nth_append)
qed

section \<open>The chain of a log\<close>

lemma log_inv_chain: "log_inv x l w rss \<Longrightarrow> seg_chain (segs l) rss"
  unfolding seg_chain_def using log_invD [of x l w rss]
  by (auto simp: list_all2_conv_all_nth intro: seg_rep_next)

lemma chain_base:
  "log_inv x l w rss \<Longrightarrow> i < length (segs l) \<Longrightarrow>
     unat (sg_baseOffset (segs l ! i)) = log_low l + length (concat (take i rss))"
  unfolding log_low_def by (rule seg_chain_base [OF log_inv_chain])

lemma chain_next:
  "log_inv x l w rss \<Longrightarrow> i < length (segs l) \<Longrightarrow>
     unat (sg_nextOffset (segs l ! i)) = log_low l + length (concat (take (Suc i) rss))"
  unfolding log_low_def by (rule seg_chain_next [OF log_inv_chain])

lemma chain_last_next:
  "log_inv x l w rss \<Longrightarrow> unat (sg_nextOffset (last (segs l))) = log_low l + length (concat rss)"
  unfolding log_low_def by (rule seg_chain_last_next [OF log_inv_chain])

lemma chain_bases_strict:
  "log_inv x l w rss \<Longrightarrow> i < j \<Longrightarrow> j < length (segs l) \<Longrightarrow> sg_baseOffset (segs l ! i) < sg_baseOffset (segs l ! j)"
  by (rule seg_chain_strict [OF log_inv_chain])

lemma bases_distinct: "log_inv x l w rss \<Longrightarrow> distinct (bases l)"
  unfolding bases_def by (rule seg_chain_distinct [OF log_inv_chain])

section \<open>Updating one segment\<close>

lemma put_seg_simps [simp]:
  "lg_Dir (put_seg a s l) = lg_Dir l" "lg_Config (put_seg a s l) = lg_Config l"
  "lg_active (put_seg a s l) = lg_active l" "lg_segments (put_seg a s l) = lg_segments l"
  "length (lg_heap (put_seg a s l)) = length (lg_heap l)"
  by (simp_all add: put_seg_def)

lemma put_seg_same: "put_seg a (seg_of l a) l = l"
  by (simp add: put_seg_def seg_of_def)

lemma seg_of_put_seg: "a < length (lg_heap l) \<Longrightarrow> seg_of (put_seg a s l) b = (if b = a then s else seg_of l b)"
  by (simp add: seg_of_def put_seg_def nth_list_update)

lemma segs_put_seg:
  assumes "ptrs_ok l" "i < length (lg_segments l)"
  shows "segs (put_seg (lg_segments l ! i) s l) = (segs l)[i := s]"
proof (rule nth_equalityI)
  fix j assume "j < length (segs (put_seg (lg_segments l ! i) s l))"
  then have j: "j < length (lg_segments l)" by (simp add: segs_def)
  have "lg_segments l ! i < length (lg_heap l)" using assms by (simp add: ptrs_ok_def)
  moreover have "lg_segments l ! j = lg_segments l ! i \<longleftrightarrow> j = i"
    using assms j by (simp add: ptrs_ok_def nth_eq_iff_index_eq)
  ultimately show "segs (put_seg (lg_segments l ! i) s l) ! j = (segs l)[i := s] ! j"
    using j assms(2) by (simp add: segs_def seg_of_put_seg nth_list_update)
qed (simp add: segs_def)

lemma ptrs_ok_put_seg [simp]: "ptrs_ok (put_seg a s l) \<longleftrightarrow> ptrs_ok l"
  by (simp add: ptrs_ok_def)

lemma seg_paths_disjoint: "a \<noteq> b \<Longrightarrow> seg_paths dir a \<inter> seg_paths dir b = {}"
  by (auto simp: seg_paths_def store_file_def index_file_def)

text \<open>
  A step of one segment that keeps its base, its offsets below and its configuration, and that
  touches no file but its own, is a step of the log: every other segment is untouched.
\<close>

lemma log_inv_put_seg:
  assumes rep: "log_inv x l w rss" and i: "i < length (segs l)"
    and s: "seg_rep x (lg_Dir l) s w' rs" "sg_baseOffset s = sg_baseOffset (segs l ! i)"
      "sg_config s = sg_config (segs l ! i)"
    and t: "touches (seg_paths (lg_Dir l) (sg_baseOffset s)) w w'"
    and nx: "Suc i < length (segs l) \<Longrightarrow> sg_nextOffset s = sg_nextOffset (segs l ! i) \<and> rs \<noteq> []"
  shows "log_inv x (put_seg (lg_segments l ! i) s l) w' (rss[i := rs])"
    and "log_low (put_seg (lg_segments l ! i) s l) = log_low l"
proof -
  let ?l = "put_seg (lg_segments l ! i) s l"
  note D = log_invD [OF rep]
  have segs: "segs ?l = (segs l)[i := s]" using D(3,9) i by (simp add: segs_put_seg)
  have other: "seg_rep x (lg_Dir l) (segs l ! j) w' (rss ! j)" if "j < length (segs l)" "j \<noteq> i" for j
  proof (rule seg_rep_cong [OF D(10) [OF that(1)] touches_quiet [OF t]])
    fix p assume p: "p \<in> seg_paths (lg_Dir l) (sg_baseOffset (segs l ! j))"
    have "sg_baseOffset (segs l ! j) \<noteq> sg_baseOffset s"
      using bases_distinct [OF rep] that i s(2) by (simp add: bases_def distinct_conv_nth)
    then have "p \<notin> seg_paths (lg_Dir l) (sg_baseOffset s)"
      using p seg_paths_disjoint by blast
    then show "fget w' p = fget w p" by (rule touches_fget [OF t])
  qed
  have "list_all2 (\<lambda>s rs. seg_rep x (lg_Dir l) s w' rs \<and> sg_config s = lg_Config l) (segs ?l) (rss[i := rs])"
    unfolding segs list_all2_conv_all_nth
    using D(6) D(11) other s i by (auto simp: nth_list_update)
  moreover have ch: "seg_chain ((segs l)[i := s]) (rss[i := rs])"
    using seg_chain_update [OF log_inv_chain [OF rep] i s(2) seg_rep_next [OF s(1)]] nx by blast
  then have "chained (segs ?l)" unfolding segs by (rule seg_chainD(2))
  moreover have "bases ?l = bases l"
    using s(2) i by (simp add: bases_def segs map_update)
       (metis length_map list_update_id nth_map)
  then have "dir_ok ?l w'" using D(4) touches_names [OF t] by (simp add: dir_ok_def)
  moreover have "\<forall>rs' \<in> set (butlast (rss[i := rs])). rs' \<noteq> []"
    using seg_chainD(3,5) [OF ch] by (auto simp: in_set_conv_nth nth_butlast)
  ultimately show "log_inv x ?l w' (rss[i := rs])"
    using D(2,3) touches_quiet [OF t] by (simp add: log_inv_def)
  show "log_low ?l = log_low l"
    using D(7) s(2) i by (auto simp: log_low_def segs hd_conv_nth nth_list_update)
qed

lemma log_repD:
  "log_rep x l w rss \<Longrightarrow> log_inv x l w rss"
  "log_rep x l w rss \<Longrightarrow> \<not> segment_IsMaxed (last (segs l))"
  by (simp_all add: log_rep_def)

lemma log_rep_put_seg:
  assumes rep: "log_rep x l w rss" and i: "i < length (segs l)"
    and s: "seg_rep x (lg_Dir l) s w' rs" "sg_baseOffset s = sg_baseOffset (segs l ! i)"
      "sg_config s = sg_config (segs l ! i)"
    and t: "touches (seg_paths (lg_Dir l) (sg_baseOffset s)) w w'"
    and nx: "Suc i < length (segs l) \<Longrightarrow> sg_nextOffset s = sg_nextOffset (segs l ! i) \<and> rs \<noteq> []"
    and last: "Suc i = length (segs l) \<Longrightarrow> \<not> segment_IsMaxed s"
  shows "log_rep x (put_seg (lg_segments l ! i) s l) w' (rss[i := rs])"
    and "log_low (put_seg (lg_segments l ! i) s l) = log_low l"
proof -
  note D = log_invD [OF log_repD(1) [OF rep]]
  have segs: "segs (put_seg (lg_segments l ! i) s l) = (segs l)[i := s]"
    using D(3,9) i by (simp add: segs_put_seg)
  have "\<not> segment_IsMaxed (List.last (segs (put_seg (lg_segments l ! i) s l)))"
    using last D(7) log_repD(2) [OF rep] i by (auto simp: segs last_list_update last_conv_nth nth_list_update)
  then show "log_rep x (put_seg (lg_segments l ! i) s l) w' (rss[i := rs])"
    "log_low (put_seg (lg_segments l ! i) s l) = log_low l"
    using log_inv_put_seg [OF log_repD(1) [OF rep] i s t nx] by (simp_all add: log_rep_def)
qed

section \<open>Reading\<close>

lemma Log_find_cases:
  "(Log_find l off as s = s \<and>
     (\<forall>a \<in> set as. \<not> (sg_baseOffset (seg_of l a) \<le> off \<and> off < sg_nextOffset (seg_of l a)))) \<or>
   (\<exists>a \<in> set as. sg_baseOffset (seg_of l a) \<le> off \<and> off < sg_nextOffset (seg_of l a) \<and>
      Log_find l off as s = Some a)"
proof (induction as arbitrary: s)
  case (Cons b as)
  then show ?case
    by (cases "sg_baseOffset (seg_of l b) \<le> off \<and> off < sg_nextOffset (seg_of l b)") fastforce+
qed simp

text \<open>The search on a chain of segments finds the segment of an offset in range, and nothing otherwise.\<close>

lemma Log_find_chain:
  assumes "seg_chain (segs l) rss"
  shows "log_low l \<le> unat off \<Longrightarrow> unat off < log_low l + length (concat rss) \<Longrightarrow>
      \<exists>i < length (segs l). Log_find l off (lg_segments l) None = Some (lg_segments l ! i) \<and>
        seg_of l (lg_segments l ! i) = segs l ! i \<and> sg_baseOffset (segs l ! i) \<le> off \<and> off < sg_nextOffset (segs l ! i)"
    and "unat off < log_low l \<or> log_low l + length (concat rss) \<le> unat off \<Longrightarrow> Log_find l off (lg_segments l) None = None"
proof -
  have len: "length (segs l) = length (lg_segments l)" by (simp add: segs_def)
  have s: "seg_of l (lg_segments l ! i) = segs l ! i" if "i < length (segs l)" for i using that by (simp add: segs_def)
  show "\<exists>i < length (segs l). Log_find l off (lg_segments l) None = Some (lg_segments l ! i) \<and>
      seg_of l (lg_segments l ! i) = segs l ! i \<and> sg_baseOffset (segs l ! i) \<le> off \<and> off < sg_nextOffset (segs l ! i)"
    if off: "log_low l \<le> unat off" "unat off < log_low l + length (concat rss)"
  proof -
    obtain i0 where "i0 < length (segs l)" "sg_baseOffset (segs l ! i0) \<le> off" "off < sg_nextOffset (segs l ! i0)"
      using seg_chain_hit [OF assms off [unfolded log_low_def]] by blast
    then have "\<not> (\<forall>a \<in> set (lg_segments l). \<not> (sg_baseOffset (seg_of l a) \<le> off \<and> off < sg_nextOffset (seg_of l a)))"
      using s len by (metis nth_mem)
    then obtain a where "a \<in> set (lg_segments l)" "sg_baseOffset (seg_of l a) \<le> off" "off < sg_nextOffset (seg_of l a)"
      "Log_find l off (lg_segments l) None = Some a" using Log_find_cases [of l off "lg_segments l" None] by auto
    then show ?thesis using s len by (metis in_set_conv_nth)
  qed
  show "Log_find l off (lg_segments l) None = None"
    if off: "unat off < log_low l \<or> log_low l + length (concat rss) \<le> unat off"
  proof -
    have "\<not> (sg_baseOffset (segs l ! i) \<le> off \<and> off < sg_nextOffset (segs l ! i))" if "i < length (segs l)" for i
      using seg_chain_block(3,4) [OF assms that, of off] off by (auto simp: log_low_def)
    then have "\<forall>a \<in> set (lg_segments l). \<not> (sg_baseOffset (seg_of l a) \<le> off \<and> off < sg_nextOffset (seg_of l a))"
      by (auto simp: segs_def in_set_conv_nth)
    then show ?thesis using Log_find_cases [of l off "lg_segments l" None] by auto
  qed
qed

lemma Log_Read_hit:
  assumes rep: "log_rep x l w rss" and x: "codec_ok x"
    and off: "log_low l \<le> unat off" "unat off < log_low l + length (concat rss)"
  shows "\<exists>l' w'. Log_Read x off l w = (Inr (concat rss ! (unat off - log_low l)), l', w') \<and>
    log_rep x l' w' rss \<and> log_low l' = log_low l"
proof -
  note inv = log_repD(1) [OF rep]
  note D = log_invD [OF inv]
  note ch = log_inv_chain [OF inv]
  obtain i where i: "i < length (segs l)" "Log_find l off (lg_segments l) None = Some (lg_segments l ! i)"
    "seg_of l (lg_segments l ! i) = segs l ! i" "sg_baseOffset (segs l ! i) \<le> off" "off < sg_nextOffset (segs l ! i)"
    using Log_find_chain(1) [OF ch off] by blast
  define j where "j = unat off - unat (sg_baseOffset (segs l ! i))"
  note j = seg_chain_block [OF ch i(1,4,5), folded j_def log_low_def]
  obtain s' w' where s': "segment_Read x off (segs l ! i) w = (Inr (rss ! i ! j), s', w')"
    "seg_rep x (lg_Dir l) s' w' (rss ! i)" "sg_baseOffset s' = sg_baseOffset (segs l ! i)"
    "sg_config s' = sg_config (segs l ! i)" "sg_nextOffset s' = sg_nextOffset (segs l ! i)"
    "segment_IsMaxed s' = segment_IsMaxed (segs l ! i)"
    "touches (seg_paths (lg_Dir l) (sg_baseOffset (segs l ! i))) w w'"
    using segment_Read_rep [OF D(10) [OF i(1)] x j(2,1)] by blast
  have run: "Log_Read x off l w =
      (Inr (concat rss ! (unat off - log_low l)), put_seg (lg_segments l ! i) s' l, w')"
    using i s'(1) j(5) by (simp add: Log_Read_def)
  have inner: "sg_nextOffset s' = sg_nextOffset (segs l ! i) \<and> rss ! i \<noteq> []" if "Suc i < length (segs l)"
    using s'(5) D(12) that by simp
  have outer: "\<not> segment_IsMaxed s'" if "Suc i = length (segs l)"
  proof -
    have "last (segs l) = segs l ! i" using D(7) that by (metis diff_Suc_1 last_conv_nth)
    with s'(6) log_repD(2) [OF rep] show ?thesis by simp
  qed
  have "log_rep x (put_seg (lg_segments l ! i) s' l) w' (rss[i := rss ! i])"
    "log_low (put_seg (lg_segments l ! i) s' l) = log_low l"
    using log_rep_put_seg [OF rep i(1) s'(2-4) _ inner outer] s'(3,7) by simp_all
  with run show ?thesis by simp
qed

lemma Log_Read_miss:
  assumes "log_rep x l w rss" and "unat off < log_low l \<or> log_low l + length (concat rss) \<le> unat off"
  shows "Log_Read x off l w = (Inl (ErrOffsetOutOfRange off), l, w)"
  using Log_find_chain(2) [OF log_inv_chain [OF log_repD(1) [OF assms(1)]] assms(2)] by (simp add: Log_Read_def)

section \<open>Appending\<close>

lemma seg_files_mem [simp]:
  "store_file b \<in> seg_files bs \<longleftrightarrow> b \<in> set bs" "index_file b \<in> seg_files bs \<longleftrightarrow> b \<in> set bs"
  by (auto simp: seg_files_def store_file_def index_file_def)

lemma seg_files_append: "seg_files (bs @ [b]) = seg_files bs \<union> {store_file b, index_file b}"
  by (auto simp: seg_files_def)

lemma seg_rep_quiet: "seg_rep x dir s w rs \<Longrightarrow> quiet w \<and> config_ok (sg_config s)"
  by (erule seg_repE) simp

lemma next_offset_fresh:
  assumes inv: "log_inv x l w rss" and ne: "last rss \<noteq> []"
  shows "sg_nextOffset (last (segs l)) \<notin> set (bases l)"
proof
  note D = log_invD [OF inv]
  assume "sg_nextOffset (last (segs l)) \<in> set (bases l)"
  then obtain i where i: "i < length (segs l)" "sg_nextOffset (last (segs l)) = sg_baseOffset (segs l ! i)"
    by (auto simp: bases_def in_set_conv_nth)
  let ?n = "length (segs l) - 1"
  have n: "?n < length (segs l)" "last (segs l) = segs l ! ?n" using D(7) by (simp_all add: last_conv_nth)
  have "i < ?n \<or> i = ?n" using i(1) by linarith
  then have "sg_baseOffset (segs l ! i) \<le> sg_baseOffset (segs l ! ?n)"
    using chain_bases_strict [OF inv _ n(1)] less_imp_le by blast
  moreover have "unat (sg_nextOffset (segs l ! ?n)) = unat (sg_baseOffset (segs l ! ?n)) + length (last rss)"
    using seg_rep_next [OF D(10) [OF n(1)]] D(6,7) by (metis last_conv_nth length_0_conv)
  ultimately show False using i(2) n(2) ne by (simp add: u64_le_iff)
qed

lemma Log_newSegment_rep:
  assumes inv: "log_inv x l w rss" and ne: "last rss \<noteq> []" and x: "mmap_ok x"
  shows "\<exists>l' w'. Log_newSegment x (sg_nextOffset (last (segs l))) l w = (None, l', w') \<and>
    log_rep x l' w' (rss @ [[]]) \<and> log_low l' = log_low l"
proof -
  note D = log_invD [OF inv]
  let ?b = "sg_nextOffset (last (segs l))"
  have new: "?b \<notin> set (bases l)" using inv ne by (rule next_offset_fresh)
  obtain ns where ns: "names w (lg_Dir l) = Some ns" "distinct ns" "set ns = seg_files (bases l)"
    using D(4) by (auto simp: dir_ok_def)
  have "fget w (lg_Dir l, store_file ?b) = None" "fget w (lg_Dir l, index_file ?b) = None"
    using fget_names [of w "lg_Dir l"] ns(1,3) new by (metis option.inject seg_files_mem(1), metis option.inject seg_files_mem(2))
  then obtain s w' where s: "newSegment x (lg_Dir l) ?b (lg_Config l) w = (Inr s, w')"
    "seg_rep x (lg_Dir l) s w' []" "sg_baseOffset s = ?b" "sg_config s = lg_Config l"
    "\<And>p. p \<notin> seg_paths (lg_Dir l) ?b \<Longrightarrow> fget w' p = fget w p"
    "names w' (lg_Dir l) = Some (ns @ [store_file ?b, index_file ?b])"
    using newSegment_fresh [OF D(2) x D(1) ns(1), of ?b] by auto
  define l' where "l' = l\<lparr>lg_heap := lg_heap l @ [s], lg_segments := lg_segments l @ [length (lg_heap l)],
    lg_active := Some (length (lg_heap l))\<rparr>"
  have run: "Log_newSegment x ?b l w = (None, l', w')" using s(1) by (simp add: Log_newSegment_def l'_def)
  have conf: "lg_Config l' = lg_Config l" by (simp add: l'_def)
  have segs: "segs l' = segs l @ [s]"
    using D(3) by (auto simp: segs_def seg_of_def l'_def ptrs_ok_def nth_append)
  have "ptrs_ok l'" using D(3) by (auto simp: ptrs_ok_def l'_def)
  moreover have "dir_ok l' w'"
  proof -
    have "bases l' = bases l @ [?b]" "lg_Dir l' = lg_Dir l" by (simp_all add: bases_def segs s(3), simp add: l'_def)
    moreover have "distinct (ns @ [store_file ?b, index_file ?b])" using ns(2,3) new by simp
    ultimately show ?thesis using ns(3) s(6) by (auto simp: dir_ok_def seg_files_append)
  qed
  moreover have "seg_rep x (lg_Dir l) (segs l ! i) w' (rss ! i)" if i: "i < length (segs l)" for i
  proof (rule seg_rep_cong [OF D(10) [OF i]])
    show "quiet w'" using seg_rep_quiet [OF s(2)] ..
    fix p assume "p \<in> seg_paths (lg_Dir l) (sg_baseOffset (segs l ! i))"
    moreover have "sg_baseOffset (segs l ! i) \<noteq> ?b"
      using new i by (metis bases_def length_map nth_map nth_mem)
    ultimately show "fget w' p = fget w p" using seg_paths_disjoint by (intro s(5)) blast
  qed
  then have "list_all2 (\<lambda>s rs. seg_rep x (lg_Dir l') s w' rs \<and> sg_config s = lg_Config l') (segs l') (rss @ [[]])"
    unfolding segs using D(6,11) s(2,4)
    by (intro list_all2_appendI) (auto simp: list_all2_conv_all_nth l'_def)
  moreover have "chained (segs l')" unfolding segs using D(5,7) s(3) by (rule chained_snoc)
  moreover have "set rss \<subseteq> insert (last rss) (set (butlast rss))"
    by (cases rss rule: rev_cases) auto
  then have "\<forall>rs \<in> set rss. rs \<noteq> []" using inv ne by (auto simp: log_inv_def)
  moreover have "\<not> segment_IsMaxed s"
    using segment_IsMaxed_rep [OF s(2), of "[]"] D(2) s(4) by (simp add: encodes_def config_ok_def)
  ultimately have "log_rep x l' w' (rss @ [[]])"
    using D(2) seg_rep_quiet [OF s(2)] s(4) conf by (simp add: log_rep_def log_inv_def segs)
  moreover have "log_low l' = log_low l" using D(7) by (simp add: log_low_def segs)
  ultimately show ?thesis using run by blast
qed

text \<open>The record goes to the last segment, and a new segment follows if that one is full.\<close>

lemma Log_Append_last:
  assumes rep: "log_rep x l w rss" and x: "codec_ok x" "mmap_ok x"
    and n: "n = log_low l + length (concat rss)" "n + 1 < 2 ^ 64"
    and m: "marshal x (r\<lparr>r_Offset := of_nat n\<rparr>) = Inr p"
  shows "\<exists>l' w' more. Log_Append x (Some r) l w = (Inr (of_nat n), l', w') \<and> log_low l' = log_low l \<and>
    log_rep x l' w' (butlast rss @ [last rss @ [r\<lparr>r_Offset := of_nat n\<rparr>]] @ more) \<and> (more = [] \<or> more = [[]])"
proof -
  note inv = log_repD(1) [OF rep]
  note D = log_invD [OF inv]
  let ?k = "length (segs l) - 1" and ?r = "r\<lparr>r_Offset := of_nat n\<rparr>"
  let ?s = "segs l ! ?k" and ?a = "lg_segments l ! ?k"
  have k: "?k < length (segs l)" "last (segs l) = ?s" "Suc ?k = length (segs l)"
    using D(7) by (simp_all add: last_conv_nth)
  have act: "lg_active l = Some ?a" "seg_of l ?a = ?s"
    using D(3,9) k(1) by (auto simp: ptrs_ok_def segs_def last_conv_nth)
  have nxt: "sg_nextOffset ?s = of_nat n"
    using chain_last_next [OF inv] n k(2) by (intro u64_of_nat_eq) simp_all
  obtain s w' where s: "segment_Append x (Some r) ?s w = (Inr (of_nat n), s, w')"
    "seg_rep x (lg_Dir l) s w' (rss ! ?k @ [?r])" "sg_baseOffset s = sg_baseOffset ?s"
    "sg_config s = sg_config ?s" "unat (sg_nextOffset s) = n + 1"
    "touches (seg_paths (lg_Dir l) (sg_baseOffset ?s)) w w'"
    using segment_Append_rep [OF D(10) [OF k(1)] x(1), of r p] log_repD(2) [OF rep] k(2) m n(2) nxt
    by (simp add: u64_of_nat) blast
  define l1 where "l1 = put_seg ?a s l"
  define rss1 where "rss1 = rss[?k := rss ! ?k @ [?r]]"
  have inv1: "log_inv x l1 w' rss1" "log_low l1 = log_low l"
    unfolding l1_def rss1_def using s k log_inv_put_seg [OF inv k(1) s(2)] by auto
  have len: "?k = length rss - 1" "rss \<noteq> []" "rss ! ?k = last rss"
    using D(6,7) by (simp, force, metis last_conv_nth length_0_conv)
  have last1: "last (segs l1) = s" "last rss1 \<noteq> []"
    using D(3,6,7,9) k(1) len(2) by (simp_all add: l1_def rss1_def segs_put_seg last_list_update len(1))
  have cat: "rss1 = butlast rss @ [last rss @ [?r]]"
    using len(2) unfolding rss1_def len(3) unfolding len(1) by (cases rss rule: rev_cases) (simp_all add: list_update_append)
  show ?thesis
  proof (cases "segment_IsMaxed s")
    case False
    then have "log_rep x l1 w' (butlast rss @ [last rss @ [?r]] @ [])" using inv1 last1 cat by (simp add: log_rep_def)
    with False inv1 act s(1) show ?thesis
      by (intro exI [of _ l1] exI [of _ w'] exI [of _ "[]"]) (simp add: Log_Append_def l1_def)
  next
    case True
    obtain l2 w2 where l2: "Log_newSegment x (sg_nextOffset (last (segs l1))) l1 w' = (None, l2, w2)"
      "log_rep x l2 w2 (rss1 @ [[]])" "log_low l2 = log_low l1"
      using Log_newSegment_rep [OF inv1(1) last1(2) x(2)] by blast
    have "sg_nextOffset s = of_nat n + 1"
      using s(5) n(2) by (simp add: u64_eq_iff unat_u64_Suc)
    then have "Log_Append x (Some r) l w = (Inr (of_nat n), l2, w2)"
      using True act s(1) l2(1) last1(1) by (simp add: Log_Append_def l1_def)
    with l2 inv1(2) cat show ?thesis by (intro exI [of _ l2] exI [of _ w2] exI [of _ "[[]]"]) simp
  qed
qed

lemma Log_Append_rep:
  assumes rep: "log_rep x l w rss" and x: "codec_ok x" "mmap_ok x"
    and n: "n = log_low l + length (concat rss)" "n + 1 < 2 ^ 64"
    and m: "marshal x (r\<lparr>r_Offset := of_nat n\<rparr>) = Inr p"
  shows "\<exists>l' w' rss'. Log_Append x (Some r) l w = (Inr (of_nat n), l', w') \<and> log_rep x l' w' rss' \<and>
    log_low l' = log_low l \<and> concat rss' = concat rss @ [r\<lparr>r_Offset := of_nat n\<rparr>]"
proof -
  obtain l' w' more where l': "Log_Append x (Some r) l w = (Inr (of_nat n), l', w')" "log_low l' = log_low l"
    "log_rep x l' w' (butlast rss @ [last rss @ [r\<lparr>r_Offset := of_nat n\<rparr>]] @ more)" "more = [] \<or> more = [[]]"
    using Log_Append_last [OF assms] by blast
  have "rss \<noteq> []" using log_invD(6,7) [OF log_repD(1) [OF rep]] by force
  then have "concat (butlast rss @ [last rss]) = concat rss" by (rule arg_cong [OF append_butlast_last_id])
  with l' show ?thesis by (intro exI [of _ l'] exI [of _ w'] exI conjI) auto
qed

lemma Log_Append_dir:
  "Log_Append x r l w = (res, l', w') \<Longrightarrow> lg_Dir l' = lg_Dir l \<and> lg_Config l' = lg_Config l"
  by (auto simp: Log_Append_def Log_newSegment_def put_seg_def Let_def split: option.splits prod.splits sum.splits if_splits)

lemma first_next:
  assumes inv: "log_inv x l w rss" and ne: "concat rss \<noteq> []"
  shows "log_low l < unat (sg_nextOffset (hd (segs l)))" "unat (sg_nextOffset (hd (segs l))) \<le> log_low l + length (concat rss)"
proof -
  note D = log_invD [OF inv]
  obtain rs rss' where r: "rss = rs # rss'" using D(6,7) by (cases rss) auto
  have "rs \<noteq> []" using D(12) [of 0] D(6) ne r by (cases rss') auto
  then show "log_low l < unat (sg_nextOffset (hd (segs l)))" "unat (sg_nextOffset (hd (segs l))) \<le> log_low l + length (concat rss)"
    using chain_next [OF inv, of 0] D(7) r by (auto simp: hd_conv_nth)
qed

end
