(* ===== verification/Recovery.thy ===== *)
theory Recovery
  imports Log "HOL-Library.Multiset"
begin

text \<open>
  The life cycle of a log (src/internal/log/log.go): bootstrapping in an empty directory, closing,
  reopening the files of a closed log, truncation, removal and reset. \<open>log_disk\<close> says of a directory
  that it holds a closed log.
\<close>

section \<open>A new log\<close>

lemma config_defaults_ok:
  "MaxStoreBytes (config_defaults c) = (if MaxStoreBytes c = 0 then 1024 else MaxStoreBytes c)"
  "MaxIndexBytes (config_defaults c) = (if MaxIndexBytes c = 0 then 1024 else MaxIndexBytes c)"
  "InitialOffset (config_defaults c) = InitialOffset c"
  by (auto simp: config_defaults_def Let_def)

lemma Log_newSegment_first:
  assumes c: "config_ok (lg_Config l)" and x: "mmap_ok x" and w: "quiet w" "names w (lg_Dir l) = Some []"
    and e: "lg_segments l = []"
  shows "\<exists>l' w'. Log_newSegment x b l w = (None, l', w') \<and> log_rep x l' w' [[]] \<and> log_low l' = unat b \<and>
    lg_Dir l' = lg_Dir l \<and> lg_Config l' = lg_Config l"
proof -
  have "fget w (lg_Dir l, n) = None" for n using fget_names [of w "lg_Dir l" n] w(2) by auto
  then obtain s w' where s: "newSegment x (lg_Dir l) b (lg_Config l) w = (Inr s, w')"
    "seg_rep x (lg_Dir l) s w' []" "sg_baseOffset s = b" "sg_config s = lg_Config l"
    "names w' (lg_Dir l) = Some [store_file b, index_file b]"
    using newSegment_fresh [OF c x w, of b] by auto
  define l' where "l' = l\<lparr>lg_heap := lg_heap l @ [s], lg_segments := [length (lg_heap l)],
    lg_active := Some (length (lg_heap l))\<rparr>"
  have fields: "lg_Dir l' = lg_Dir l" "lg_Config l' = lg_Config l" by (simp_all add: l'_def)
  have segs: "segs l' = [s]" by (simp add: segs_def seg_of_def l'_def)
  have "dir_ok l' w'" using s(3,5) by (auto simp: dir_ok_def bases_def segs seg_files_def fields)
  moreover have "ptrs_ok l'" by (simp add: ptrs_ok_def l'_def)
  moreover have "\<not> segment_IsMaxed s"
    using segment_IsMaxed_rep [OF s(2), of "[]"] c s(4) by (simp add: encodes_def config_ok_def)
  ultimately have "log_rep x l' w' [[]]"
    using c s seg_rep_quiet [OF s(2)] by (simp add: log_rep_def log_inv_def segs fields)
  with s e show ?thesis
    by (intro exI [of _ l'] exI [of _ w'])
       (simp add: Log_newSegment_def log_low_def segs fields, simp add: l'_def)
qed

lemma NewLog_empty:
  assumes "config_ok (config_defaults c)" "mmap_ok x" "quiet w" "names w dir = Some []"
  shows "\<exists>l w'. NewLog x dir c w = (None, l, w') \<and> log_rep x l w' [[]] \<and> log_low l = unat (InitialOffset c) \<and>
    lg_Dir l = dir \<and> lg_Config l = config_defaults c"
proof -
  let ?l = "\<lparr>lg_Dir = dir, lg_Config = config_defaults c, lg_active = None, lg_segments = [], lg_heap = []\<rparr>"
  obtain l w' where "Log_newSegment x (InitialOffset c) ?l w = (None, l, w')" "log_rep x l w' [[]]"
    "log_low l = unat (InitialOffset c)" "lg_Dir l = dir" "lg_Config l = config_defaults c"
    using Log_newSegment_first [of ?l x w "InitialOffset c"] assms by auto
  then show ?thesis
    using assms(3,4) by (simp add: NewLog_def Log_setup_def os_ReadDir_quiet config_defaults_ok(3))
qed

section \<open>Closing\<close>

definition seg_base :: "Log \<Rightarrow> nat \<Rightarrow> u64" where
  "seg_base l a = sg_baseOffset (seg_of l a)"

lemma bases_seg_base: "bases l = map (seg_base l) (lg_segments l)"
  by (simp add: bases_def segs_def seg_base_def)

definition log_paths :: "string \<Rightarrow> u64 list \<Rightarrow> path set" where
  "log_paths dir bs = (\<Union>b \<in> set bs. seg_paths dir b)"

lemma log_paths_simps: "log_paths dir [] = {}" "log_paths dir (b # bs) = seg_paths dir b \<union> log_paths dir bs"
  by (simp_all add: log_paths_def)

lemma log_paths_disjoint: "b \<notin> set bs \<Longrightarrow> p \<in> seg_paths dir b \<Longrightarrow> p \<notin> log_paths dir bs"
  by (metis UN_E disjoint_iff log_paths_def seg_paths_disjoint)

lemma close_segments_rep:
  assumes "list_all2 (\<lambda>a rs. seg_rep x dir (seg_of l a) w rs) as rss"
    and "distinct (map (seg_base l) as)" "\<forall>a \<in> set as. a < length (lg_heap l)"
    and "mmap_ok x" "quiet w"
  shows "\<exists>l' w'. close_segments x as l w = (None, l', w') \<and>
    touches (log_paths dir (map (seg_base l) as)) w w' \<and>
    list_all2 (\<lambda>a rs. seg_disk x dir (seg_base l a) w' rs) as rss \<and>
    lg_Dir l' = lg_Dir l \<and> lg_segments l' = lg_segments l \<and> lg_Config l' = lg_Config l \<and>
    lg_active l' = lg_active l"
  using assms
proof (induction as arbitrary: l w rss)
  case Nil
  then show ?case by (auto intro: touches_refl)
next
  case (Cons a as)
  then obtain rs rss' where rss: "rss = rs # rss'" "seg_rep x dir (seg_of l a) w rs"
    "list_all2 (\<lambda>a rs. seg_rep x dir (seg_of l a) w rs) as rss'" by (auto simp: list_all2_Cons1)
  let ?b = "seg_base l"
  have new: "?b a \<notin> set (map ?b as)" "a < length (lg_heap l)" using Cons.prems by auto
  obtain s w1 where s: "segment_Close x (seg_of l a) w = (None, s, w1)"
    "seg_disk x dir (?b a) w1 rs" "touches (seg_paths dir (?b a)) w w1"
    using segment_Close_rep [OF rss(2) \<open>mmap_ok x\<close>] by (auto simp: seg_base_def)
  let ?l = "put_seg a s l"
  have keep: "seg_of ?l b = seg_of l b" if "b \<in> set as" for b
    using new that by (auto simp: seg_of_put_seg)
  have "list_all2 (\<lambda>a rs. seg_rep x dir (seg_of ?l a) w1 rs) as rss'"
  proof (rule list.rel_mono_strong [OF rss(3)])
    fix b rs' assume b: "b \<in> set as" "rs' \<in> set rss'" and rep: "seg_rep x dir (seg_of l b) w rs'"
    have "?b b \<noteq> ?b a" using new(1) b(1) by (metis imageI set_map)
    then have "fget w1 p = fget w p" if "p \<in> seg_paths dir (?b b)" for p
      using that seg_paths_disjoint by (intro touches_fget [OF s(3)]) blast
    then show "seg_rep x dir (seg_of ?l b) w1 rs'"
      using seg_rep_cong [OF rep touches_quiet [OF s(3)]] keep [OF b(1)] by (simp add: seg_base_def)
  qed
  moreover have eq: "map (seg_base ?l) as = map ?b as" using keep by (simp add: seg_base_def)
  ultimately obtain l' w' where IH: "close_segments x as ?l w1 = (None, l', w')"
    "touches (log_paths dir (map ?b as)) w1 w'"
    "list_all2 (\<lambda>a rs. seg_disk x dir (seg_base ?l a) w' rs) as rss'"
    "lg_Dir l' = lg_Dir l" "lg_segments l' = lg_segments l" "lg_Config l' = lg_Config l" "lg_active l' = lg_active l"
    using Cons.IH [of ?l w1 rss', unfolded eq] Cons.prems touches_quiet [OF s(3)] by auto
  have "touches (log_paths dir (map ?b (a # as))) w w'"
    using touches_mono [OF s(3), of "log_paths dir (map ?b (a # as))"]
      touches_mono [OF IH(2), of "log_paths dir (map ?b (a # as))"]
    by (auto simp: log_paths_simps intro: touches_trans)
  moreover have "fget w' p = fget w1 p" if "p \<in> seg_paths dir (?b a)" for p
    using log_paths_disjoint [OF new(1) that] by (rule touches_fget [OF IH(2)])
  then have "seg_disk x dir (?b a) w' rs" using seg_disk_cong [OF s(2)] by blast
  moreover have "list_all2 (\<lambda>a rs. seg_disk x dir (seg_base l a) w' rs) as rss'"
    by (rule list.rel_mono_strong [OF IH(3)]) (simp add: keep seg_base_def)
  ultimately show ?case using s(1) IH rss(1) by simp
qed

text \<open>
  The directory of a closed log. \<open>has_room c rs\<close> says that a segment with the records \<open>rs\<close> is not
  maxed under the configuration \<open>c\<close>.
\<close>

definition has_room :: "ext \<Rightarrow> Config \<Rightarrow> api_Record list \<Rightarrow> bool" where
  "has_room x c rs \<longleftrightarrow> (\<exists>ps. encodes x rs ps \<and> length (frames ps) < unat (MaxStoreBytes c) \<and>
     12 * length rs + 12 \<le> unat (MaxIndexBytes c))"

definition log_disk :: "ext \<Rightarrow> string \<Rightarrow> Config \<Rightarrow> u64 list \<Rightarrow> world \<Rightarrow> api_Record list list \<Rightarrow> bool" where
  "log_disk x dir c bs w rss \<longleftrightarrow> quiet w \<and> config_ok c \<and> bs \<noteq> [] \<and>
     (\<exists>ns. names w dir = Some ns \<and> distinct ns \<and> set ns = seg_files bs) \<and>
     list_all2 (\<lambda>b rs. seg_disk x dir b w rs) bs rss \<and>
     (\<forall>i. Suc i < length bs \<longrightarrow> unat (bs ! Suc i) = unat (bs ! i) + length (rss ! i) \<and> rss ! i \<noteq> []) \<and>
     (\<forall>rs \<in> set rss. 12 * length rs \<le> unat (MaxIndexBytes c)) \<and> has_room x c (last rss)"

lemma has_room_iff:
  assumes "encodes x rs ps"
  shows "has_room x c rs \<longleftrightarrow> length (frames ps) < unat (MaxStoreBytes c) \<and>
    12 * length rs + 12 \<le> unat (MaxIndexBytes c)"
proof
  assume "has_room x c rs"
  then obtain qs where qs: "encodes x rs qs" "length (frames qs) < unat (MaxStoreBytes c)"
    "12 * length rs + 12 \<le> unat (MaxIndexBytes c)" unfolding has_room_def by (elim exE conjE)
  have "qs = ps" using qs(1) assms by (rule encodes_unique)
  with qs(2,3) show "length (frames ps) < unat (MaxStoreBytes c) \<and> 12 * length rs + 12 \<le> unat (MaxIndexBytes c)"
    by simp
qed (use assms in \<open>auto simp: has_room_def\<close>)

lemma has_room_rep: "seg_rep x dir s w rs \<Longrightarrow> has_room x (sg_config s) rs \<longleftrightarrow> \<not> segment_IsMaxed s"
proof -
  assume rep: "seg_rep x dir s w rs"
  then obtain ps where ps: "encodes x rs ps" by (rule seg_repE)
  show ?thesis unfolding segment_IsMaxed_rep [OF rep ps] has_room_iff [OF ps] by linarith
qed

lemma seg_rep_index_fits: "seg_rep x dir s w rs \<Longrightarrow> 12 * length rs \<le> unat (MaxIndexBytes (sg_config s))"
  by (erule seg_repE) (simp add: index_rep_def)

lemma list_all2_segs: "list_all2 (\<lambda>a. P (seg_of l a)) (lg_segments l) rss \<longleftrightarrow> list_all2 P (segs l) rss"
  by (simp add: segs_def list.rel_map)

lemma log_disk_of:
  assumes rep: "log_rep x l w rss" and t: "touches P w w'"
    and d: "list_all2 (\<lambda>a rs. seg_disk x (lg_Dir l) (seg_base l a) w' rs) (lg_segments l) rss"
  shows "log_disk x (lg_Dir l) (lg_Config l) (bases l) w' rss"
proof -
  note inv = log_repD(1) [OF rep]
  note D = log_invD [OF inv]
  have "list_all2 (\<lambda>b rs. seg_disk x (lg_Dir l) b w' rs) (bases l) rss"
    using d by (simp add: bases_seg_base list.rel_map)
  moreover have "unat (bases l ! Suc i) = unat (bases l ! i) + length (rss ! i)" "rss ! i \<noteq> []"
    if i: "Suc i < length (bases l)" for i
    using chained_nth [OF D(5), of i] seg_rep_next [OF D(10), of i] D(12) [of i] i
    by (simp_all add: bases_def)
  moreover have "12 * length rs \<le> unat (MaxIndexBytes (lg_Config l))" if m: "rs \<in> set rss" for rs
  proof -
    obtain i where i: "i < length (segs l)" "rs = rss ! i" using m D(6) by (auto simp: in_set_conv_nth)
    show ?thesis using seg_rep_index_fits [OF D(10) [OF i(1)]] D(11) [OF i(1)] i(2) by simp
  qed
  moreover have "has_room x (lg_Config l) (last rss)"
  proof -
    let ?k = "length (segs l) - 1"
    have k: "?k < length (segs l)" "last (segs l) = segs l ! ?k" using D(7) by (simp_all add: last_conv_nth)
    have "last rss = rss ! ?k" using D(6,7) by (metis last_conv_nth length_0_conv)
    then show ?thesis
      using has_room_rep [OF D(10) [OF k(1)]] D(11) [OF k(1)] log_repD(2) [OF rep] k(2) by simp
  qed
  moreover have "bases l \<noteq> []" using D(7) by (simp add: bases_def)
  ultimately show ?thesis
    using D(2,4) touches_quiet [OF t] touches_names [OF t] by (simp add: log_disk_def dir_ok_def)
qed

lemma Log_Close_rep:
  assumes rep: "log_rep x l w rss" and x: "mmap_ok x"
  shows "\<exists>l' w'. Log_Close x l w = (None, l', w') \<and> log_disk x (lg_Dir l) (lg_Config l) (bases l) w' rss \<and>
    lg_Dir l' = lg_Dir l \<and> lg_Config l' = lg_Config l \<and> lg_segments l' = lg_segments l"
proof -
  note inv = log_repD(1) [OF rep]
  note D = log_invD [OF inv]
  have "list_all2 (\<lambda>a rs. seg_rep x (lg_Dir l) (seg_of l a) w rs) (lg_segments l) rss"
    using D(6,10) unfolding list_all2_segs [of "\<lambda>s. seg_rep x (lg_Dir l) s w"] by (simp add: list_all2_conv_all_nth)
  then obtain l' w' where c: "close_segments x (lg_segments l) l w = (None, l', w')"
    "touches (log_paths (lg_Dir l) (bases l)) w w'"
    "list_all2 (\<lambda>a rs. seg_disk x (lg_Dir l) (seg_base l a) w' rs) (lg_segments l) rss"
    "lg_Dir l' = lg_Dir l" "lg_segments l' = lg_segments l" "lg_Config l' = lg_Config l"
    using close_segments_rep [of x "lg_Dir l" l w "lg_segments l" rss] bases_distinct [OF inv] D(1,3) x
    by (auto simp: bases_seg_base ptrs_ok_def)
  then show ?thesis using log_disk_of [OF rep c(2,3)] by (simp add: Log_Close_def)
qed

section \<open>Reopening\<close>

lemma base_of_name_file [simp]: "base_of_name (store_file b) = b" "base_of_name (index_file b) = b"
  using path_Ext_dot [of "''store''" "dec (unat b)"] path_Ext_dot [of "''index''" "dec (unat b)"]
  by (simp_all add: base_of_name_def store_file_def index_file_def)

lemma sort_bases:
  assumes ns: "distinct ns" "set ns = seg_files bs" and bs: "sorted bs" "distinct bs"
  shows "sort (map base_of_name (sort ns)) = concat (map (\<lambda>b. [b, b]) bs)"
proof (rule properties_for_sort)
  have "mset ns = mset (map store_file bs @ map index_file bs)"
    using ns bs(2) by (intro set_eq_iff_mset_eq_distinct [THEN iffD1])
      (auto simp: seg_files_def distinct_map inj_on_def store_file_def index_file_def)
  then have "mset (map base_of_name (sort ns)) = image_mset base_of_name (mset (map store_file bs @ map index_file bs))"
    by simp
  also have "\<dots> = mset (concat (map (\<lambda>b. [b, b]) bs))"
    by (induction bs) (simp_all add: multiset.map_comp comp_def)
  finally show "mset (concat (map (\<lambda>b. [b, b]) bs)) = mset (map base_of_name (sort ns))" by simp
  show "sorted (concat (map (\<lambda>b. [b, b]) bs))"
    using bs(1) by (induction bs) auto
qed

lemma setup_loop_rep:
  assumes "list_all2 (\<lambda>b rs. seg_disk x (lg_Dir l) b w rs) bs rss" "distinct bs" "quiet w"
    and "config_ok (lg_Config l)" "\<forall>rs \<in> set rss. 12 * length rs \<le> unat (MaxIndexBytes (lg_Config l))"
    and "mmap_ok x"
  shows "\<exists>ss w'. setup_loop x (concat (map (\<lambda>b. [b, b]) bs)) l w =
      (None, l\<lparr>lg_heap := lg_heap l @ ss,
               lg_segments := lg_segments l @ [length (lg_heap l)..<length (lg_heap l) + length ss],
               lg_active := (if ss = [] then lg_active l else Some (length (lg_heap l) + length ss - 1))\<rparr>, w') \<and>
    list_all2 (\<lambda>s rs. seg_rep x (lg_Dir l) s w' rs \<and> sg_config s = lg_Config l) ss rss \<and>
    map sg_baseOffset ss = bs \<and> touches (log_paths (lg_Dir l) bs) w w'"
  using assms
proof (induction bs arbitrary: l w rss)
  case Nil
  then show ?case by (auto intro!: exI [of _ w] touches_refl)
next
  case (Cons b bs)
  then obtain rs rss' where rss: "rss = rs # rss'" "seg_disk x (lg_Dir l) b w rs"
    "list_all2 (\<lambda>b rs. seg_disk x (lg_Dir l) b w rs) bs rss'" by (auto simp: list_all2_Cons1)
  have len: "12 * length rs \<le> unat (MaxIndexBytes (lg_Config l))" and b: "b \<notin> set bs"
    using Cons.prems rss(1) by auto
  obtain s w1 where s: "newSegment x (lg_Dir l) b (lg_Config l) w = (Inr s, w1)"
    "seg_rep x (lg_Dir l) s w1 rs" "sg_baseOffset s = b" "sg_config s = lg_Config l"
    "touches (seg_paths (lg_Dir l) b) w w1"
    using newSegment_disk [OF rss(2) \<open>config_ok (lg_Config l)\<close> len \<open>mmap_ok x\<close> \<open>quiet w\<close>] by blast
  let ?l = "l\<lparr>lg_heap := lg_heap l @ [s], lg_segments := lg_segments l @ [length (lg_heap l)],
    lg_active := Some (length (lg_heap l))\<rparr>"
  have "list_all2 (\<lambda>b rs. seg_disk x (lg_Dir ?l) b w1 rs) bs rss'"
  proof (rule list.rel_mono_strong [OF rss(3)])
    fix c rs' assume c: "c \<in> set bs" "rs' \<in> set rss'" and d: "seg_disk x (lg_Dir l) c w rs'"
    have "c \<noteq> b" using b c(1) by blast
    then have "fget w1 p = fget w p" if "p \<in> seg_paths (lg_Dir l) c" for p
      using that seg_paths_disjoint by (intro touches_fget [OF s(5)]) blast
    then show "seg_disk x (lg_Dir ?l) c w1 rs'" using seg_disk_cong [OF d] by simp
  qed
  then obtain ss w' where IH: "setup_loop x (concat (map (\<lambda>b. [b, b]) bs)) ?l w1 =
      (None, ?l\<lparr>lg_heap := lg_heap ?l @ ss,
               lg_segments := lg_segments ?l @ [length (lg_heap ?l)..<length (lg_heap ?l) + length ss],
               lg_active := (if ss = [] then lg_active ?l else Some (length (lg_heap ?l) + length ss - 1))\<rparr>, w')"
    "list_all2 (\<lambda>s rs. seg_rep x (lg_Dir l) s w' rs \<and> sg_config s = lg_Config l) ss rss'"
    "map sg_baseOffset ss = bs" "touches (log_paths (lg_Dir l) bs) w1 w'"
    using Cons.IH [of ?l w1 rss'] Cons.prems rss(1) touches_quiet [OF s(5)] by auto
  have "fget w' p = fget w1 p" if "p \<in> seg_paths (lg_Dir l) b" for p
    using log_paths_disjoint [OF b that] by (rule touches_fget [OF IH(4)])
  then have "seg_rep x (lg_Dir l) s w' rs"
    using seg_rep_cong [OF s(2) touches_quiet [OF IH(4)]] s(3) by simp
  moreover have "touches (log_paths (lg_Dir l) (b # bs)) w w'"
    using touches_mono [OF s(5), of "log_paths (lg_Dir l) (b # bs)"]
      touches_mono [OF IH(4), of "log_paths (lg_Dir l) (b # bs)"]
    by (auto simp: log_paths_simps intro: touches_trans)
  moreover have "setup_loop x (concat (map (\<lambda>b. [b, b]) (b # bs))) l w =
      (None, l\<lparr>lg_heap := lg_heap l @ s # ss,
               lg_segments := lg_segments l @ [length (lg_heap l)..<length (lg_heap l) + length (s # ss)],
               lg_active := Some (length (lg_heap l) + length ss)\<rparr>, w')"
    using s(1) IH(1) upt_conv_Cons [of n "n + length (s # ss)" for n]
    by (cases ss) (simp_all add: Log_newSegment_def del: upt_Suc)
  ultimately show ?case
    using rss(1) s(3,4) IH(2,3) by (intro exI [of _ "s # ss"] exI [of _ w']) simp
qed

lemma log_disk_bases:
  assumes "log_disk x dir c bs w rss" "i < j" "j < length bs"
  shows "bs ! i < bs ! j"
  using assms(2,3)
proof (induction j)
  case (Suc j)
  have "unat (bs ! Suc j) = unat (bs ! j) + length (rss ! j)" "rss ! j \<noteq> []"
    using assms(1) Suc.prems by (auto simp: log_disk_def)
  then have "bs ! j < bs ! Suc j" by (simp add: u64_less_iff)
  with Suc show ?case by (cases "i = j") (auto intro: less_trans)
qed simp

lemma log_disk_sorted: "log_disk x dir c bs w rss \<Longrightarrow> sorted bs \<and> distinct bs"
  using log_disk_bases by (metis distinct_conv_nth linorder_neqE_nat order_less_imp_le order_less_irrefl sorted_wrt_iff_nth_less)

lemma log_rep_opened:
  assumes d: "log_disk x dir c bs w rss" and t: "touches P w w'"
    and l: "lg_Dir l = dir" "lg_Config l = c" "lg_heap l = ss" "lg_segments l = [0..<length ss]"
      "lg_active l = Some (length ss - 1)"
    and ss: "list_all2 (\<lambda>s rs. seg_rep x dir s w' rs \<and> sg_config s = c) ss rss" "map sg_baseOffset ss = bs"
  shows "log_rep x l w' rss" and "log_low l = unat (hd bs)" and "bases l = bs"
proof -
  have segs: "segs l = ss"
    using l by (auto simp: segs_def seg_of_def intro: nth_equalityI)
  have len: "length rss = length ss" "ss \<noteq> []" "rss \<noteq> []" using d ss list_all2_lengthD [OF ss(1)] by (auto simp: log_disk_def)
  have nth: "seg_rep x dir (ss ! i) w' (rss ! i)" "sg_config (ss ! i) = c" "bs ! i = sg_baseOffset (ss ! i)"
    if "i < length ss" for i using list_all2_nthD [OF ss(1) that] that ss(2) by auto
  show low: "log_low l = unat (hd bs)" and bases: "bases l = bs"
    using len(2) ss(2) by (auto simp: log_low_def bases_def segs hd_map)
  have step: "unat (bs ! Suc i) = unat (bs ! i) + length (rss ! i)" "rss ! i \<noteq> []" if "Suc i < length ss" for i
    using d that arg_cong [OF ss(2), of length] by (auto simp: log_disk_def)
  have "chained ss"
  proof (rule chainedI)
    fix i assume i: "Suc i < length ss"
    then show "sg_nextOffset (ss ! i) = sg_baseOffset (ss ! Suc i)"
      using step(1) [OF i] nth [of i] nth(3) [of "Suc i"] seg_rep_next [OF nth(1), of i] by (simp add: u64_eq_iff)
  qed
  moreover have "rs \<noteq> []" if m: "rs \<in> set (butlast rss)" for rs
  proof -
    obtain i where "i < length (butlast rss)" "butlast rss ! i = rs" using m by (meson in_set_conv_nth)
    then show ?thesis using step(2) [of i] len(1) by (auto simp: nth_butlast)
  qed
  moreover have "ptrs_ok l" using l len(2) by (simp add: ptrs_ok_def last_upt)
  moreover have "dir_ok l w'" using d bases l(1) touches_names [OF t] by (simp add: dir_ok_def log_disk_def)
  moreover have "\<not> segment_IsMaxed (last ss)"
    using has_room_rep [OF nth(1), of "length ss - 1"] nth(2) [of "length ss - 1"] len d
    by (simp add: last_conv_nth log_disk_def)
  ultimately show "log_rep x l w' rss"
    using d l(1,2) ss(1) touches_quiet [OF t] by (auto simp: log_rep_def log_inv_def segs log_disk_def)
qed

lemma NewLog_disk:
  assumes d: "log_disk x dir (config_defaults c) bs w rss" and x: "mmap_ok x"
  shows "\<exists>l w'. NewLog x dir c w = (None, l, w') \<and> log_rep x l w' rss \<and> log_low l = unat (hd bs) \<and>
    lg_Dir l = dir \<and> lg_Config l = config_defaults c"
proof -
  let ?l = "\<lparr>lg_Dir = dir, lg_Config = config_defaults c, lg_active = None, lg_segments = [], lg_heap = []\<rparr>"
  obtain ns where ns: "names w dir = Some ns" "distinct ns" "set ns = seg_files bs"
    using d by (auto simp: log_disk_def)
  obtain ss w' where s: "setup_loop x (concat (map (\<lambda>b. [b, b]) bs)) ?l w =
      (None, ?l\<lparr>lg_heap := ss, lg_segments := [0..<length ss],
                lg_active := (if ss = [] then None else Some (length ss - 1))\<rparr>, w')"
    "list_all2 (\<lambda>s rs. seg_rep x dir s w' rs \<and> sg_config s = config_defaults c) ss rss"
    "map sg_baseOffset ss = bs" "touches (log_paths dir bs) w w'"
    using setup_loop_rep [of x ?l w bs rss] d x log_disk_sorted [OF d]
    by (auto simp: log_disk_def cong: if_cong)
  define l where "l = ?l\<lparr>lg_heap := ss, lg_segments := [0..<length ss],
    lg_active := (if ss = [] then None else Some (length ss - 1))\<rparr>"
  have ne: "ss \<noteq> []" using d s(3) by (auto simp: log_disk_def)
  have "log_rep x l w' rss" "log_low l = unat (hd bs)"
    using ne by (auto intro!: log_rep_opened [OF d s(4) _ _ _ _ _ s(2,3)] simp: l_def)
  moreover have "NewLog x dir c w = (None, l, w')"
    using s(1) ns d ne sort_bases [OF ns(2,3)] log_disk_sorted [OF d]
    by (simp add: NewLog_def Log_setup_def os_ReadDir_quiet log_disk_def l_def)
  ultimately show ?thesis by (auto simp: l_def)
qed

lemma config_defaults_id: "config_ok c \<Longrightarrow> config_defaults c = c"
  by (auto simp: config_defaults_def config_ok_def Let_def)

lemma Log_close_reopen:
  assumes rep: "log_rep x l w rss" and x: "mmap_ok x"
  shows "\<exists>l1 w1 l2 w2. Log_Close x l w = (None, l1, w1) \<and> NewLog x (lg_Dir l) (lg_Config l) w1 = (None, l2, w2) \<and>
    log_rep x l2 w2 rss \<and> log_low l2 = log_low l"
proof -
  note D = log_invD [OF log_repD(1) [OF rep]]
  obtain l1 w1 where c: "Log_Close x l w = (None, l1, w1)"
    "log_disk x (lg_Dir l) (lg_Config l) (bases l) w1 rss"
    using Log_Close_rep [OF assms] by blast
  have "unat (hd (bases l)) = log_low l" using D(7) by (simp add: bases_def log_low_def hd_map)
  with c NewLog_disk [of x "lg_Dir l" "lg_Config l" "bases l" w1 rss] x config_defaults_id [OF D(2)]
  show ?thesis by auto
qed

section \<open>The range of offsets\<close>

lemma LowestOffset_rep: "log_inv x l w rss \<Longrightarrow> LowestOffset l = Inr (of_nat (log_low l))"
  by (auto simp: log_inv_def ptrs_ok_def LowestOffset_def log_low_def segs_def split: list.splits)

lemma HighestOffset_rep:
  assumes "log_inv x l w rss"
  shows "HighestOffset l = Inr (of_nat (log_low l + length (concat rss) - 1))"
proof -
  have n: "unat (sg_nextOffset (last (segs l))) = log_low l + length (concat rss)"
    using assms by (rule chain_last_next)
  have ne: "lg_segments l \<noteq> []" using assms by (simp add: log_inv_def ptrs_ok_def)
  then have s: "seg_of l (last (lg_segments l)) = last (segs l)" by (simp add: segs_def last_map)
  show ?thesis
  proof (cases "sg_nextOffset (last (segs l)) = 0")
    case True
    then have "log_low l + length (concat rss) = 0" using n by (metis unat_0)
    then have "log_low l + length (concat rss) - 1 = 0" by (simp only: diff_0_eq_0)
    then show ?thesis unfolding HighestOffset_def highestOffset_def s using True ne by (simp only: Let_def) simp
  next
    case False
    then have "unat (sg_nextOffset (last (segs l)) - 1) = log_low l + length (concat rss) - 1"
      using n by (simp add: unat_minus_one)
    then have "sg_nextOffset (last (segs l)) - 1 = of_nat (log_low l + length (concat rss) - 1)"
      by (metis u64_bound u64_of_nat_eq)
    with False ne s show ?thesis by (simp add: HighestOffset_def highestOffset_def)
  qed
qed

section \<open>Truncation\<close>

definition doomed :: "u64 \<Rightarrow> Log \<Rightarrow> nat \<Rightarrow> bool" where
  "doomed lowest l a \<longleftrightarrow> sg_nextOffset (seg_of l a) \<le> lowest + 1"

lemma seg_files_Cons: "seg_files (b # bs) = seg_files bs \<union> {store_file b, index_file b}"
  by (auto simp: seg_files_def)

lemma others_after_remove:
  assumes "list_all2 (\<lambda>a rs. seg_rep x dir (seg_of l a) w rs) as rss" "seg_base l a \<notin> set (map (seg_base l) as)" "quiet w1"
    "a < length (lg_heap l)"
    and f: "\<And>p. fget w1 p = (if p \<in> seg_paths dir (seg_base l a) then None else fget w p)"
  shows "list_all2 (\<lambda>b rs. seg_rep x dir (seg_of (put_seg a s l) b) w1 rs) as rss"
proof (rule list.rel_mono_strong [OF assms(1)])
  fix b rs assume b: "b \<in> set as" "rs \<in> set rss" and rep: "seg_rep x dir (seg_of l b) w rs"
  have ne: "seg_base l b \<noteq> seg_base l a" using assms(2) b(1) by (metis imageI set_map)
  then have "fget w1 p = fget w p" if "p \<in> seg_paths dir (seg_base l b)" for p
    using that seg_paths_disjoint f by (metis disjoint_iff)
  then show "seg_rep x dir (seg_of (put_seg a s l) b) w1 rs"
    using seg_rep_cong [OF rep assms(3)] ne assms(4) by (cases "b = a") (auto simp: seg_base_def seg_of_put_seg)
qed

lemma segments_put_other:
  assumes "a \<notin> set as" "a < length (lg_heap l)"
  shows "map (seg_base (put_seg a s l)) as = map (seg_base l) as"
    and "filter (doomed lowest (put_seg a s l)) as = filter (doomed lowest l) as"
    and "filter (\<lambda>b. \<not> doomed lowest (put_seg a s l) b) as = filter (\<lambda>b. \<not> doomed lowest l b) as"
    and "map (seg_base (put_seg a s l)) (filter P as) = map (seg_base l) (filter P as)"
proof -
  have "seg_of (put_seg a s l) b = seg_of l b" if "b \<in> set as" for b
    using assms that by (auto simp: seg_of_put_seg)
  then show "map (seg_base (put_seg a s l)) as = map (seg_base l) as"
    "filter (doomed lowest (put_seg a s l)) as = filter (doomed lowest l) as"
    "filter (\<lambda>b. \<not> doomed lowest (put_seg a s l) b) as = filter (\<lambda>b. \<not> doomed lowest l b) as"
    "map (seg_base (put_seg a s l)) (filter P as) = map (seg_base l) (filter P as)"
    by (auto simp: seg_base_def doomed_def intro!: filter_cong)
qed

lemma truncate_loop_rep:
  assumes "list_all2 (\<lambda>a rs. seg_rep x dir (seg_of l a) w rs) as rss"
    and "distinct (map (seg_base l) as)" "\<forall>a \<in> set as. a < length (lg_heap l)"
    and "mmap_ok x" "quiet w"
  shows "\<exists>l' w'. truncate_loop x lowest as kept l w = (Inr (kept @ filter (\<lambda>a. \<not> doomed lowest l a) as), l', w') \<and>
    quiet w' \<and>
    (\<forall>p. fget w' p =
       (if p \<in> log_paths dir (map (seg_base l) (filter (doomed lowest l) as)) then None else fget w p)) \<and>
    names w' dir =
      map_option (filter (\<lambda>n. n \<notin> seg_files (map (seg_base l) (filter (doomed lowest l) as)))) (names w dir) \<and>
    lg_Dir l' = lg_Dir l \<and> lg_segments l' = lg_segments l \<and> lg_Config l' = lg_Config l \<and>
    lg_active l' = lg_active l \<and> length (lg_heap l') = length (lg_heap l) \<and>
    (\<forall>a. a \<notin> set (filter (doomed lowest l) as) \<longrightarrow> seg_of l' a = seg_of l a)"
  using assms
proof (induction as arbitrary: kept l w rss)
  case Nil
  then show ?case by (simp add: log_paths_simps seg_files_def option.map_id0 [unfolded id_def])
next
  case (Cons a as)
  then obtain rs rss' where rss: "rss = rs # rss'" "seg_rep x dir (seg_of l a) w rs"
    "list_all2 (\<lambda>a rs. seg_rep x dir (seg_of l a) w rs) as rss'" by (auto simp: list_all2_Cons1)
  have new: "seg_base l a \<notin> set (map (seg_base l) as)" "a < length (lg_heap l)" using Cons.prems by auto
  show ?case
  proof (cases "doomed lowest l a")
    case False
    then show ?thesis
      using Cons.IH [OF rss(3), of "kept @ [a]"] Cons.prems by (simp add: doomed_def)
  next
    case True
    obtain s w1 where s: "segment_Remove x (seg_of l a) w = (None, s, w1)" "quiet w1"
      "\<And>p. fget w1 p = (if p \<in> seg_paths dir (seg_base l a) then None else fget w p)"
      "names w1 dir = map_option (filter (\<lambda>n. n \<noteq> store_file (seg_base l a) \<and> n \<noteq> index_file (seg_base l a)))
         (names w dir)"
      using segment_Remove_rep [OF rss(2) \<open>mmap_ok x\<close>] by (auto simp: seg_base_def)
    let ?l = "put_seg a s l"
    have "list_all2 (\<lambda>a rs. seg_rep x dir (seg_of ?l a) w1 rs) as rss'"
      using others_after_remove [OF rss(3) new(1) s(2) new(2) s(3)] .
    moreover have "a \<notin> set as" using new(1) by auto
    note eq = segments_put_other [where s = s, OF this new(2)]
    ultimately obtain l' w' where IH:
      "truncate_loop x lowest as kept ?l w1 = (Inr (kept @ filter (\<lambda>a. \<not> doomed lowest l a) as), l', w')" "quiet w'"
      "\<And>p. fget w' p =
         (if p \<in> log_paths dir (map (seg_base l) (filter (doomed lowest l) as)) then None else fget w1 p)"
      "names w' dir =
        map_option (filter (\<lambda>n. n \<notin> seg_files (map (seg_base l) (filter (doomed lowest l) as)))) (names w1 dir)"
      "lg_Dir l' = lg_Dir l" "lg_segments l' = lg_segments l" "lg_Config l' = lg_Config l"
      "lg_active l' = lg_active l" "length (lg_heap l') = length (lg_heap l)"
      "\<forall>a. a \<notin> set (filter (doomed lowest l) as) \<longrightarrow> seg_of l' a = seg_of ?l a"
      using Cons.IH [of ?l w1 rss' kept, unfolded eq] Cons.prems s(2) by auto
    have run: "truncate_loop x lowest (a # as) kept l w =
        (Inr (kept @ filter (\<lambda>a. \<not> doomed lowest l a) (a # as)), l', w')"
      using True s(1) IH(1) by (simp add: doomed_def)
    have "names w' dir =
        map_option (filter (\<lambda>n. n \<notin> seg_files (map (seg_base l) (filter (doomed lowest l) (a # as))))) (names w dir)"
      using True IH(4) s(4)
      by (simp add: seg_files_Cons option.map_comp comp_def conj_ac)
    moreover have "\<forall>b. b \<notin> set (filter (doomed lowest l) (a # as)) \<longrightarrow> seg_of l' b = seg_of l b"
      using IH(10) True new(2) by (auto simp: seg_of_put_seg)
    ultimately show ?thesis
      using run IH s(3) True by (simp add: log_paths_simps)
  qed
qed

lemma filter_prefix_closed:
  assumes "\<And>i j. i \<le> j \<Longrightarrow> j < length xs \<Longrightarrow> P (xs ! j) \<Longrightarrow> P (xs ! i)"
  shows "filter P xs = takeWhile P xs \<and> filter (\<lambda>y. \<not> P y) xs = dropWhile P xs"
  using assms
proof (induction xs)
  case (Cons y xs)
  have IH: "filter P xs = takeWhile P xs \<and> filter (\<lambda>y. \<not> P y) xs = dropWhile P xs"
  proof (rule Cons.IH)
    fix i j assume "i \<le> j" "j < length xs" "P (xs ! j)"
    then show "P (xs ! i)" using Cons.prems [of "Suc i" "Suc j"] by simp
  qed
  have "\<not> P z" if n: "\<not> P y" and z: "z \<in> set xs" for z
  proof -
    obtain j where "j < length xs" "xs ! j = z" using z by (meson in_set_conv_nth)
    then show ?thesis using Cons.prems [of 0 "Suc j"] n by auto
  qed
  then show ?case using IH by (auto simp: filter_empty_conv filter_id_conv)
qed simp

text \<open>The number of segments that lie wholly at or below an offset; they are the oldest ones.\<close>

definition ndoomed :: "u64 \<Rightarrow> Log \<Rightarrow> nat" where
  "ndoomed lowest l = length (takeWhile (doomed lowest l) (lg_segments l))"

lemma length_concat_take_mono: "i \<le> j \<Longrightarrow> length (concat (take i xss)) \<le> length (concat (take j xss))"
  by (metis concat_append le_add1 length_append take_add le_add_diff_inverse)

lemma doomed_iff:
  assumes inv: "log_inv x l w rss" and i: "i < length (segs l)" and lo: "unat lowest + 1 < 2 ^ 64"
  shows "doomed lowest l (lg_segments l ! i) \<longleftrightarrow> log_low l + length (concat (take (Suc i) rss)) \<le> unat lowest + 1"
proof -
  have "seg_of l (lg_segments l ! i) = segs l ! i" using i by (simp add: segs_def)
  then show ?thesis
    using chain_next [OF inv i] lo by (simp add: doomed_def u64_le_iff unat_u64_Suc del: length_concat)
qed

lemma doomed_prefix:
  assumes inv: "log_inv x l w rss" and lo: "unat lowest + 1 < 2 ^ 64"
  shows "filter (doomed lowest l) (lg_segments l) = take (ndoomed lowest l) (lg_segments l)"
    and "filter (\<lambda>a. \<not> doomed lowest l a) (lg_segments l) = drop (ndoomed lowest l) (lg_segments l)"
    and "ndoomed lowest l \<le> length (segs l)"
    and "i < ndoomed lowest l \<Longrightarrow> log_low l + length (concat (take (Suc i) rss)) \<le> unat lowest + 1"
    and "ndoomed lowest l < length (segs l) \<Longrightarrow>
      unat lowest + 1 < log_low l + length (concat (take (Suc (ndoomed lowest l)) rss))"
proof -
  have len: "length (lg_segments l) = length (segs l)" by (simp add: segs_def)
  have "filter (doomed lowest l) (lg_segments l) = takeWhile (doomed lowest l) (lg_segments l) \<and>
    filter (\<lambda>a. \<not> doomed lowest l a) (lg_segments l) = dropWhile (doomed lowest l) (lg_segments l)"
  proof (rule filter_prefix_closed)
    fix i j assume ij: "i \<le> j" "j < length (lg_segments l)" "doomed lowest l (lg_segments l ! j)"
    then have "i < length (segs l)" "j < length (segs l)" using len by simp_all
    then show "doomed lowest l (lg_segments l ! i)"
      using doomed_iff [OF inv _ lo, of i] doomed_iff [OF inv _ lo, of j] ij(1,3)
        length_concat_take_mono [of "Suc i" "Suc j" rss] by linarith
  qed
  then show "filter (doomed lowest l) (lg_segments l) = take (ndoomed lowest l) (lg_segments l)"
    and "filter (\<lambda>a. \<not> doomed lowest l a) (lg_segments l) = drop (ndoomed lowest l) (lg_segments l)"
    by (metis ndoomed_def takeWhile_eq_take, metis ndoomed_def dropWhile_eq_drop)
  show le: "ndoomed lowest l \<le> length (segs l)"
    unfolding ndoomed_def len [symmetric] by (rule length_takeWhile_le)
  show "log_low l + length (concat (take (Suc i) rss)) \<le> unat lowest + 1" if "i < ndoomed lowest l"
  proof -
    have "doomed lowest l (lg_segments l ! i)"
      using that nth_mem [of i "takeWhile (doomed lowest l) (lg_segments l)"]
      by (auto simp: ndoomed_def takeWhile_nth dest: set_takeWhileD)
    then show ?thesis using doomed_iff [OF inv _ lo, of i] that le by simp
  qed
  show "unat lowest + 1 < log_low l + length (concat (take (Suc (ndoomed lowest l)) rss))"
    if k: "ndoomed lowest l < length (segs l)"
  proof -
    have "\<not> doomed lowest l (lg_segments l ! ndoomed lowest l)"
      using k nth_length_takeWhile [of "doomed lowest l" "lg_segments l"] len by (simp add: ndoomed_def)
    then show ?thesis using doomed_iff [OF inv k lo] by simp
  qed
qed

lemma Log_Truncate_core:
  assumes rep: "log_rep x l w rss" and x: "mmap_ok x" and lo: "unat lowest + 1 < 2 ^ 64"
    and k: "k = ndoomed lowest l"
  shows "\<exists>l' w'. Log_Truncate x lowest l w = (None, l', w') \<and> quiet w' \<and>
    (\<forall>p. fget w' p = (if p \<in> log_paths (lg_Dir l) (take k (bases l)) then None else fget w p)) \<and>
    names w' (lg_Dir l) = map_option (filter (\<lambda>n. n \<notin> seg_files (take k (bases l)))) (names w (lg_Dir l)) \<and>
    lg_Dir l' = lg_Dir l \<and> lg_Config l' = lg_Config l \<and> lg_active l' = lg_active l \<and>
    lg_segments l' = drop k (lg_segments l) \<and> length (lg_heap l') = length (lg_heap l) \<and>
    segs l' = drop k (segs l)"
proof -
  note inv = log_repD(1) [OF rep]
  note D = log_invD [OF inv]
  note pre = doomed_prefix [OF inv lo, folded k]
  have "list_all2 (\<lambda>a rs. seg_rep x (lg_Dir l) (seg_of l a) w rs) (lg_segments l) rss"
    using D(6,10) unfolding list_all2_segs [of "\<lambda>s. seg_rep x (lg_Dir l) s w"] by (simp add: list_all2_conv_all_nth)
  then obtain l' w' where t: "truncate_loop x lowest (lg_segments l) [] l w = (Inr (drop k (lg_segments l)), l', w')"
    "quiet w'" "\<forall>p. fget w' p = (if p \<in> log_paths (lg_Dir l) (take k (bases l)) then None else fget w p)"
    "names w' (lg_Dir l) = map_option (filter (\<lambda>n. n \<notin> seg_files (take k (bases l)))) (names w (lg_Dir l))"
    "lg_Dir l' = lg_Dir l" "lg_Config l' = lg_Config l" "lg_active l' = lg_active l"
    "length (lg_heap l') = length (lg_heap l)"
    "\<forall>a. a \<notin> set (take k (lg_segments l)) \<longrightarrow> seg_of l' a = seg_of l a"
    using truncate_loop_rep [of x "lg_Dir l" l w "lg_segments l" rss lowest "[]", unfolded pre(1,2)]
      bases_distinct [OF inv] D(1,3) x
    by (auto simp: bases_seg_base ptrs_ok_def take_map)
  have "set (drop k (lg_segments l)) \<inter> set (take k (lg_segments l)) = {}"
    using D(3) by (metis Int_commute append_take_drop_id distinct_append ptrs_ok_def)
  then have "map (seg_of l') (drop k (lg_segments l)) = drop k (segs l)"
    using t(9) by (auto simp: segs_def drop_map)
  then have "segs (l'\<lparr>lg_segments := drop k (lg_segments l)\<rparr>) = drop k (segs l)"
    by (simp add: segs_def seg_of_def [abs_def])
  with t show ?thesis
    by (intro exI [of _ "l'\<lparr>lg_segments := drop k (lg_segments l)\<rparr>"] exI [of _ w']) (simp add: Log_Truncate_def)
qed

lemma seg_files_drop:
  assumes "distinct bs"
  shows "seg_files bs - seg_files (take k bs) = seg_files (drop k bs)"
proof -
  have "seg_files bs = seg_files (take k bs) \<union> seg_files (drop k bs)"
    by (subst append_take_drop_id [of k bs, symmetric]) (auto simp only: seg_files_def set_append image_Un)
  moreover have "set (take k bs) \<inter> set (drop k bs) = {}"
    using assms by (metis append_take_drop_id distinct_append)
  then have "seg_files (take k bs) \<inter> seg_files (drop k bs) = {}"
    by (auto simp: seg_files_def store_file_def index_file_def)
  ultimately show ?thesis by blast
qed

text \<open>The segments that a truncation keeps, and the directory that it leaves.\<close>

lemma truncated_seg:
  assumes inv: "log_inv x l w rss" and q: "quiet w'" and i: "k + i < length (segs l)"
    and f: "\<forall>p. fget w' p = (if p \<in> log_paths (lg_Dir l) (take k (bases l)) then None else fget w p)"
  shows "seg_rep x (lg_Dir l) (segs l ! (k + i)) w' (rss ! (k + i))"
proof (rule seg_rep_cong [OF log_invD(10) [OF inv i] q])
  fix p assume p: "p \<in> seg_paths (lg_Dir l) (sg_baseOffset (segs l ! (k + i)))"
  have "bases l ! (k + i) \<in> set (drop k (bases l))"
    using i log_invD(8) [OF inv] nth_mem [of i "drop k (bases l)"] by (simp add: less_diff_conv2 less_diff_conv add.commute)
  then have "bases l ! (k + i) \<notin> set (take k (bases l))"
    using bases_distinct [OF inv] by (metis append_take_drop_id disjoint_iff distinct_append)
  then have "sg_baseOffset (segs l ! (k + i)) \<notin> set (take k (bases l))" using i by (simp add: bases_def)
  with p show "fget w' p = fget w p" using f log_paths_disjoint by presburger
qed

lemma truncated_dir:
  assumes inv: "log_inv x l w rss" and "lg_Dir l' = lg_Dir l" "segs l' = drop k (segs l)"
    and n: "names w' (lg_Dir l) = map_option (filter (\<lambda>n. n \<notin> seg_files (take k (bases l)))) (names w (lg_Dir l))"
  shows "dir_ok l' w'"
proof -
  obtain ns where ns: "names w (lg_Dir l) = Some ns" "distinct ns" "set ns = seg_files (bases l)"
    using log_invD(4) [OF inv] by (auto simp: dir_ok_def)
  have "bases l' = drop k (bases l)" using assms(3) by (simp add: bases_def drop_map)
  moreover have "set (filter (\<lambda>n. n \<notin> seg_files (take k (bases l))) ns) = seg_files (drop k (bases l))"
    using seg_files_drop [OF bases_distinct [OF inv]] ns(3) by auto
  ultimately show ?thesis using ns n assms(2) by (simp add: dir_ok_def)
qed

lemma Log_Truncate_rep:
  assumes rep: "log_rep x l w rss" and x: "mmap_ok x"
    and lo: "unat lowest + 1 < log_low l + length (concat rss)"
  shows "\<exists>l' w'. Log_Truncate x lowest l w = (None, l', w') \<and> log_rep x l' w' (drop (ndoomed lowest l) rss) \<and>
    log_low l' = log_low l + length (concat (take (ndoomed lowest l) rss)) \<and>
    ndoomed lowest l < length rss"
proof -
  note inv = log_repD(1) [OF rep]
  note D = log_invD [OF inv]
  define k where "k = ndoomed lowest l"
  let ?n = "length (segs l)"
  have "log_low l + length (concat rss) < 2 ^ 64" using chain_last_next [OF inv] u64_bound by metis
  with lo have lo': "unat lowest + 1 < 2 ^ 64" by linarith
  note pre = doomed_prefix [OF inv lo', folded k_def]
  obtain l' w' where t: "Log_Truncate x lowest l w = (None, l', w')" "quiet w'"
    "\<forall>p. fget w' p = (if p \<in> log_paths (lg_Dir l) (take k (bases l)) then None else fget w p)"
    "names w' (lg_Dir l) = map_option (filter (\<lambda>n. n \<notin> seg_files (take k (bases l)))) (names w (lg_Dir l))"
    "lg_Dir l' = lg_Dir l" "lg_Config l' = lg_Config l" "lg_active l' = lg_active l"
    "lg_segments l' = drop k (lg_segments l)" "length (lg_heap l') = length (lg_heap l)"
    "segs l' = drop k (segs l)"
    using Log_Truncate_core [OF rep x lo' k_def] by blast
  have k: "k < ?n"
  proof (rule ccontr)
    assume "\<not> k < ?n"
    then have n: "?n - 1 < k" "take (Suc (?n - 1)) rss = rss" using D(6,7) by (cases "segs l"; simp)+
    show False using pre(4) [OF n(1)] lo unfolding n(2) by linarith
  qed
  have "list_all2 (\<lambda>s rs. seg_rep x (lg_Dir l') s w' rs \<and> sg_config s = lg_Config l') (segs l') (drop k rss)"
    unfolding t(10) list_all2_conv_all_nth using truncated_seg [OF inv t(2) _ t(3)] D(6,11) k t(5,6) by simp
  moreover have "chained (segs l')"
    unfolding t(10) using chained_nth [OF D(5)] by (intro chainedI) simp
  moreover have "ptrs_ok l'"
    using D(3,9) k t(7-9) by (auto simp: ptrs_ok_def dest: in_set_dropD)
  moreover have "dir_ok l' w'" using truncated_dir [OF inv t(5,10,4)] .
  moreover have "\<forall>rs \<in> set (butlast (drop k rss)). rs \<noteq> []"
    using inv by (auto simp: log_inv_def butlast_drop dest: in_set_dropD)
  moreover have "last (segs l') = last (segs l)" using k by (simp add: t(10))
  ultimately have "log_rep x l' w' (drop k rss)"
    using D(2) log_repD(2) [OF rep] t(2,6) by (simp add: log_rep_def log_inv_def)
  moreover have "log_low l' = log_low l + length (concat (take k rss))"
    using chain_base [OF inv k] k by (simp add: log_low_def t(10) hd_drop_conv_nth del: length_concat)
  ultimately show ?thesis using t(1) k D(6) by (auto simp: k_def)
qed

text \<open>Truncating at or above the highest offset removes every segment, the active one included.\<close>

lemma Log_Truncate_all:
  assumes rep: "log_rep x l w rss" and x: "mmap_ok x"
    and lo: "log_low l + length (concat rss) \<le> unat lowest + 1" "unat lowest + 1 < 2 ^ 64"
  shows "\<exists>l' w'. Log_Truncate x lowest l w = (None, l', w') \<and> lg_segments l' = [] \<and>
    names w' (lg_Dir l) = Some [] \<and> lg_active l' = lg_active l"
proof -
  note inv = log_repD(1) [OF rep]
  note D = log_invD [OF inv]
  define k where "k = ndoomed lowest l"
  note pre = doomed_prefix [OF inv lo(2), folded k_def]
  have k: "k = length (segs l)"
  proof (rule ccontr)
    assume "k \<noteq> length (segs l)"
    with pre(3,5) have "unat lowest + 1 < log_low l + length (concat (take (Suc k) rss))" by simp
    also have "\<dots> \<le> log_low l + length (concat rss)"
      using length_concat_take_mono [of "Suc k" "max (Suc k) (length rss)" rss] by simp
    finally show False using lo(1) by simp
  qed
  obtain l' w' where t: "Log_Truncate x lowest l w = (None, l', w')"
    "names w' (lg_Dir l) = map_option (filter (\<lambda>n. n \<notin> seg_files (take k (bases l)))) (names w (lg_Dir l))"
    "lg_active l' = lg_active l" "lg_segments l' = drop k (lg_segments l)"
    using Log_Truncate_core [OF rep x lo(2) k_def] by blast
  then show ?thesis using D(4,8,9) k by (auto simp: dir_ok_def filter_empty_conv)
qed

section \<open>Removal and reset\<close>

lemma Log_Remove_rep:
  assumes "log_rep x l w rss" "mmap_ok x"
  shows "\<exists>l' w'. Log_Remove x l w = (None, l', w') \<and> names w' (lg_Dir l) = None \<and> quiet w' \<and>
    lg_segments l' = lg_segments l"
proof -
  obtain l' w' where "Log_Close x l w = (None, l', w')" "quiet w'" "lg_Dir l' = lg_Dir l" "lg_segments l' = lg_segments l"
    using Log_Close_rep [OF assms] by (auto simp: log_disk_def)
  then show ?thesis by (auto simp: Log_Remove_def os_RemoveAll_def names_def quiet_def)
qed

lemma close_segments_Dir: "close_segments x as l w = (e, l', w') \<Longrightarrow> lg_Dir l' = lg_Dir l"
proof (induction as arbitrary: l w)
  case (Cons a as)
  obtain e1 s w1 where c: "segment_Close x (seg_of l a) w = (e1, s, w1)" by (metis prod_cases3)
  show ?case
  proof (cases e1)
    case None
    then show ?thesis using Cons.IH [of "put_seg a s l" w1] Cons.prems c by simp
  qed (use Cons.prems c in auto)
qed simp

text \<open>
  \<^verbatim>\<open>Reset\<close> removes the directory and sets the log up again in it, but setting up lists the directory
  first and does not create it: from no state and with no sequence of faults does it succeed.
\<close>

lemma Log_Reset_fails: "fst (Log_Reset x l w) \<noteq> None"
proof (cases "Log_Remove x l w")
  case (fields e l' w')
  show ?thesis
  proof (cases e)
    case None
    with fields have "names w' (lg_Dir l') = None"
      by (auto simp: Log_Remove_def os_RemoveAll_def names_def split: prod.splits option.splits)
    then have "fst (Log_setup x l' w') \<noteq> None"
      by (auto simp: Log_setup_def os_ReadDir_def take_fault_def names_def split: list.splits option.splits prod.splits)
    with fields None show ?thesis by (simp add: Log_Reset_def)
  qed (use fields in \<open>simp add: Log_Reset_def\<close>)
qed

lemma Log_Reset_quiet:
  assumes "log_rep x l w rss" "mmap_ok x"
  shows "\<exists>l' w'. Log_Reset x l w = (Some ErrNotExist, l', w') \<and> names w' (lg_Dir l) = None"
proof -
  obtain l' w' where r: "Log_Remove x l w = (None, l', w')" "names w' (lg_Dir l) = None" "quiet w'"
    using Log_Remove_rep [OF assms] by blast
  have "lg_Dir l' = lg_Dir l"
    using r(1) close_segments_Dir
    by (fastforce simp: Log_Remove_def Log_Close_def split: prod.splits option.splits)
  with r show ?thesis by (simp add: Log_Reset_def Log_setup_def os_ReadDir_def)
qed

section \<open>Other directories\<close>

text \<open>Opening a log leaves the other directories alone.\<close>

lemma fs_fput: "d \<noteq> fst p \<Longrightarrow> fs (fput p bs w) d = fs w d"
  by (simp add: fput_def split: option.splits)

lemma fs_take_fault: "take_fault w = (flt, w') \<Longrightarrow> fs w' = fs w"
  by (auto simp: take_fault_def split: list.splits)

definition same_but :: "string \<Rightarrow> world \<Rightarrow> world \<Rightarrow> bool" where
  "same_but dir w w' \<longleftrightarrow> (\<forall>d. d \<noteq> dir \<longrightarrow> fs w' d = fs w d)"

lemma fs_os:
  "os_Stat p w = (r1, w') \<Longrightarrow> fs w' = fs w"
  "os_OpenFile p w = (r2, w') \<Longrightarrow> same_but (fst p) w w' \<and> (\<forall>f. r2 = Inr f \<longrightarrow> fname f = p)"
  "os_Truncate p n w = (r3, w') \<Longrightarrow> same_but (fst p) w w'"
  "os_ReadDir dir w = (r4, w') \<Longrightarrow> fs w' = fs w"
  by (auto simp: os_Stat_def os_OpenFile_def os_Truncate_def os_ReadDir_def same_but_def fs_fput Let_def
      dest: fs_take_fault split: prod.splits option.splits if_splits)

lemma newIndex_fs: "newIndex x f c w = (r, w') \<Longrightarrow> same_but (fst (fname f)) w w'"
  by (auto simp: newIndex_def same_but_def dest!: fs_os mmap_Map_frame split: sum.splits prod.splits option.splits)

lemma newSegment_fs: "newSegment x dir b c w = (r, w') \<Longrightarrow> same_but dir w w'"
  by (auto simp: newSegment_def newStore_def same_but_def dest!: fs_os newIndex_fs split: sum.splits prod.splits if_splits)

lemma Log_newSegment_fs:
  "Log_newSegment x b l w = (e, l', w') \<Longrightarrow> same_but (lg_Dir l) w w' \<and> lg_Dir l' = lg_Dir l"
  by (auto simp: Log_newSegment_def dest: newSegment_fs split: sum.splits prod.splits)

lemma setup_loop_fs:
  "setup_loop x bs l w = (e, l', w') \<Longrightarrow> same_but (lg_Dir l) w w' \<and> lg_Dir l' = lg_Dir l"
proof (induction bs arbitrary: l w rule: induct_list012)
  case (3 b b2 bs)
  obtain e1 l1 w1 where 1: "Log_newSegment x b l w = (e1, l1, w1)" by (metis prod.exhaust)
  have l1: "same_but (lg_Dir l) w w1" "lg_Dir l1 = lg_Dir l" using Log_newSegment_fs [OF 1] by simp_all
  show ?case
  proof (cases e1)
    case None
    then have "setup_loop x bs l1 w1 = (e, l', w')" using 3(3) 1 by simp
    from 3(1) [OF this] l1 show ?thesis by (simp add: same_but_def)
  qed (use 3(3) 1 l1 in auto)
qed (auto simp: same_but_def dest!: Log_newSegment_fs)

lemma NewLog_fs:
  assumes "NewLog x dir c w = (e, l, w')"
  shows "same_but dir w w'"
proof -
  obtain r1 w1 where 1: "os_ReadDir dir w = (r1, w1)" by fastforce
  let ?l = "\<lparr>lg_Dir = dir, lg_Config = config_defaults c, lg_active = None, lg_segments = [], lg_heap = []\<rparr>"
  show ?thesis
  proof (cases r1)
    case (Inr files)
    obtain e2 l2 w2 where 2: "setup_loop x (sort (map base_of_name files)) ?l w1 = (e2, l2, w2)" by (metis prod.exhaust)
    then have "same_but dir w w2" "lg_Dir l2 = dir" using setup_loop_fs [OF 2] fs_os(4) [OF 1] by (simp_all add: same_but_def)
    then show ?thesis using assms 1 2 Inr
      by (auto simp: NewLog_def Log_setup_def same_but_def split: option.splits if_splits dest!: Log_newSegment_fs)
  qed (use assms 1 in \<open>auto simp: NewLog_def Log_setup_def same_but_def dest!: fs_os(4)\<close>)
qed

end
