(* ===== verification/Demo.thy ===== *)
theory Demo
  imports Recovery
begin

text \<open>
  Concrete states of the log: an empty directory, the log that \<^verbatim>\<open>NewLog\<close> makes in it, and the log after
  three appends. The store limit is small, so the three records lie in several segments. The
  properties of the log are applied to these states.
\<close>

definition w_empty :: world where
  "w_empty = \<lparr>fs = (\<lambda>d. if d = ''data'' then Some [] else None), fpos = (\<lambda>p. 0), faults = []\<rparr>"

definition c_small :: Config where
  "c_small = \<lparr>MaxStoreBytes = 40, MaxIndexBytes = 1024, InitialOffset = 16\<rparr>"

definition c_roomy :: Config where
  "c_roomy = c_small\<lparr>MaxStoreBytes := 1024\<rparr>"

definition rec_of :: "nat \<Rightarrow> api_Record" where
  "rec_of n = \<lparr>r_Value = replicate n 7, r_Offset = 0, r_Term = 0, r_Type = 0\<rparr>"

definition log0 :: "Log \<times> world" where
  "log0 = (case NewLog demo ''data'' c_small w_empty of (_, l, w) \<Rightarrow> (l, w))"

definition demo_append :: "api_Record \<Rightarrow> Log \<times> world \<Rightarrow> Log \<times> world" where
  "demo_append r lw = (case Log_Append demo (Some r) (fst lw) (snd lw) of (_, l, w) \<Rightarrow> (l, w))"

definition log3 :: "Log \<times> world" where
  "log3 = demo_append (rec_of 3) (demo_append (rec_of 2) (demo_append (rec_of 1) log0))"

definition recs3 :: "api_Record list" where
  "recs3 = [(rec_of 1)\<lparr>r_Offset := 16\<rparr>, (rec_of 2)\<lparr>r_Offset := 17\<rparr>, (rec_of 3)\<lparr>r_Offset := 18\<rparr>]"

lemma c_small_ok [simp]: "config_ok c_small" "config_defaults c_small = c_small" "InitialOffset c_small = 16"
  by (simp_all add: config_ok_def c_small_def config_defaults_def Let_def)

lemma w_empty_ok [simp]: "quiet w_empty" "names w_empty ''data'' = Some []"
  by (simp_all add: quiet_def w_empty_def names_def)

lemma log0_rep: "log_rep demo (fst log0) (snd log0) [[]]" "log_low (fst log0) = 16"
  "lg_Dir (fst log0) = ''data''" "lg_Config (fst log0) = c_small"
  using NewLog_empty [of c_small demo w_empty "''data''"] by (auto simp: log0_def)

lemma demo_append_abs:
  assumes "log_rep demo l w rss" "n = log_low l + length (concat rss)" "n + 1 < 2 ^ 64" "length (r_Value r) < 2 ^ 30"
  shows "\<exists>l' w' rss'. demo_append r (l, w) = (l', w') \<and> log_rep demo l' w' rss' \<and> log_low l' = log_low l \<and>
    concat rss' = concat rss @ [r\<lparr>r_Offset := of_nat n\<rparr>]"
proof -
  have "\<exists>p. marshal demo (r\<lparr>r_Offset := of_nat n\<rparr>) = Inr p"
    using assms(4) by (simp add: demo_def demo_marshal_def)
  then obtain p where "marshal demo (r\<lparr>r_Offset := of_nat n\<rparr>) = Inr p" ..
  from Log_Append_rep [OF assms(1) demo_codec_ok demo_mmap_ok assms(2,3) this]
  show ?thesis by (auto simp: demo_append_def)
qed

lemma log3_rep: "\<exists>rss. log_rep demo (fst log3) (snd log3) rss \<and> concat rss = recs3" "log_low (fst log3) = 16"
proof -
  obtain l1 w1 rss1 where 1: "demo_append (rec_of 1) log0 = (l1, w1)" "log_rep demo l1 w1 rss1" "log_low l1 = 16"
    "concat rss1 = [(rec_of 1)\<lparr>r_Offset := 16\<rparr>]"
    using demo_append_abs [OF log0_rep(1) refl, of "rec_of 1"] log0_rep(2) by (auto simp: rec_of_def)
  obtain l2 w2 rss2 where 2: "demo_append (rec_of 2) (l1, w1) = (l2, w2)" "log_rep demo l2 w2 rss2" "log_low l2 = 16"
    "concat rss2 = concat rss1 @ [(rec_of 2)\<lparr>r_Offset := 17\<rparr>]"
    using demo_append_abs [OF 1(2), of 17 "rec_of 2"] 1 by (auto simp: rec_of_def)
  obtain l3 w3 rss3 where 3: "demo_append (rec_of 3) (l2, w2) = (l3, w3)" "log_rep demo l3 w3 rss3" "log_low l3 = 16"
    "concat rss3 = concat rss2 @ [(rec_of 3)\<lparr>r_Offset := 18\<rparr>]"
    using demo_append_abs [OF 2(2), of 18 "rec_of 3"] 1 2 by (auto simp: rec_of_def)
  have e: "fst log3 = l3" "snd log3 = w3" using 1(1) 2(1) 3(1) by (simp_all add: log3_def)
  show "\<exists>rss. log_rep demo (fst log3) (snd log3) rss \<and> concat rss = recs3" "log_low (fst log3) = 16"
    using 1(4) 2(4) 3(2-4) by (auto simp: recs3_def e)
qed

text \<open>The first two of the records fill a segment, so the third one lies in another.\<close>

lemma demo_append_last:
  assumes "log_rep demo l w rss" "n = log_low l + length (concat rss)" "n + 1 < 2 ^ 64" "length (r_Value r) < 2 ^ 30"
  shows "\<exists>l' w' more. demo_append r (l, w) = (l', w') \<and> log_low l' = log_low l \<and>
    log_rep demo l' w' (butlast rss @ [last rss @ [r\<lparr>r_Offset := of_nat n\<rparr>]] @ more) \<and> (more = [] \<or> more = [[]])"
proof -
  obtain p where "marshal demo (r\<lparr>r_Offset := of_nat n\<rparr>) = Inr p" using assms(4) by (simp add: demo_def demo_marshal_def)
  from Log_Append_last [OF assms(1) demo_codec_ok demo_mmap_ok assms(2,3) this]
  show ?thesis by (auto simp: demo_append_def)
qed

lemma demo_append_config: "lg_Config (fst (demo_append r lw)) = lg_Config (fst lw)"
proof (cases "Log_Append demo (Some r) (fst lw) (snd lw)")
  case (fields res l' w')
  then show ?thesis using Log_Append_dir [OF fields] by (simp add: demo_append_def)
qed

lemma not_both_in_one:
  assumes rep: "log_rep demo l w [[(rec_of 1)\<lparr>r_Offset := 16\<rparr>, (rec_of 2)\<lparr>r_Offset := 17\<rparr>]]" and c: "lg_Config l = c_small"
  shows False
proof -
  note D = log_invD [OF log_repD(1) [OF rep]]
  have s: "last (segs l) = segs l ! 0" "0 < length (segs l)" using D(6,7) by (simp_all add: last_conv_nth)
  obtain p1 where p1: "marshal demo ((rec_of 1)\<lparr>r_Offset := 16\<rparr>) = Inr p1" "length p1 = 21"
    by (simp add: demo_def demo_marshal_def rec_of_def)
  obtain p2 where p2: "marshal demo ((rec_of 2)\<lparr>r_Offset := 17\<rparr>) = Inr p2" "length p2 = 22"
    by (simp add: demo_def demo_marshal_def rec_of_def)
  have "encodes demo [(rec_of 1)\<lparr>r_Offset := 16\<rparr>, (rec_of 2)\<lparr>r_Offset := 17\<rparr>] [p1, p2]" using p1 p2 by (simp add: encodes_def)
  with D(10) [OF s(2)] have "segment_IsMaxed (segs l ! 0)"
    using D(11) [OF s(2)] c p1(2) p2(2) by (simp add: segment_IsMaxed_rep frames_def frame_def c_small_def)
  with log_repD(2) [OF rep] s(1) show False by simp
qed

lemma log3_first: "unat (sg_nextOffset (hd (segs (fst log3)))) \<le> 18"
proof -
  let ?r = "\<lambda>n i. (rec_of n)\<lparr>r_Offset := i\<rparr>"
  obtain l1 w1 m1 where 1: "demo_append (rec_of 1) log0 = (l1, w1)" "log_low l1 = 16" "log_rep demo l1 w1 ([?r 1 16] # m1)"
    "m1 = [] \<or> m1 = [[]]"
    using demo_append_last [OF log0_rep(1) refl, of "rec_of 1"] log0_rep(2) by (auto simp: rec_of_def)
  let ?rss1 = "[?r 1 16] # m1"
  obtain l2 w2 m2 where 2: "demo_append (rec_of 2) (l1, w1) = (l2, w2)" "log_low l2 = 16"
    "log_rep demo l2 w2 (butlast ?rss1 @ [last ?rss1 @ [?r 2 17]] @ m2)" "m2 = [] \<or> m2 = [[]]"
    using demo_append_last [OF 1(3), of 17 "rec_of 2"] 1(2,4) by (auto simp: rec_of_def)
  let ?rss2 = "butlast ?rss1 @ [last ?rss1 @ [?r 2 17]] @ m2"
  have c: "lg_Config l2 = c_small" using demo_append_config [of "rec_of 1" log0] demo_append_config [of "rec_of 2" "(l1, w1)"]
    1(1) 2(1) log0_rep(4) by simp
  have two: "length ?rss2 \<noteq> 1" using not_both_in_one [OF _ c] 1(4) 2(3,4) by auto
  obtain l3 w3 m3 where 3: "demo_append (rec_of 3) (l2, w2) = (l3, w3)" "log_low l3 = 16"
    "log_rep demo l3 w3 (butlast ?rss2 @ [last ?rss2 @ [?r 3 18]] @ m3)"
    using demo_append_last [OF 2(3), of 18 "rec_of 3"] 1(2,4) 2(2,4) by (auto simp: rec_of_def)
  moreover have "\<exists>rs rss. length rs \<le> 2 \<and> butlast ?rss2 @ [last ?rss2 @ [?r 3 18]] @ m3 = rs # rss"
    using 1(4) 2(4) two by auto
  ultimately obtain rs rss where 4: "log_rep demo l3 w3 (rs # rss)" "length rs \<le> 2" by metis
  note D = log_invD [OF log_repD(1) [OF 4(1)]]
  have "unat (sg_nextOffset (segs l3 ! 0)) \<le> 18"
    using chain_next [OF log_repD(1) [OF 4(1)], of 0] D(7) 3(2) 4(2) by simp
  moreover have "fst log3 = l3" using 1(1) 2(1) 3(1) by (simp add: log3_def)
  ultimately show ?thesis using D(7) by (simp add: hd_conv_nth)
qed

section \<open>A segment\<close>

definition seg0 :: "segment \<times> world" where
  "seg0 = (case newSegment demo ''data'' 16 c_small w_empty of (Inr s, w) \<Rightarrow> (s, w))"

definition seg1 :: "segment \<times> world" where
  "seg1 = (case segment_Append demo (Some (rec_of 1)) (fst seg0) (snd seg0) of (_, s, w) \<Rightarrow> (s, w))"

definition rec1 :: api_Record where
  "rec1 = (rec_of 1)\<lparr>r_Offset := 16\<rparr>"

definition enc1 :: bytes where
  "enc1 = PutUint64 16 @ PutUint64 0 @ PutUint32 0 @ [7]"

lemma enc1: "marshal demo rec1 = Inr enc1"
  by (simp add: demo_def demo_marshal_def rec1_def rec_of_def enc1_def)

lemma length_enc1 [simp]: "length enc1 = 21"
  by (simp add: enc1_def)

lemma seg0_rep: "seg_rep demo ''data'' (fst seg0) (snd seg0) []" "sg_baseOffset (fst seg0) = 16"
  "sg_config (fst seg0) = c_small"
proof -
  have "fget w_empty (''data'', n) = None" for n using fget_names [of w_empty "''data''" n] by auto
  then obtain s w where "newSegment demo ''data'' 16 c_small w_empty = (Inr s, w)" "seg_rep demo ''data'' s w []"
    "sg_baseOffset s = 16" "sg_config s = c_small"
    using newSegment_fresh [of c_small demo w_empty "''data''" "[]" 16] by auto
  then show "seg_rep demo ''data'' (fst seg0) (snd seg0) []" "sg_baseOffset (fst seg0) = 16"
    "sg_config (fst seg0) = c_small" by (simp_all add: seg0_def)
qed

lemma seg0_open: "\<not> segment_IsMaxed (fst seg0)" "sg_nextOffset (fst seg0) = 16"
proof -
  show "\<not> segment_IsMaxed (fst seg0)"
    using segment_IsMaxed_rep [OF seg0_rep(1), of "[]"] seg0_rep(3) by (simp add: encodes_def c_small_def)
  show "sg_nextOffset (fst seg0) = 16"
    using seg_rep_next [OF seg0_rep(1)] seg0_rep(2) by (simp add: u64_eq_iff)
qed

lemma seg1_rep: "seg_rep demo ''data'' (fst seg1) (snd seg1) [rec1]" "sg_baseOffset (fst seg1) = 16"
  "sg_config (fst seg1) = c_small" "sg_nextOffset (fst seg1) = 17"
proof -
  obtain s w where s: "segment_Append demo (Some (rec_of 1)) (fst seg0) (snd seg0) = (Inr 16, s, w)"
    "seg_rep demo ''data'' s w [rec1]" "sg_baseOffset s = 16" "sg_config s = c_small" "unat (sg_nextOffset s) = 17"
    using segment_Append_rep [OF seg0_rep(1) demo_codec_ok seg0_open(1), of "rec_of 1" enc1] enc1 seg0_open(2) seg0_rep
    by (auto simp: rec1_def)
  then have e: "fst seg1 = s" "snd seg1 = w" by (simp_all add: seg1_def)
  show "seg_rep demo ''data'' (fst seg1) (snd seg1) [rec1]" "sg_baseOffset (fst seg1) = 16"
    "sg_config (fst seg1) = c_small" "sg_nextOffset (fst seg1) = 17"
    using s(2-5) unfolding e by (simp_all add: u64_eq_iff)
qed

lemma seg1_parts:
  "store_rep (sg_store (fst seg1)) (snd seg1) (frame enc1)"
  "index_rep c_small (sg_index (fst seg1)) (snd seg1) [(0, 0)]"
proof -
  obtain ps where ps: "encodes demo [rec1] ps" "store_rep (sg_store (fst seg1)) (snd seg1) (frames ps)"
    "index_rep (sg_config (fst seg1)) (sg_index (fst seg1)) (snd seg1) (entries ps)" by (rule seg_repE [OF seg1_rep(1)])
  have "encodes demo [rec1] [enc1]" using enc1 by (simp add: encodes_def)
  then have "ps = [enc1]" using ps(1) encodes_unique by blast
  then show "store_rep (sg_store (fst seg1)) (snd seg1) (frame enc1)"
    "index_rep c_small (sg_index (fst seg1)) (snd seg1) [(0, 0)]"
    using ps(2,3) seg1_rep(3) by (simp_all add: entries_def)
qed

end
