(* ===== verification/Auth.thy ===== *)
theory Auth
  imports Api
begin

text \<open>
  The authorizer (src/internal/auth/authorizer.go): a wrapper of casbin's enforcer. The enforcer is
  not part of the repository, so the constructor and the decision procedure are parameters: \<open>enforce\<close>
  is \<^verbatim>\<open>Enforcer.Enforce\<close> applied to subject, object and action.
\<close>

type_synonym enforcer = "string \<Rightarrow> string \<Rightarrow> string \<Rightarrow> goerr + bool"

record Authorizer = au_enforcer :: enforcer

definition Auth_New :: "(string \<Rightarrow> string \<Rightarrow> goerr + enforcer) \<Rightarrow> string \<Rightarrow> string \<Rightarrow> goerr + Authorizer" where
  "Auth_New newEnforcer model policy = (case newEnforcer model policy of
     Inl e \<Rightarrow> Inl e
   | Inr enforcer \<Rightarrow> Inr \<lparr>au_enforcer = enforcer\<rparr>)"

definition Authorize :: "Authorizer \<Rightarrow> string \<Rightarrow> string \<Rightarrow> string \<Rightarrow> goerr option" where
  "Authorize a subject object action = (case au_enforcer a subject object action of
     Inl e \<Rightarrow> Some e
   | Inr allowed \<Rightarrow>
       (if \<not> allowed then Some (Status Code_PermissionDenied (subject @ '' not permitted to '' @ action))
        else None))"

lemma Authorize_iff: "Authorize a sub obj act = None \<longleftrightarrow> au_enforcer a sub obj act = Inr True"
  by (auto simp: Authorize_def split: sum.splits)

end
