(* ===== verification/CommitLog.thy ===== *)
theory CommitLog
  imports Recovery
begin

text \<open>
  The interface \<^verbatim>\<open>CommitLog\<close> of the service (src/internal/server/server.go) and its contract: a log is
  a lowest offset and a list of records, appending stamps the record with the next offset and puts
  it at the end, reading an offset in range returns the record there and any other offset is
  refused. The locale states the contract for any implementation; the log of \<open>Log\<close> is one.
\<close>

locale commit_log =
  fixes append :: "'r \<Rightarrow> 's \<Rightarrow> (goerr + u64) \<times> 's"
    and read :: "u64 \<Rightarrow> 's \<Rightarrow> (goerr + 'q) \<times> 's"
    and rep :: "'s \<Rightarrow> nat \<Rightarrow> 'q list \<Rightarrow> bool"
    and stamp :: "nat \<Rightarrow> 'r \<Rightarrow> 'q"
    and fits :: "nat \<Rightarrow> 'r \<Rightarrow> bool"
    and miss :: "u64 \<Rightarrow> goerr"
  assumes append_rep: "rep s lo rs \<Longrightarrow> fits (lo + length rs) r \<Longrightarrow>
      \<exists>s'. append r s = (Inr (of_nat (lo + length rs)), s') \<and> rep s' lo (rs @ [stamp (lo + length rs) r])"
    and read_hit: "rep s lo rs \<Longrightarrow> lo \<le> unat off \<Longrightarrow> unat off < lo + length rs \<Longrightarrow>
      \<exists>s'. read off s = (Inr (rs ! (unat off - lo)), s') \<and> rep s' lo rs"
    and read_miss: "rep s lo rs \<Longrightarrow> unat off < lo \<or> lo + length rs \<le> unat off \<Longrightarrow>
      \<exists>s'. read off s = (Inl (miss off), s') \<and> rep s' lo rs"
    and fits_bound: "fits n r \<Longrightarrow> n < 2 ^ 64"
begin

fun appends :: "'r list \<Rightarrow> 's \<Rightarrow> (goerr + u64 list) \<times> 's" where
  "appends [] s = (Inr [], s)"
| "appends (r # rs) s = (case append r s of
     (Inl e, s') \<Rightarrow> (Inl e, s')
   | (Inr off, s') \<Rightarrow> (case appends rs s' of
       (Inl e, s'') \<Rightarrow> (Inl e, s'')
     | (Inr offs, s'') \<Rightarrow> (Inr (off # offs), s'')))"

definition stamps :: "nat \<Rightarrow> 'r list \<Rightarrow> 'q list" where
  "stamps n rs = map (\<lambda>i. stamp (n + i) (rs ! i)) [0..<length rs]"

lemma stamps_Cons: "stamps n (r # rs) = stamp n r # stamps (Suc n) rs"
  unfolding stamps_def by (simp add: upt_conv_Cons map_Suc_upt [symmetric] del: upt_Suc)

lemma length_stamps [simp]: "length (stamps n rs) = length rs"
  by (simp add: stamps_def)

text \<open>A sequence of appends gets consecutive offsets.\<close>

lemma appends_rep:
  assumes "rep s lo qs" "\<forall>i < length rs. fits (lo + length qs + i) (rs ! i)"
  shows "\<exists>s'. appends rs s = (Inr (map (\<lambda>i. of_nat (lo + length qs + i)) [0..<length rs]), s') \<and>
    rep s' lo (qs @ stamps (lo + length qs) rs)"
  using assms
proof (induction rs arbitrary: s qs)
  case Nil
  then show ?case by (auto simp: stamps_def)
next
  case (Cons r rs)
  let ?n = "lo + length qs"
  obtain s1 where s1: "append r s = (Inr (of_nat ?n), s1)" "rep s1 lo (qs @ [stamp ?n r])"
    using append_rep [OF Cons.prems(1)] Cons.prems(2) by fastforce
  have "\<forall>i < length rs. fits (lo + length (qs @ [stamp ?n r]) + i) (rs ! i)"
    using Cons.prems(2) by fastforce
  from Cons.IH [OF s1(2) this] obtain s' where
    s': "appends rs s1 = (Inr (map (\<lambda>i. of_nat (lo + length (qs @ [stamp ?n r]) + i)) [0..<length rs]), s')"
    "rep s' lo ((qs @ [stamp ?n r]) @ stamps (lo + length (qs @ [stamp ?n r])) rs)" by blast
  have "map (\<lambda>i. of_nat (?n + i) :: u64) [0..<length (r # rs)] =
      of_nat ?n # map (\<lambda>i. of_nat (lo + length (qs @ [stamp ?n r]) + i)) [0..<length rs]"
    by (simp add: upt_conv_Cons map_Suc_upt [symmetric] del: upt_Suc)
  with s1 s' show ?case by (simp add: stamps_Cons)
qed

text \<open>Whatever was appended can be read back, and what was there before is still there.\<close>

lemma appends_read:
  assumes "rep s lo qs" "\<forall>i < length rs. fits (lo + length qs + i) (rs ! i)"
  shows "\<exists>s'. appends rs s = (Inr (map (\<lambda>i. of_nat (lo + length qs + i)) [0..<length rs]), s') \<and>
    (\<forall>off. lo \<le> unat off \<and> unat off < lo + length qs + length rs \<longrightarrow>
      (\<exists>s''. read off s' = (Inr ((qs @ stamps (lo + length qs) rs) ! (unat off - lo)), s'')))"
proof -
  obtain s' where *: "appends rs s = (Inr (map (\<lambda>i. of_nat (lo + length qs + i)) [0..<length rs]), s')"
    "rep s' lo (qs @ stamps (lo + length qs) rs)" using appends_rep [OF assms] by blast
  show ?thesis using *(1) read_hit [OF *(2)] by fastforce
qed

lemma append_read:
  assumes "rep s lo qs" "fits (lo + length qs) r"
  shows "\<exists>s1 s2. append r s = (Inr (of_nat (lo + length qs)), s1) \<and>
    read (of_nat (lo + length qs)) s1 = (Inr (stamp (lo + length qs) r), s2)"
proof -
  obtain s1 where s1: "append r s = (Inr (of_nat (lo + length qs)), s1)"
    "rep s1 lo (qs @ [stamp (lo + length qs) r])" using append_rep [OF assms] by blast
  have "unat (of_nat (lo + length qs) :: u64) = lo + length qs"
    using fits_bound [OF assms(2)] by (rule u64_of_nat)
  with read_hit [OF s1(2), of "of_nat (lo + length qs)"] s1(1) show ?thesis by auto
qed

end

section \<open>The log implements the contract\<close>

definition log_contract :: "ext \<Rightarrow> Log \<times> world \<Rightarrow> nat \<Rightarrow> api_Record list \<Rightarrow> bool" where
  "log_contract x lw lo rs \<longleftrightarrow> codec_ok x \<and> mmap_ok x \<and> log_abs x lw lo rs"

text \<open>A record can be appended at an offset if it can be serialised with it and the next offset exists.\<close>

definition log_fits :: "ext \<Rightarrow> nat \<Rightarrow> api_Record option \<Rightarrow> bool" where
  "log_fits x n r \<longleftrightarrow> n + 1 < 2 ^ 64 \<and>
     (case r of None \<Rightarrow> False | Some r' \<Rightarrow> \<exists>p. marshal x (r'\<lparr>r_Offset := of_nat n\<rparr>) = Inr p)"

definition log_stamp :: "nat \<Rightarrow> api_Record option \<Rightarrow> api_Record" where
  "log_stamp n r = (the r)\<lparr>r_Offset := of_nat n\<rparr>"

definition CommitLog_Append :: "ext \<Rightarrow> api_Record option \<Rightarrow> Log \<times> world \<Rightarrow> (goerr + u64) \<times> Log \<times> world" where
  "CommitLog_Append x r lw = Log_Append x r (fst lw) (snd lw)"

definition CommitLog_Read :: "ext \<Rightarrow> u64 \<Rightarrow> Log \<times> world \<Rightarrow> (goerr + api_Record) \<times> Log \<times> world" where
  "CommitLog_Read x off lw = Log_Read x off (fst lw) (snd lw)"

lemma CommitLog_Append_contract:
  assumes "log_contract x s lo rs" "log_fits x (lo + length rs) r"
  shows "\<exists>s'. CommitLog_Append x r s = (Inr (of_nat (lo + length rs)), s') \<and>
    log_contract x s' lo (rs @ [log_stamp (lo + length rs) r])"
proof -
  obtain rss where rss: "log_rep x (fst s) (snd s) rss" "lo = log_low (fst s)" "rs = concat rss"
    and x: "codec_ok x" "mmap_ok x" using assms(1) by (auto simp: log_contract_def log_abs_def)
  obtain r' p where r: "r = Some r'" "marshal x (r'\<lparr>r_Offset := of_nat (lo + length rs)\<rparr>) = Inr p"
    "lo + length rs + 1 < 2 ^ 64" using assms(2) by (auto simp: log_fits_def split: option.splits)
  obtain l' w' rss' where l': "Log_Append x r (fst s) (snd s) = (Inr (of_nat (lo + length rs)), l', w')"
    "log_rep x l' w' rss'" "log_low l' = lo" "concat rss' = rs @ [r'\<lparr>r_Offset := of_nat (lo + length rs)\<rparr>]"
    using Log_Append_rep [OF rss(1) x _ r(3,2)] rss(2,3) r(1) by auto
  then have "log_abs x (l', w') lo (rs @ [log_stamp (lo + length rs) r])"
    by (auto simp: log_abs_def log_stamp_def r(1) intro!: exI [of _ rss'])
  then show ?thesis using x l'(1) by (auto simp: CommitLog_Append_def log_contract_def)
qed

lemma CommitLog_Read_contract:
  assumes "log_contract x s lo rs"
  shows "lo \<le> unat off \<Longrightarrow> unat off < lo + length rs \<Longrightarrow>
      \<exists>s'. CommitLog_Read x off s = (Inr (rs ! (unat off - lo)), s') \<and> log_contract x s' lo rs"
    and "unat off < lo \<or> lo + length rs \<le> unat off \<Longrightarrow>
      \<exists>s'. CommitLog_Read x off s = (Inl (ErrOffsetOutOfRange off), s') \<and> log_contract x s' lo rs"
proof -
  obtain rss where rss: "log_rep x (fst s) (snd s) rss" "lo = log_low (fst s)" "rs = concat rss"
    and x: "codec_ok x" "mmap_ok x" using assms(1) by (auto simp: log_contract_def log_abs_def)
  show "\<exists>s'. CommitLog_Read x off s = (Inr (rs ! (unat off - lo)), s') \<and> log_contract x s' lo rs"
    if "lo \<le> unat off" "unat off < lo + length rs"
    using Log_Read_hit [OF rss(1) x(1), of off] that rss(2,3) x
    by (fastforce simp: CommitLog_Read_def log_contract_def log_abs_def)
  show "\<exists>s'. CommitLog_Read x off s = (Inl (ErrOffsetOutOfRange off), s') \<and> log_contract x s' lo rs"
    if "unat off < lo \<or> lo + length rs \<le> unat off"
    using Log_Read_miss [OF rss(1), of off] that rss(2,3) assms by (auto simp: CommitLog_Read_def)
qed

interpretation lg: commit_log "CommitLog_Append x" "CommitLog_Read x" "log_contract x" log_stamp "log_fits x"
  ErrOffsetOutOfRange for x
proof (unfold_locales, goal_cases)
  case (1 s lo rs r)
  then show ?case by (rule CommitLog_Append_contract)
next
  case (2 s lo rs off)
  then show ?case by (rule CommitLog_Read_contract(1))
next
  case (3 s lo rs off)
  then show ?case by (rule CommitLog_Read_contract(2))
next
  case (4 n r)
  then show ?case by (simp add: log_fits_def)
qed

text \<open>The contract, spelled out for the operations of the log.\<close>

lemma Log_Append_contract:
  assumes "log_contract x (l, w) lo rs" "log_fits x (lo + length rs) (Some r)"
  shows "\<exists>l' w'. Log_Append x (Some r) l w = (Inr (of_nat (lo + length rs)), l', w') \<and>
    log_contract x (l', w') lo (rs @ [r\<lparr>r_Offset := of_nat (lo + length rs)\<rparr>])"
  using lg.append_rep [OF assms] by (auto simp: CommitLog_Append_def log_stamp_def)

lemma Log_Read_contract:
  assumes "log_contract x (l, w) lo rs"
  shows "\<exists>l' w'. Log_Read x off l w =
      ((if lo \<le> unat off \<and> unat off < lo + length rs then Inr (rs ! (unat off - lo))
        else Inl (ErrOffsetOutOfRange off)), l', w') \<and> log_contract x (l', w') lo rs"
  using lg.read_hit [OF assms, of off] lg.read_miss [OF assms, of off]
  by (cases "lo \<le> unat off \<and> unat off < lo + length rs") (auto simp: CommitLog_Read_def)

lemma log_contractE:
  assumes "log_contract x (l, w) lo rs"
  obtains rss where "log_rep x l w rss" "lo = log_low l" "rs = concat rss" "codec_ok x" "mmap_ok x"
  using assms by (auto simp: log_contract_def log_abs_def)

lemma log_contractI:
  "log_rep x l w rss \<Longrightarrow> codec_ok x \<Longrightarrow> mmap_ok x \<Longrightarrow> log_contract x (l, w) (log_low l) (concat rss)"
  by (auto simp: log_contract_def log_abs_def)

lemma Log_Truncate_contract:
  assumes c: "log_contract x (l, w) lo rs" and lt: "unat lowest + 1 < lo + length rs"
  shows "\<exists>l' w' k. Log_Truncate x lowest l w = (None, l', w') \<and> log_contract x (l', w') (lo + k) (drop k rs) \<and>
    lo + k \<le> max lo (unat lowest + 1)"
proof -
  obtain rss where rep: "log_rep x l w rss" and lo: "lo = log_low l" and rs: "rs = concat rss"
    and x: "codec_ok x" "mmap_ok x" by (rule log_contractE [OF c])
  let ?d = "ndoomed lowest l" and ?k = "length (concat (take (ndoomed lowest l) rss))"
  obtain l' w' where t: "Log_Truncate x lowest l w = (None, l', w')" "log_rep x l' w' (drop ?d rss)"
    "log_low l' = log_low l + ?k"
    using Log_Truncate_rep [OF rep x(2), of lowest] lt unfolding lo rs by blast
  have "concat rss = concat (take ?d rss) @ concat (drop ?d rss)"
    by (metis append_take_drop_id concat_append)
  then have "drop ?k rs = concat (drop ?d rss)" by (metis append_eq_conv_conj rs)
  moreover have "unat lowest + 1 < 2 ^ 64"
    using lt chain_last_next [OF log_repD(1) [OF rep]] u64_bound [of "sg_nextOffset (last (segs l))"]
    unfolding lo rs by linarith
  then have "lo + ?k \<le> max lo (unat lowest + 1)"
    using doomed_prefix(4) [OF log_repD(1) [OF rep], of lowest "?d - 1"] unfolding lo by (cases ?d) simp_all
  ultimately show ?thesis using t log_contractI [OF t(2) x] lo by metis
qed

text \<open>Truncation at or above the highest offset leaves a log without segments.\<close>

lemma Log_Truncate_everything:
  assumes c: "log_contract x (l, w) lo rs" and le: "lo + length rs \<le> unat lowest + 1" "unat lowest + 1 < 2 ^ 64"
  shows "\<exists>l' w'. Log_Truncate x lowest l w = (None, l', w') \<and>
    LowestOffset l' = Inl (Panic ''index out of range'') \<and> HighestOffset l' = Inl (Panic ''index out of range'') \<and>
    (\<forall>off w''. Log_Read x off l' w'' = (Inl (ErrOffsetOutOfRange off), l', w''))"
proof -
  obtain rss where rep: "log_rep x l w rss" and lo: "lo = log_low l" and rs: "rs = concat rss"
    and x: "codec_ok x" "mmap_ok x" by (rule log_contractE [OF c])
  obtain l' w' where "Log_Truncate x lowest l w = (None, l', w')" "lg_segments l' = []"
    using Log_Truncate_all [OF rep x(2)] le unfolding lo rs by blast
  then show ?thesis by (simp add: LowestOffset_def HighestOffset_def highestOffset_def Log_Read_def)
qed

lemma Log_close_reopen_contract:
  assumes c: "log_contract x (l, w) lo rs"
  shows "\<exists>l1 w1 l2 w2. Log_Close x l w = (None, l1, w1) \<and>
    NewLog x (lg_Dir l) (lg_Config l) w1 = (None, l2, w2) \<and> log_contract x (l2, w2) lo rs"
proof -
  obtain rss where rep: "log_rep x l w rss" and lo: "lo = log_low l" and rs: "rs = concat rss"
    and x: "codec_ok x" "mmap_ok x" by (rule log_contractE [OF c])
  show ?thesis using Log_close_reopen [OF rep x(2)] log_contractI [OF _ x] unfolding lo rs by metis
qed

lemma NewLog_empty_contract:
  assumes "config_ok (config_defaults c)" "codec_ok x" "mmap_ok x" "quiet w" "names w dir = Some []"
  shows "\<exists>l w'. NewLog x dir c w = (None, l, w') \<and> log_contract x (l, w') (unat (InitialOffset c)) [] \<and>
    lg_Dir l = dir \<and> lg_Config l = config_defaults c"
  using NewLog_empty [OF assms(1,3-5)] log_contractI [OF _ assms(2,3), where rss = "[[]]"] by fastforce

section \<open>A log depends on its own directory only\<close>

lemma log_rep_frame:
  assumes rep: "log_rep x l w rss" and q: "quiet w'" and d: "fs w' (lg_Dir l) = fs w (lg_Dir l)"
  shows "log_rep x l w' rss"
proof -
  note D = log_invD [OF log_repD(1) [OF rep]]
  have g: "fget w' (lg_Dir l, n) = fget w (lg_Dir l, n)" for n using d by (simp add: fget_def)
  have s: "seg_rep x (lg_Dir l) (segs l ! i) w' (rss ! i)" if "i < length (segs l)" for i
    by (rule seg_rep_cong [OF D(10) [OF that] q]) (auto simp: seg_paths_def g)
  have "list_all2 (\<lambda>s rs. seg_rep x (lg_Dir l) s w' rs \<and> sg_config s = lg_Config l) (segs l) rss"
    using D(6) D(11) s by (simp add: list_all2_conv_all_nth)
  moreover have "dir_ok l w'" using D(4) d by (simp add: dir_ok_def names_def)
  ultimately show ?thesis using rep q by (simp add: log_rep_def log_inv_def)
qed

lemma log_contract_frame:
  assumes "log_contract x (l, w) lo rs" "quiet w'" "fs w' (lg_Dir l) = fs w (lg_Dir l)"
  shows "log_contract x (l, w') lo rs"
  using assms log_rep_frame by (fastforce simp: log_contract_def log_abs_def)

lemma log_contract_quiet: "log_contract x (l, w) lo rs \<Longrightarrow> quiet w"
  using log_contractE log_repD(1) log_invD(1) by metis

text \<open>What another part of the program does to the disk, when it leaves the directory of the log alone.\<close>

definition undisturbed :: "string \<Rightarrow> world \<Rightarrow> world \<Rightarrow> bool" where
  "undisturbed dir w w' \<longleftrightarrow> (quiet w \<longrightarrow> quiet w') \<and> fs w' dir = fs w dir"

lemma log_contract_undisturbed:
  "log_contract x (l, w) lo rs \<Longrightarrow> undisturbed (lg_Dir l) w w' \<Longrightarrow> log_contract x (l, w') lo rs"
  unfolding undisturbed_def using log_contract_frame log_contract_quiet by blast

end
