(* ===== verification/Server.thy ===== *)
theory Server
  imports Auth CommitLog
begin

text \<open>
  The gRPC service (src/internal/server/server.go): authentication, authorization and the handlers.
  The log and the list of servers are interfaces in Go; here they are records of functions over a
  state \<open>'s\<close>, and the handlers pass that state along. The lemmas are proved in the locale \<open>service\<close>
  for every log that keeps the contract \<open>commit_log\<close>.
\<close>

section \<open>Configuration and contexts\<close>

record 's CommitLog =
  cl_Append :: "api_Record option \<Rightarrow> 's \<Rightarrow> (goerr + u64) \<times> 's"
  cl_Read :: "u64 \<Rightarrow> 's \<Rightarrow> (goerr + api_Record) \<times> 's"

record 's server_Config =
  sc_CommitLog :: "'s CommitLog"
  sc_Authorizer :: Authorizer
  sc_GetServerer :: "'s \<Rightarrow> (goerr + api_Server list) \<times> 's"

definition objectWildcard :: string where "objectWildcard = ''*''"

definition produceAction :: string where "produceAction = ''produce''"

definition consumeAction :: string where "consumeAction = ''consume''"

text \<open>
  What a handler reads of a context: the peer, whose authentication information is absent without
  transport security, and the subject that \<^verbatim>\<open>authenticate\<close> stores. \<open>TLSInfo\<close> carries the verified
  vchains, each certificate reduced to the common name of its subject.
\<close>

datatype authinfo = TLSInfo "string list list" | OtherAuthInfo

record peer = peer_AuthInfo :: "authinfo option"

record ctx =
  ctx_peer :: "peer option"
  ctx_subject :: "string option"

definition authenticate :: "ctx \<Rightarrow> goerr + ctx" where
  "authenticate c = (case ctx_peer c of
     None \<Rightarrow> Inl (Status Code_Unknown ''couldn't find peer info'')
   | Some p \<Rightarrow> (case peer_AuthInfo p of
       None \<Rightarrow> Inr (c\<lparr>ctx_subject := Some ''''\<rparr>)
     | Some OtherAuthInfo \<Rightarrow> Inl (Panic ''interface conversion'')
     | Some (TLSInfo vchains) \<Rightarrow> (case vchains of
         (cn # _) # _ \<Rightarrow> Inr (c\<lparr>ctx_subject := Some cn\<rparr>)
       | _ \<Rightarrow> Inl (Panic ''index out of range''))))"

definition subject :: "ctx \<Rightarrow> goerr + string" where
  "subject c = (case ctx_subject c of
     None \<Rightarrow> Inl (Panic ''interface conversion'')
   | Some s \<Rightarrow> Inr s)"

section \<open>Handlers\<close>

definition Produce ::
  "'s server_Config \<Rightarrow> ctx \<Rightarrow> ProduceRequest \<Rightarrow> 's \<Rightarrow> (goerr + ProduceResponse) \<times> 's" where
  "Produce cfg c req s0 = (case subject c of
     Inl e \<Rightarrow> (Inl e, s0)
   | Inr sub \<Rightarrow> (case Authorize (sc_Authorizer cfg) sub objectWildcard produceAction of
       Some e \<Rightarrow> (Inl e, s0)
     | None \<Rightarrow> (case cl_Append (sc_CommitLog cfg) (preq_Record req) s0 of
         (Inl e, s) \<Rightarrow> (Inl e, s)
       | (Inr offset, s) \<Rightarrow> (Inr \<lparr>pres_Offset = offset\<rparr>, s))))"

definition Consume ::
  "'s server_Config \<Rightarrow> ctx \<Rightarrow> ConsumeRequest \<Rightarrow> 's \<Rightarrow> (goerr + ConsumeResponse) \<times> 's" where
  "Consume cfg c req s0 = (case subject c of
     Inl e \<Rightarrow> (Inl e, s0)
   | Inr sub \<Rightarrow> (case Authorize (sc_Authorizer cfg) sub objectWildcard consumeAction of
       Some e \<Rightarrow> (Inl e, s0)
     | None \<Rightarrow> (case cl_Read (sc_CommitLog cfg) (creq_Offset req) s0 of
         (Inl e, s) \<Rightarrow> (Inl e, s)
       | (Inr record, s) \<Rightarrow> (Inr \<lparr>cres_Record = record\<rparr>, s))))"

text \<open>
  A stream handler loops until the stream ends. Its environment is a list with an element for every
  iteration: what \<^verbatim>\<open>Recv\<close> returns and whether \<^verbatim>\<open>Send\<close> fails. After the list the handler is still
  running: it waits for the next message.
\<close>

datatype outcome = Returned "goerr option" | Running

fun ProduceStream ::
  "'s server_Config \<Rightarrow> ctx \<Rightarrow> ((goerr + ProduceRequest) \<times> goerr option) list \<Rightarrow> 's \<Rightarrow>
     outcome \<times> ProduceResponse list \<times> 's" where
  "ProduceStream cfg c [] s = (Running, [], s)"
| "ProduceStream cfg c ((recv, send) # es) s0 = (case recv of
     Inl e \<Rightarrow> (Returned (Some e), [], s0)
   | Inr req \<Rightarrow> (case Produce cfg c req s0 of
       (Inl e, s) \<Rightarrow> (Returned (Some e), [], s)
     | (Inr res, s) \<Rightarrow> (case send of
         Some e \<Rightarrow> (Returned (Some e), [], s)
       | None \<Rightarrow> (case ProduceStream cfg c es s of (out, sent, s') \<Rightarrow> (out, res # sent, s')))))"

text \<open>
  \<^verbatim>\<open>ConsumeStream\<close> polls the log. An iteration sees whether the context is done, and what other
  clients did to the log since the last one.
\<close>

record 's tick =
  tk_done :: bool
  tk_others :: "'s \<Rightarrow> 's"
  tk_send :: "goerr option"

definition out_of_range :: "goerr \<Rightarrow> bool" where
  "out_of_range e = (case e of ErrOffsetOutOfRange _ \<Rightarrow> True | _ \<Rightarrow> False)"

fun ConsumeStream ::
  "'s server_Config \<Rightarrow> ctx \<Rightarrow> ConsumeRequest \<Rightarrow> 's tick list \<Rightarrow> 's \<Rightarrow>
     outcome \<times> ConsumeResponse list \<times> 's" where
  "ConsumeStream cfg c req [] s = (Running, [], s)"
| "ConsumeStream cfg c req (t # ts) s0 =
     (if tk_done t then (Returned None, [], tk_others t s0)
      else (case Consume cfg c req (tk_others t s0) of
        (Inl e, s) \<Rightarrow>
          (if out_of_range e then ConsumeStream cfg c req ts s else (Returned (Some e), [], s))
      | (Inr res, s) \<Rightarrow> (case tk_send t of
          Some e \<Rightarrow> (Returned (Some e), [], s)
        | None \<Rightarrow>
            (case ConsumeStream cfg c (req\<lparr>creq_Offset := creq_Offset req + 1\<rparr>) ts s of
               (out, sent, s') \<Rightarrow> (out, res # sent, s')))))"

definition server_GetServers :: "'s server_Config \<Rightarrow> ctx \<Rightarrow> 's \<Rightarrow> (goerr + GetServersResponse) \<times> 's" where
  "server_GetServers cfg c s0 = (case sc_GetServerer cfg s0 of
     (Inl e, s) \<Rightarrow> (Inl e, s)
   | (Inr servers, s) \<Rightarrow> (Inr \<lparr>gres_Servers = servers\<rparr>, s))"

section \<open>The server\<close>

text \<open>
  \<^verbatim>\<open>NewGRPCServer\<close> registers the handlers and a health service that reports \<^verbatim>\<open>SERVING\<close>. Of the
  interceptors, those for tags and logging pass every call on; the one for authentication runs
  \<^verbatim>\<open>authenticate\<close> and hands its context to the handler. Registering the metrics is a call of a
  library and may fail.
\<close>

datatype serving_status = SERVING | NOT_SERVING

record 's grpcServer =
  gs_health :: "string \<Rightarrow> serving_status option"
  gs_Config :: "'s server_Config"

definition newgrpcServer :: "'s server_Config \<Rightarrow> goerr + 's server_Config" where
  "newgrpcServer config = Inr config"

definition NewGRPCServer :: "goerr option \<Rightarrow> 's server_Config \<Rightarrow> goerr + 's grpcServer" where
  "NewGRPCServer view_Register config = (case view_Register of
     Some e \<Rightarrow> Inl e
   | None \<Rightarrow> (case newgrpcServer config of
       Inl e \<Rightarrow> Inl e
     | Inr srv \<Rightarrow> Inr \<lparr>gs_health = ['''' \<mapsto> SERVING], gs_Config = srv\<rparr>))"

definition unary_call :: "(ctx \<Rightarrow> 's \<Rightarrow> (goerr + 'a) \<times> 's) \<Rightarrow> ctx \<Rightarrow> 's \<Rightarrow> (goerr + 'a) \<times> 's" where
  "unary_call handler c s = (case authenticate c of Inl e \<Rightarrow> (Inl e, s) | Inr c' \<Rightarrow> handler c' s)"

definition stream_call :: "(ctx \<Rightarrow> 's \<Rightarrow> outcome \<times> 'a list \<times> 's) \<Rightarrow> ctx \<Rightarrow> 's \<Rightarrow> outcome \<times> 'a list \<times> 's" where
  "stream_call handler c s = (case authenticate c of Inl e \<Rightarrow> (Returned (Some e), [], s) | Inr c' \<Rightarrow> handler c' s)"

section \<open>Who may do what\<close>

text \<open>
  The subject that the peer of a call proves: the empty one without transport security, otherwise the
  common name of the leaf certificate of the first verified chain.
\<close>

definition peer_subject :: "ctx \<Rightarrow> string option" where
  "peer_subject c = (case ctx_peer c of None \<Rightarrow> None | Some p \<Rightarrow> (case peer_AuthInfo p of
     None \<Rightarrow> Some '''' | Some (TLSInfo ((cn # _) # _)) \<Rightarrow> Some cn | _ \<Rightarrow> None))"

lemma authenticate_subject:
  "peer_subject c = Some sub \<Longrightarrow> authenticate c = Inr (c\<lparr>ctx_subject := Some sub\<rparr>)"
  "peer_subject c = None \<Longrightarrow> \<exists>e. authenticate c = Inl e"
  by (auto simp: peer_subject_def authenticate_def split: option.splits authinfo.splits list.splits)

lemma subject_set [simp]: "subject (c\<lparr>ctx_subject := Some sub\<rparr>) = Inr sub"
  by (simp add: subject_def)

definition allowed :: "'s server_Config \<Rightarrow> ctx \<Rightarrow> string \<Rightarrow> bool" where
  "allowed cfg c action \<longleftrightarrow>
     (\<exists>sub. subject c = Inr sub \<and> au_enforcer (sc_Authorizer cfg) sub objectWildcard action = Inr True)"

lemma Produce_allowed:
  "allowed cfg c produceAction \<Longrightarrow> Produce cfg c req s =
     (case cl_Append (sc_CommitLog cfg) (preq_Record req) s of
        (Inl e, s') \<Rightarrow> (Inl e, s') | (Inr offset, s') \<Rightarrow> (Inr \<lparr>pres_Offset = offset\<rparr>, s'))"
  by (auto simp: allowed_def Produce_def Authorize_iff [THEN iffD2])

lemma Consume_allowed:
  "allowed cfg c consumeAction \<Longrightarrow> Consume cfg c req s =
     (case cl_Read (sc_CommitLog cfg) (creq_Offset req) s of
        (Inl e, s') \<Rightarrow> (Inl e, s') | (Inr record, s') \<Rightarrow> (Inr \<lparr>cres_Record = record\<rparr>, s'))"
  by (auto simp: allowed_def Consume_def Authorize_iff [THEN iffD2])

lemma Produce_denied: "\<not> allowed cfg c produceAction \<Longrightarrow> \<exists>e. Produce cfg c req s = (Inl e, s)"
  by (auto simp: allowed_def Produce_def Authorize_iff [symmetric] split: sum.splits option.splits)

lemma Consume_denied: "\<not> allowed cfg c consumeAction \<Longrightarrow> \<exists>e. Consume cfg c req s = (Inl e, s)"
  by (auto simp: allowed_def Consume_def Authorize_iff [symmetric] split: sum.splits option.splits)

section \<open>The service over a log that keeps its contract\<close>

locale service = commit_log append read rep stamp fits ErrOffsetOutOfRange
  for append :: "api_Record option \<Rightarrow> 's \<Rightarrow> (goerr + u64) \<times> 's"
    and read :: "u64 \<Rightarrow> 's \<Rightarrow> (goerr + api_Record) \<times> 's"
    and rep :: "'s \<Rightarrow> nat \<Rightarrow> api_Record list \<Rightarrow> bool"
    and stamp :: "nat \<Rightarrow> api_Record option \<Rightarrow> api_Record"
    and fits :: "nat \<Rightarrow> api_Record option \<Rightarrow> bool" +
  fixes cfg :: "'s server_Config"
  assumes uses_log: "sc_CommitLog cfg = \<lparr>cl_Append = append, cl_Read = read\<rparr>"
begin

lemma Produce_rep:
  assumes "allowed cfg c produceAction" "rep s lo rs" "fits (lo + length rs) (preq_Record req)"
  shows "\<exists>s'. Produce cfg c req s = (Inr \<lparr>pres_Offset = of_nat (lo + length rs)\<rparr>, s') \<and>
    rep s' lo (rs @ [stamp (lo + length rs) (preq_Record req)])"
  using append_rep [OF assms(2,3)] Produce_allowed [OF assms(1)] by (auto simp: uses_log)

lemma Consume_hit:
  assumes "allowed cfg c consumeAction" "rep s lo rs" "lo \<le> unat (creq_Offset req)"
    "unat (creq_Offset req) < lo + length rs"
  shows "\<exists>s'. Consume cfg c req s = (Inr \<lparr>cres_Record = rs ! (unat (creq_Offset req) - lo)\<rparr>, s') \<and> rep s' lo rs"
  using read_hit [OF assms(2-4)] Consume_allowed [OF assms(1)] by (auto simp: uses_log)

lemma Consume_miss:
  assumes "allowed cfg c consumeAction" "rep s lo rs"
    "unat (creq_Offset req) < lo \<or> lo + length rs \<le> unat (creq_Offset req)"
  shows "\<exists>s'. Consume cfg c req s = (Inl (ErrOffsetOutOfRange (creq_Offset req)), s') \<and> rep s' lo rs"
  using read_miss [OF assms(2,3)] Consume_allowed [OF assms(1)] by (auto simp: uses_log)

text \<open>The responses of a produce stream carry consecutive offsets, in the order of the requests.\<close>

lemma ProduceStream_rep:
  assumes "allowed cfg c produceAction" "rep s lo qs"
    "\<forall>i < length reqs. fits (lo + length qs + i) (preq_Record (reqs ! i))"
  shows "\<exists>s'. ProduceStream cfg c (map (\<lambda>req. (Inr req, None)) reqs) s =
      (Running, map (\<lambda>i. \<lparr>pres_Offset = of_nat (lo + length qs + i)\<rparr>) [0..<length reqs], s') \<and>
    rep s' lo (qs @ stamps (lo + length qs) (map preq_Record reqs))"
  using assms(2,3)
proof (induction reqs arbitrary: s qs)
  case Nil
  then show ?case by (auto simp: stamps_def)
next
  case (Cons req reqs)
  let ?n = "lo + length qs" and ?q = "stamp (lo + length qs) (preq_Record req)"
  obtain s1 where s1: "Produce cfg c req s = (Inr \<lparr>pres_Offset = of_nat ?n\<rparr>, s1)" "rep s1 lo (qs @ [?q])"
    using Produce_rep [OF assms(1) Cons.prems(1), of req] Cons.prems(2) by fastforce
  have "\<forall>i < length reqs. fits (lo + length (qs @ [?q]) + i) (preq_Record (reqs ! i))"
    using Cons.prems(2) by fastforce
  from Cons.IH [OF s1(2) this] obtain s' where s': "ProduceStream cfg c (map (\<lambda>req. (Inr req, None)) reqs) s1 =
      (Running, map (\<lambda>i. \<lparr>pres_Offset = of_nat (lo + length (qs @ [?q]) + i)\<rparr>) [0..<length reqs], s')"
    "rep s' lo ((qs @ [?q]) @ stamps (lo + length (qs @ [?q])) (map preq_Record reqs))" by blast
  have "map (\<lambda>i. \<lparr>pres_Offset = of_nat (?n + i) :: u64\<rparr>) [0..<length (req # reqs)] =
      \<lparr>pres_Offset = of_nat ?n\<rparr> #
      map (\<lambda>i. \<lparr>pres_Offset = of_nat (lo + length (qs @ [?q]) + i)\<rparr>) [0..<length reqs]"
    by (simp add: upt_conv_Cons map_Suc_upt [symmetric] del: upt_Suc)
  with s1 s' show ?case by (simp add: stamps_Cons)
qed

text \<open>
  What other clients do between two polls may only extend the log. The stream then delivers an
  initial part of the records from the requested offset on: in order, none twice and none left out.
\<close>

definition extends :: "('s \<Rightarrow> 's) \<Rightarrow> bool" where
  "extends g \<longleftrightarrow> (\<forall>s lo rs. rep s lo rs \<longrightarrow> (\<exists>more. rep (g s) lo (rs @ more)))"

text \<open>The step of a stream on a tick that neither ends it nor fails to send: one poll, and one response at most.\<close>

lemma ConsumeStream_poll_miss:
  assumes "allowed cfg c consumeAction" "rep (tk_others t s) lo rs" "\<not> tk_done t"
    and "unat (creq_Offset req) < lo \<or> lo + length rs \<le> unat (creq_Offset req)"
  shows "\<exists>s2. ConsumeStream cfg c req (t # ts) s = ConsumeStream cfg c req ts s2 \<and> rep s2 lo rs"
  using Consume_miss [OF assms(1,2,4)] assms(3) by (auto simp: out_of_range_def)

lemma ConsumeStream_poll_hit:
  assumes "allowed cfg c consumeAction" "rep (tk_others t s) lo rs" "\<not> tk_done t" "tk_send t = None"
    and "lo \<le> unat (creq_Offset req)" "unat (creq_Offset req) < lo + length rs"
  shows "\<exists>s2. rep s2 lo rs \<and> ConsumeStream cfg c req (t # ts) s =
    (case ConsumeStream cfg c (req\<lparr>creq_Offset := creq_Offset req + 1\<rparr>) ts s2 of
       (out, sent, s') \<Rightarrow> (out, \<lparr>cres_Record = rs ! (unat (creq_Offset req) - lo)\<rparr> # sent, s'))"
  using Consume_hit [OF assms(1,2,5,6)] assms(3,4) by auto

lemma sent_step:
  assumes "lo \<le> o1" "o1 < lo + length qs" "map cres_Record sent = take k (drop (o1 + 1 - lo) (qs @ zs))"
  shows "map cres_Record (\<lparr>cres_Record = qs ! (o1 - lo)\<rparr> # sent) = take (Suc k) (drop (o1 - lo) (qs @ zs))"
proof -
  have "o1 - lo < length (qs @ zs)" "(qs @ zs) ! (o1 - lo) = qs ! (o1 - lo)" "o1 + 1 - lo = Suc (o1 - lo)"
    using assms(1,2) by (auto simp: nth_append)
  then show ?thesis using assms(3) by (simp only: list.map ConsumeResponse.select_convs take_Suc_drop)
qed

lemma ConsumeStream_rep:
  assumes "allowed cfg c consumeAction" "\<forall>t \<in> set ts. extends (tk_others t)"
    and "rep s lo rs" "lo \<le> unat (creq_Offset req)" "unat (creq_Offset req) \<le> lo + length rs"
    and bound: "\<And>s rs. rep s lo rs \<Longrightarrow> lo + length rs < 2 ^ 64"
  shows "\<exists>out sent s' more k. ConsumeStream cfg c req ts s = (out, sent, s') \<and> rep s' lo (rs @ more) \<and>
    map cres_Record sent = take k (drop (unat (creq_Offset req) - lo) (rs @ more)) \<and>
    ((\<forall>t \<in> set ts. tk_send t = None \<and> \<not> tk_done t) \<longrightarrow> out = Running \<and>
       length sent \<ge> min (length ts) (lo + length rs - unat (creq_Offset req)))"
  using assms(2-5)
proof (induction ts arbitrary: s rs req)
  case Nil
  then show ?case by (auto intro!: exI [of _ "[]"] exI [of _ 0])
next
  case (Cons t ts)
  obtain more1 where r1: "rep (tk_others t s) lo (rs @ more1)"
    using Cons.prems(1,2) unfolding extends_def by (metis list.set_intros(1))
  let ?o = "unat (creq_Offset req)" and ?qs = "rs @ more1"
  have pre: "\<forall>t \<in> set ts. extends (tk_others t)" using Cons.prems(1) by simp
  consider "tk_done t" | "\<not> tk_done t" "?o = lo + length ?qs" | e where "\<not> tk_done t" "?o < lo + length ?qs" "tk_send t = Some e"
    | "\<not> tk_done t" "?o < lo + length ?qs" "tk_send t = None"
    using Cons.prems(4) by (cases "tk_send t") fastforce+
  then show ?case
  proof cases
    case 1
    with r1 show ?thesis by (auto intro!: exI [of _ more1] exI [of _ 0])
  next
    case 2
    obtain s2 where s2: "ConsumeStream cfg c req (t # ts) s = ConsumeStream cfg c req ts s2" "rep s2 lo ?qs"
      using ConsumeStream_poll_miss [OF assms(1) r1 2(1)] 2(2) by (metis eq_refl)
    obtain out sent s' more k where IH: "ConsumeStream cfg c req ts s2 = (out, sent, s')" "rep s' lo (?qs @ more)"
      "map cres_Record sent = take k (drop (?o - lo) (?qs @ more))"
      "(\<forall>t \<in> set ts. tk_send t = None \<and> \<not> tk_done t) \<longrightarrow> out = Running"
      using Cons.IH [OF pre s2(2) Cons.prems(3) eq_imp_le [OF 2(2)]] by (elim exE conjE) (rule that, auto)
    then show ?thesis using s2(1) 2(2)
      by (intro exI [of _ out] exI [of _ sent] exI [of _ s'] exI [of _ "more1 @ more"] exI [of _ k]) simp
  next
    case (3 e)
    with Consume_hit [OF assms(1) r1 Cons.prems(3)] show ?thesis by (auto intro!: exI [of _ more1] exI [of _ 0])
  next
    case 4
    let ?req = "req\<lparr>creq_Offset := creq_Offset req + 1\<rparr>"
    obtain s2 where s2: "rep s2 lo ?qs" "ConsumeStream cfg c req (t # ts) s =
        (case ConsumeStream cfg c ?req ts s2 of (out, sent, s') \<Rightarrow> (out, \<lparr>cres_Record = ?qs ! (?o - lo)\<rparr> # sent, s'))"
      using ConsumeStream_poll_hit [OF assms(1) r1 4(1,3) Cons.prems(3) 4(2)] by blast
    have o1: "unat (creq_Offset ?req) = ?o + 1" using 4(2) bound [OF s2(1)] by (simp add: unat_u64_Suc)
    have le: "lo \<le> unat (creq_Offset ?req)" "unat (creq_Offset ?req) \<le> lo + length ?qs"
      using 4(2) Cons.prems(3) unfolding o1 by simp_all
    obtain out sent s' more k where IH: "ConsumeStream cfg c ?req ts s2 = (out, sent, s')" "rep s' lo (?qs @ more)"
      "map cres_Record sent = take k (drop (?o + 1 - lo) (?qs @ more))"
      "(\<forall>t \<in> set ts. tk_send t = None \<and> \<not> tk_done t) \<longrightarrow> out = Running \<and>
         length sent \<ge> min (length ts) (lo + length ?qs - (?o + 1))"
      using Cons.IH [OF pre s2(1) le] unfolding o1 by (elim exE conjE) (rule that)
    note step = sent_step [OF Cons.prems(3) 4(2) IH(3)]
    show ?thesis using s2(2) IH(1,2,4) step [unfolded append_assoc]
      by (intro exI [of _ out] exI [of _ "\<lparr>cres_Record = ?qs ! (?o - lo)\<rparr> # sent"] exI [of _ s']
          exI [of _ "more1 @ more"] exI [of _ "Suc k"]) auto
  qed
qed

end

text \<open>The service over the log on disk.\<close>

definition log_server :: "ext \<Rightarrow> Authorizer \<Rightarrow> (Log \<times> world \<Rightarrow> (goerr + api_Server list) \<times> Log \<times> world) \<Rightarrow>
    (Log \<times> world) server_Config" where
  "log_server x au gs = \<lparr>sc_CommitLog = \<lparr>cl_Append = CommitLog_Append x, cl_Read = CommitLog_Read x\<rparr>,
     sc_Authorizer = au, sc_GetServerer = gs\<rparr>"

interpretation lgs: service "CommitLog_Append x" "CommitLog_Read x" "log_contract x" log_stamp "log_fits x"
  "log_server x au gs" for x au gs
  by unfold_locales (simp add: log_server_def)

lemma log_contract_bound: "log_contract x s lo rs \<Longrightarrow> lo + length rs < 2 ^ 64"
  using chain_last_next [OF log_repD(1)] u64_bound
  by (cases s) (metis log_contractE)

end
