(* ===== verification/RaftStore.thy ===== *)
theory RaftStore
  imports CommitLog
begin

text \<open>
  The log store (src/internal/log/distributed.go, \<^verbatim>\<open>logStore\<close>): the log wrapped as the store in which
  Raft keeps its entries. An entry's index is not stored: it is the offset the log gives it.
\<close>

section \<open>Operations\<close>

record raft_Log =
  rl_Index :: u64
  rl_Term :: u64
  rl_Type :: u8
  rl_Data :: bytes
  rl_Extensions :: bytes
  rl_AppendedAt :: int

definition newLogStore :: "ext \<Rightarrow> string \<Rightarrow> Config \<Rightarrow> world \<Rightarrow> (goerr + Log) \<times> world" where
  "newLogStore x dir c w0 = (case NewLog x dir c w0 of
     (Some e, _, w) \<Rightarrow> (Inl e, w)
   | (None, l, w) \<Rightarrow> (Inr l, w))"

definition FirstIndex :: "Log \<Rightarrow> goerr + u64" where
  "FirstIndex l = LowestOffset l"

definition LastIndex :: "Log \<Rightarrow> goerr + u64" where
  "LastIndex l = HighestOffset l"

text \<open>
  \<^verbatim>\<open>GetLog\<close> fills the entry that it is given, except for the extensions and the time at which the
  leader appended the entry, for which a record has no fields.
\<close>

definition GetLog ::
  "ext \<Rightarrow> u64 \<Rightarrow> raft_Log \<Rightarrow> Log \<Rightarrow> world \<Rightarrow> (goerr option \<times> raft_Log) \<times> Log \<times> world" where
  "GetLog x index out l w0 = (case Log_Read x index l w0 of
     (Inl e, l', w) \<Rightarrow> ((Some e, out), l', w)
   | (Inr r, l', w) \<Rightarrow>
       ((None, out\<lparr>rl_Data := r_Value r, rl_Index := r_Offset r, rl_Type := ucast (r_Type r),
                  rl_Term := r_Term r\<rparr>), l', w))"

definition record_of :: "raft_Log \<Rightarrow> api_Record" where
  "record_of e = \<lparr>r_Value = rl_Data e, r_Offset = 0, r_Term = rl_Term e, r_Type = ucast (rl_Type e)\<rparr>"

fun StoreLogs :: "ext \<Rightarrow> raft_Log list \<Rightarrow> Log \<Rightarrow> world \<Rightarrow> goerr option \<times> Log \<times> world" where
  "StoreLogs x [] l w = (None, l, w)"
| "StoreLogs x (e # es) l w0 = (case Log_Append x (Some (record_of e)) l w0 of
     (Inl err, l', w) \<Rightarrow> (Some err, l', w)
   | (Inr _, l', w) \<Rightarrow> StoreLogs x es l' w)"

definition StoreLog :: "ext \<Rightarrow> raft_Log \<Rightarrow> Log \<Rightarrow> world \<Rightarrow> goerr option \<times> Log \<times> world" where
  "StoreLog x e l w = StoreLogs x [e] l w"

definition DeleteRange :: "ext \<Rightarrow> u64 \<Rightarrow> u64 \<Rightarrow> Log \<Rightarrow> world \<Rightarrow> goerr option \<times> Log \<times> world" where
  "DeleteRange x mn mx l w = Log_Truncate x mx l w"

section \<open>What Raft gets back\<close>

text \<open>
  The records that a list of entries becomes, from an offset on. Entries whose indices follow the
  log's offsets are recovered from their records.
\<close>

definition records_of :: "nat \<Rightarrow> raft_Log list \<Rightarrow> api_Record list" where
  "records_of n es = map (\<lambda>i. (record_of (es ! i))\<lparr>r_Offset := of_nat (n + i)\<rparr>) [0..<length es]"

lemma records_of_Cons: "records_of n (e # es) = (record_of e)\<lparr>r_Offset := of_nat n\<rparr> # records_of (Suc n) es"
  unfolding records_of_def by (simp add: upt_conv_Cons map_Suc_upt [symmetric] del: upt_Suc)

lemma length_records_of [simp]: "length (records_of n es) = length es"
  by (simp add: records_of_def)

lemma StoreLogs_rep:
  assumes "log_contract x (l, w) lo rs" "\<forall>i < length es. log_fits x (lo + length rs + i) (Some (record_of (es ! i)))"
  shows "\<exists>l' w'. StoreLogs x es l w = (None, l', w') \<and> log_contract x (l', w') lo (rs @ records_of (lo + length rs) es)"
  using assms
proof (induction es arbitrary: l w rs)
  case Nil
  then show ?case by (simp add: records_of_def)
next
  case (Cons e es)
  let ?n = "lo + length rs"
  have "log_fits x ?n (Some (record_of e))" using Cons.prems(2) by fastforce
  then obtain l1 w1 where l1: "Log_Append x (Some (record_of e)) l w = (Inr (of_nat ?n), l1, w1)"
    "log_contract x (l1, w1) lo (rs @ [(record_of e)\<lparr>r_Offset := of_nat ?n\<rparr>])"
    using Log_Append_contract [OF Cons.prems(1)] by blast
  have "\<forall>i < length es. log_fits x (lo + length (rs @ [(record_of e)\<lparr>r_Offset := of_nat ?n\<rparr>]) + i) (Some (record_of (es ! i)))"
    using Cons.prems(2) by fastforce
  from Cons.IH [OF l1(2) this] l1(1) show ?case by (auto simp: records_of_Cons)
qed

lemma type_round_trip: "ucast (ucast (t :: u8) :: u32) = t"
  by (rule bit_word_eqI) (simp add: bit_simps)

text \<open>
  The round trip: entries stored one after the other are returned by \<^verbatim>\<open>GetLog\<close>, provided their indices
  are the ones the log is about to give out, and the first and last index are right. Their extensions
  and times are lost: \<open>stored\<close> is what is left of an entry in the variable it is read into.
\<close>

definition stored :: "raft_Log \<Rightarrow> raft_Log \<Rightarrow> raft_Log" where
  "stored out e = e\<lparr>rl_Extensions := rl_Extensions out, rl_AppendedAt := rl_AppendedAt out\<rparr>"

definition consecutive :: "nat \<Rightarrow> raft_Log list \<Rightarrow> bool" where
  "consecutive n es \<longleftrightarrow> (\<forall>i < length es. rl_Index (es ! i) = of_nat (n + i))"

lemma records_of_nth:
  "i < length es \<Longrightarrow> records_of n es ! i = (record_of (es ! i))\<lparr>r_Offset := of_nat (n + i)\<rparr>"
  by (simp add: records_of_def)

lemma GetLog_rep:
  assumes "log_contract x (l, w) lo (rs @ records_of n es)" "n = lo + length rs" "consecutive n es"
    and "i < length es" "n + length es < 2 ^ 64"
  shows "\<exists>l' w'. GetLog x (rl_Index (es ! i)) out l w = ((None, stored out (es ! i)), l', w') \<and>
    log_contract x (l', w') lo (rs @ records_of n es)"
proof -
  let ?e = "es ! i"
  have idx: "rl_Index ?e = of_nat (n + i)" "unat (rl_Index ?e) = n + i"
    using assms(3-5) by (simp_all add: consecutive_def u64_of_nat del: of_nat_add)
  obtain l' w' where "Log_Read x (rl_Index ?e) l w = (Inr ((rs @ records_of n es) ! (n + i - lo)), l', w')"
    "log_contract x (l', w') lo (rs @ records_of n es)"
    using Log_Read_contract [OF assms(1), of "rl_Index ?e"] idx(2) assms(2,4) by auto
  moreover have "(rs @ records_of n es) ! (n + i - lo) = (record_of ?e)\<lparr>r_Offset := of_nat (n + i)\<rparr>"
    using assms(2,4) records_of_nth [OF assms(4)] by (simp add: nth_append)
  ultimately show ?thesis
    using idx(1) by (auto simp: GetLog_def record_of_def type_round_trip stored_def)
qed

lemma index_range_rep:
  assumes "log_contract x (l, w) lo rs"
  shows "FirstIndex l = Inr (of_nat lo)" "LastIndex l = Inr (of_nat (lo + length rs - 1))"
proof -
  obtain rss where "log_inv x l w rss" "lo = log_low l" "rs = concat rss"
    using assms by (auto simp: log_contract_def log_abs_def dest: log_repD(1))
  then show "FirstIndex l = Inr (of_nat lo)" "LastIndex l = Inr (of_nat (lo + length rs - 1))"
    using LowestOffset_rep HighestOffset_rep by (simp_all add: FirstIndex_def LastIndex_def)
qed

end
