(* ===== verification/Fsm.thy ===== *)
theory Fsm
  imports RaftStore
begin

text \<open>
  The finite-state machine that Raft drives (src/internal/log/distributed.go, \<^verbatim>\<open>fsm\<close> and
  \<^verbatim>\<open>snapshot\<close>), with the reader over the whole log that snapshots use (\<^verbatim>\<open>Reader\<close> and \<^verbatim>\<open>originReader\<close>
  of src/internal/log/log.go). The commands are serialised requests; their codec is third-party, so
  \<open>dext\<close> adds it to the parameters.
\<close>

record dext =
  dx_ext :: ext
  preq_marshal :: "ProduceRequest \<Rightarrow> goerr + bytes"
  preq_unmarshal :: "bytes \<Rightarrow> goerr + ProduceRequest"

text \<open>The protobuf documentation: a serialised message is parsed back to itself.\<close>

definition preq_codec_ok :: "dext \<Rightarrow> bool" where
  "preq_codec_ok dx \<longleftrightarrow> (\<forall>q b. preq_marshal dx q = Inr b \<longrightarrow> preq_unmarshal dx b = Inr q)"

section \<open>Applying a command\<close>

definition AppendRequestType :: u8 where
  "AppendRequestType = 0"

text \<open>\<^verbatim>\<open>Apply\<close> returns a value of any type: an error, a response or nil.\<close>

datatype fsm_resp = RespErr goerr | RespProduce ProduceResponse | RespNil

definition applyAppend :: "dext \<Rightarrow> bytes \<Rightarrow> Log \<Rightarrow> world \<Rightarrow> (goerr + fsm_resp) \<times> Log \<times> world" where
  "applyAppend dx b l w0 = (case preq_unmarshal dx b of
     Inl e \<Rightarrow> (Inr (RespErr e), l, w0)
   | Inr req \<Rightarrow> (case Log_Append (dx_ext dx) (preq_Record req) l w0 of
       (Inl e, l', w) \<Rightarrow> (if is_panic e then (Inl e, l', w) else (Inr (RespErr e), l', w))
     | (Inr offset, l', w) \<Rightarrow> (Inr (RespProduce \<lparr>pres_Offset = offset\<rparr>), l', w)))"

definition fsm_Apply :: "dext \<Rightarrow> raft_Log \<Rightarrow> Log \<Rightarrow> world \<Rightarrow> (goerr + fsm_resp) \<times> Log \<times> world" where
  "fsm_Apply dx record l w = (case rl_Data record of
     [] \<Rightarrow> (Inl (Panic ''index out of range''), l, w)
   | t # b \<Rightarrow> (if t = AppendRequestType then applyAppend dx b l w else (Inr RespNil, l, w)))"

section \<open>The reader over the whole log\<close>

record originReader =
  or_seg :: nat
  or_off :: u64

definition Log_Reader :: "Log \<Rightarrow> originReader list" where
  "Log_Reader l = map (\<lambda>a. \<lparr>or_seg = a, or_off = 0\<rparr>) (lg_segments l)"

definition originReader_Read ::
  "nat \<Rightarrow> originReader \<Rightarrow> Log \<Rightarrow> world \<Rightarrow> (bytes \<times> goerr option) \<times> originReader \<times> Log \<times> world" where
  "originReader_Read n rd l w0 =
     (let s = seg_of l (or_seg rd)
      in case store_ReadAt n (or_off rd) (sg_store s) w0 of
           ((data, err), st, w) \<Rightarrow>
             ((data, err), rd\<lparr>or_off := or_off rd + of_nat (length data)\<rparr>,
              put_seg (or_seg rd) (s\<lparr>sg_store := st\<rparr>) l, w))"

text \<open>\<^verbatim>\<open>io.MultiReader\<close>: a reader that is at its end is left behind.\<close>

fun MultiReader_Read ::
  "nat \<Rightarrow> originReader list \<Rightarrow> Log \<Rightarrow> world \<Rightarrow> (bytes \<times> goerr option) \<times> originReader list \<times> Log \<times> world" where
  "MultiReader_Read n [] l w = (([], Some EOF), [], l, w)"
| "MultiReader_Read n (rd # rds) l w0 = (case originReader_Read n rd l w0 of
     ((data, err), rd', l', w) \<Rightarrow>
       (let rest = (if err = Some EOF then rds else rd' # rds)
        in if data \<noteq> [] \<or> err \<noteq> Some EOF
           then ((data, if err = Some EOF \<and> rest \<noteq> [] then None else err), rest, l', w)
           else MultiReader_Read n rds l' w))"

section \<open>Snapshots\<close>

record snapshot = sn_reader :: "originReader list"

definition fsm_Snapshot :: "Log \<Rightarrow> snapshot" where
  "fsm_Snapshot l = \<lparr>sn_reader = Log_Reader l\<rparr>"

definition snapshot_Release :: "snapshot \<Rightarrow> unit" where
  "snapshot_Release s = ()"

text \<open>
  \<^verbatim>\<open>Restore\<close> reads the stream of a snapshot: the bytes, then the error that reading reports at the
  end, which is \<^verbatim>\<open>io.EOF\<close> unless the source fails. \<^verbatim>\<open>io.ReadFull\<close> tells an empty rest from a partial one; \<^verbatim>\<open>io.CopyN\<close> copies nothing
  when the size is negative as an \<^verbatim>\<open>int64\<close>.
\<close>

datatype stream = Stream bytes goerr

definition io_ReadFull :: "nat \<Rightarrow> stream \<Rightarrow> (goerr + bytes) \<times> stream" where
  "io_ReadFull n r = (case r of Stream bs err \<Rightarrow>
     (if n \<le> length bs then (Inr (take n bs), Stream (drop n bs) err)
      else (Inl (if bs \<noteq> [] \<and> err = EOF then ErrUnexpectedEOF else err), Stream [] err)))"

definition io_CopyN :: "u64 \<Rightarrow> stream \<Rightarrow> (goerr + bytes) \<times> stream" where
  "io_CopyN sz r = (case r of Stream bs err \<Rightarrow>
     (if sint sz \<le> 0 then (Inr [], r)
      else if unat sz \<le> length bs then (Inr (take (unat sz) bs), Stream (drop (unat sz) bs) err)
      else (Inl err, Stream [] err)))"

fun stream_len :: "stream \<Rightarrow> nat" where
  "stream_len (Stream bs err) = length bs"

lemma io_ReadFull_len: "io_ReadFull n r = (Inr b, r') \<Longrightarrow> stream_len r = stream_len r' + n"
  by (cases r) (auto simp: io_ReadFull_def split: if_splits)

lemma io_CopyN_len: "io_CopyN sz r = (Inr b, r') \<Longrightarrow> stream_len r' \<le> stream_len r"
  by (cases r) (auto simp: io_CopyN_def split: if_splits)

function Restore_loop :: "ext \<Rightarrow> nat \<Rightarrow> stream \<Rightarrow> Log \<Rightarrow> world \<Rightarrow> goerr option \<times> Log \<times> world" where
  "Restore_loop x i r l w = (case io_ReadFull recordLenBytes r of
     (Inl e, _) \<Rightarrow> (if e = EOF then (None, l, w) else (Some e, l, w))
   | (Inr b, r1) \<Rightarrow> (case io_CopyN (Uint64 b) r1 of
       (Inl e, _) \<Rightarrow> (Some e, l, w)
     | (Inr buf, r2) \<Rightarrow> (case unmarshal x buf of
         Inl e \<Rightarrow> (Some e, l, w)
       | Inr record \<Rightarrow>
           (case (if i = 0
                  then Log_Reset x (l\<lparr>lg_Config := (lg_Config l)\<lparr>InitialOffset := r_Offset record\<rparr>\<rparr>) w
                  else (None, l, w)) of
              (Some e, l1, w1) \<Rightarrow> (Some e, l1, w1)
            | (None, l1, w1) \<Rightarrow> (case Log_Append x (Some record) l1 w1 of
                (Inl e, l2, w2) \<Rightarrow> (Some e, l2, w2)
              | (Inr _, l2, w2) \<Rightarrow> Restore_loop x (Suc i) r2 l2 w2)))))"
  by pat_completeness auto
termination Restore_loop
proof (relation "measure (\<lambda>(x, i, r, l, w). stream_len r)", goal_cases)
  case (2 x i r l w res r1 b res2 r2 buf)
  then have "io_ReadFull recordLenBytes r = (Inr b, r1)" "io_CopyN (Uint64 b) r1 = (Inr buf, r2)" by simp_all
  then show ?case by (auto dest!: io_ReadFull_len io_CopyN_len simp: recordLenBytes_def)
qed simp

declare Restore_loop.simps [simp del]

definition fsm_Restore :: "ext \<Rightarrow> stream \<Rightarrow> Log \<Rightarrow> world \<Rightarrow> goerr option \<times> Log \<times> world" where
  "fsm_Restore x r l w = Restore_loop x 0 r l w"

section \<open>Restoring fails\<close>

lemma Log_Reset_error:
  obtains e l' w' where "Log_Reset x l w = (Some e, l', w')"
  using Log_Reset_fails [of x l w] by (cases "Log_Reset x l w") auto

text \<open>
  Because \<^verbatim>\<open>Reset\<close> always fails, restoring succeeds on the empty snapshot only, and then leaves the log
  as it is.
\<close>

lemma fsm_Restore_iff:
  "fst (fsm_Restore x (Stream bs err) l w) = None \<longleftrightarrow> bs = [] \<and> err = EOF"
proof (cases "io_ReadFull recordLenBytes (Stream bs err)")
  case (Pair res r1)
  show ?thesis
  proof (cases res)
    case (Inl e)
    with Pair have "e = EOF \<longleftrightarrow> bs = [] \<and> err = EOF"
      by (auto simp: io_ReadFull_def split: if_splits)
    with Pair Inl show ?thesis by (subst fsm_Restore_def, subst Restore_loop.simps) simp
  next
    case b: (Inr b)
    with Pair have "bs \<noteq> []" by (auto simp: io_ReadFull_def recordLenBytes_def split: if_splits)
    moreover have "fst (fsm_Restore x (Stream bs err) l w) \<noteq> None"
    proof -
      obtain res2 r2 where 2: "io_CopyN (Uint64 b) r1 = (res2, r2)" by (cases "io_CopyN (Uint64 b) r1")
      note unf = fsm_Restore_def Restore_loop.simps [of x 0] Pair b 2
      show ?thesis
      proof (cases res2)
        case buf: (Inr buf)
        show ?thesis
        proof (cases "unmarshal x buf")
          case (Inr r)
          obtain e l1 w1 where
            "Log_Reset x (l\<lparr>lg_Config := (lg_Config l)\<lparr>InitialOffset := r_Offset r\<rparr>\<rparr>) w = (Some e, l1, w1)"
            by (rule Log_Reset_error)
          with buf Inr show ?thesis by (simp add: unf)
        qed (use buf in \<open>simp add: unf\<close>)
      qed (simp add: unf)
    qed
    ultimately show ?thesis by simp
  qed
qed

section \<open>The state machine\<close>

text \<open>
  The specification of \<^verbatim>\<open>Apply\<close> over the abstract log: the response to a command and the records
  afterwards. \<open>cmd_ok\<close> says of a command that it has a type byte and that an append request in it
  carries a record the log can store.
\<close>

definition cmd_ok :: "dext \<Rightarrow> nat \<Rightarrow> raft_Log \<Rightarrow> bool" where
  "cmd_ok dx n e \<longleftrightarrow> (case rl_Data e of [] \<Rightarrow> False | t # b \<Rightarrow>
     (t = AppendRequestType \<longrightarrow> (case preq_unmarshal dx b of Inl _ \<Rightarrow> True
        | Inr req \<Rightarrow> log_fits (dx_ext dx) n (preq_Record req))))"

definition spec_apply :: "dext \<Rightarrow> nat \<Rightarrow> raft_Log \<Rightarrow> api_Record list \<Rightarrow> fsm_resp \<times> api_Record list" where
  "spec_apply dx lo e rs = (case rl_Data e of [] \<Rightarrow> (RespNil, rs) | t # b \<Rightarrow>
     (if t = AppendRequestType then
        (case preq_unmarshal dx b of Inl err \<Rightarrow> (RespErr err, rs)
         | Inr req \<Rightarrow> (RespProduce \<lparr>pres_Offset = of_nat (lo + length rs)\<rparr>,
                       rs @ [log_stamp (lo + length rs) (preq_Record req)]))
      else (RespNil, rs)))"

lemma fsm_Apply_spec:
  assumes c: "log_contract (dx_ext dx) (l, w) lo rs" and ok: "cmd_ok dx (lo + length rs) e"
  shows "\<exists>l' w'. fsm_Apply dx e l w = (Inr (fst (spec_apply dx lo e rs)), l', w') \<and>
    log_contract (dx_ext dx) (l', w') lo (snd (spec_apply dx lo e rs))"
proof (cases "rl_Data e")
  case Nil
  with ok show ?thesis by (simp add: cmd_ok_def)
next
  case (Cons t b)
  show ?thesis
  proof (cases "t = AppendRequestType")
    case True
    show ?thesis
    proof (cases "preq_unmarshal dx b")
      case (Inr req)
      then have fits: "log_fits (dx_ext dx) (lo + length rs) (preq_Record req)"
        using ok Cons True by (simp add: cmd_ok_def)
      then obtain r where r: "preq_Record req = Some r" by (auto simp: log_fits_def split: option.splits)
      from Log_Append_contract [OF c fits [unfolded r]] obtain l' w' where
        "Log_Append (dx_ext dx) (Some r) l w = (Inr (of_nat (lo + length rs)), l', w')"
        "log_contract (dx_ext dx) (l', w') lo (rs @ [r\<lparr>r_Offset := of_nat (lo + length rs)\<rparr>])" by blast
      with Cons True Inr r show ?thesis
        by (simp add: fsm_Apply_def applyAppend_def spec_apply_def log_stamp_def)
    qed (use Cons True c in \<open>simp add: fsm_Apply_def applyAppend_def spec_apply_def\<close>)
  qed (use Cons c in \<open>simp add: fsm_Apply_def spec_apply_def\<close>)
qed

text \<open>Raft applies the committed entries in the order of the log.\<close>

fun fsm_run :: "dext \<Rightarrow> raft_Log list \<Rightarrow> Log \<Rightarrow> world \<Rightarrow> (goerr + fsm_resp list) \<times> Log \<times> world" where
  "fsm_run dx [] l w = (Inr [], l, w)"
| "fsm_run dx (e # es) l w0 = (case fsm_Apply dx e l w0 of
     (Inl p, l', w) \<Rightarrow> (Inl p, l', w)
   | (Inr resp, l', w) \<Rightarrow> (case fsm_run dx es l' w of
       (Inl p, l'', w') \<Rightarrow> (Inl p, l'', w')
     | (Inr resps, l'', w') \<Rightarrow> (Inr (resp # resps), l'', w')))"

fun spec_run :: "dext \<Rightarrow> nat \<Rightarrow> raft_Log list \<Rightarrow> api_Record list \<Rightarrow> fsm_resp list \<times> api_Record list" where
  "spec_run dx lo [] rs = ([], rs)"
| "spec_run dx lo (e # es) rs =
     (case spec_apply dx lo e rs of (resp, rs') \<Rightarrow>
        (case spec_run dx lo es rs' of (resps, rs'') \<Rightarrow> (resp # resps, rs'')))"

fun cmds_ok :: "dext \<Rightarrow> nat \<Rightarrow> raft_Log list \<Rightarrow> api_Record list \<Rightarrow> bool" where
  "cmds_ok dx lo [] rs \<longleftrightarrow> True"
| "cmds_ok dx lo (e # es) rs \<longleftrightarrow>
     cmd_ok dx (lo + length rs) e \<and> cmds_ok dx lo es (snd (spec_apply dx lo e rs))"

lemma fsm_run_spec:
  assumes "log_contract (dx_ext dx) (l, w) lo rs" "cmds_ok dx lo es rs"
  shows "\<exists>l' w'. fsm_run dx es l w = (Inr (fst (spec_run dx lo es rs)), l', w') \<and>
    log_contract (dx_ext dx) (l', w') lo (snd (spec_run dx lo es rs))"
  using assms
proof (induction es arbitrary: l w rs)
  case (Cons e es)
  let ?rs = "snd (spec_apply dx lo e rs)"
  obtain l1 w1 where 1: "fsm_Apply dx e l w = (Inr (fst (spec_apply dx lo e rs)), l1, w1)"
    "log_contract (dx_ext dx) (l1, w1) lo ?rs"
    using fsm_Apply_spec [OF Cons.prems(1), of e] Cons.prems(2) unfolding cmds_ok.simps by blast
  have "cmds_ok dx lo es ?rs" using Cons.prems(2) by simp
  from Cons.IH [OF 1(2) this] 1(1) show ?case by (auto split: prod.splits)
qed simp

text \<open>The values that a sequence of commands appends, in order.\<close>

definition cmd_value :: "dext \<Rightarrow> raft_Log \<Rightarrow> bytes list" where
  "cmd_value dx e = (case rl_Data e of [] \<Rightarrow> [] | t # b \<Rightarrow>
     (if t = AppendRequestType then
        (case preq_unmarshal dx b of Inl _ \<Rightarrow> [] | Inr req \<Rightarrow> [r_Value (the (preq_Record req))])
      else []))"

definition cmd_values :: "dext \<Rightarrow> raft_Log list \<Rightarrow> bytes list" where
  "cmd_values dx es = concat (map (cmd_value dx) es)"

lemma spec_run_values: "map r_Value (snd (spec_run dx lo es rs)) = map r_Value rs @ cmd_values dx es"
proof (induction es arbitrary: rs)
  case (Cons e es)
  have "map r_Value (snd (spec_apply dx lo e rs)) = map r_Value rs @ cmd_value dx e"
    by (simp add: spec_apply_def cmd_value_def log_stamp_def split: list.split sum.split)
  then show ?case using Cons.IH [of "snd (spec_apply dx lo e rs)"] by (simp add: cmd_values_def case_prod_beta)
qed (simp add: cmd_values_def)

end
