(* ===== verification/Distributed.thy ===== *)
theory Distributed
  imports Fsm
begin

text \<open>
  The distributed log (src/internal/log/distributed.go, \<^verbatim>\<open>DistributedLog\<close>): appends go through Raft to
  the state machine, reads are local, and membership changes are passed on to Raft. Raft is a
  third-party library: the record \<open>raftlib\<close> holds the calls that the code makes, over a state \<open>'r\<close> of
  the library. What is known of them are the predicates \<open>raft_ok\<close> and \<open>raft_conf_ok\<close>.
\<close>

section \<open>The library and the state\<close>

record raft_Config =
  rc_LocalID :: string
  rc_HeartbeatTimeout :: int
  rc_ElectionTimeout :: int
  rc_LeaderLeaseTimeout :: int
  rc_CommitTimeout :: int

record dlog_Config =
  dc_Segment :: Config
  dc_Raft :: raft_Config
  dc_BindAddr :: string
  dc_Bootstrap :: bool

record 'r raftlib =
  rf_Apply :: "bytes \<Rightarrow> 'r \<times> Log \<times> world \<Rightarrow> (goerr + fsm_resp) \<times> 'r \<times> Log \<times> world"
  rf_GetConfiguration :: "'r \<Rightarrow> (goerr + (string \<times> string) list) \<times> 'r"
  rf_RemoveServer :: "string \<Rightarrow> 'r \<Rightarrow> goerr option \<times> 'r"
  rf_AddVoter :: "string \<Rightarrow> string \<Rightarrow> 'r \<Rightarrow> goerr option \<times> 'r"
  rf_Leader :: "'r \<Rightarrow> string"
  rf_Shutdown :: "'r \<Rightarrow> goerr option \<times> 'r"
  rf_DefaultConfig :: raft_Config
  rf_NewBoltStore :: "string \<Rightarrow> world \<Rightarrow> goerr option \<times> world"
  rf_NewFileSnapshotStore :: "string \<Rightarrow> nat \<Rightarrow> world \<Rightarrow> goerr option \<times> world"
  rf_NewRaft :: "raft_Config \<Rightarrow> Log \<Rightarrow> Log \<Rightarrow> world \<Rightarrow> (goerr + 'r) \<times> world"
  rf_HasExistingState :: "'r \<Rightarrow> goerr + bool"
  rf_BootstrapCluster :: "(string \<times> string) list \<Rightarrow> 'r \<Rightarrow> goerr option \<times> 'r"

text \<open>The state machine and the distributed log share the log by pointer, so it appears once.\<close>

record 'r DistributedLog =
  dl_config :: dlog_Config
  dl_log :: Log
  dl_raft :: 'r

section \<open>Setting up\<close>

definition DistributedLog_setupLog :: "ext \<Rightarrow> string \<Rightarrow> dlog_Config \<Rightarrow> world \<Rightarrow> (goerr + Log) \<times> world" where
  "DistributedLog_setupLog x dataDir c w0 =
     (let logDir = path_Join [dataDir, ''log'']
      in case os_MkdirAll logDir w0 of
           (Some e, w) \<Rightarrow> (Inl e, w)
         | (None, w) \<Rightarrow> (case NewLog x logDir (dc_Segment c) w of
             (Some e, _, w1) \<Rightarrow> (Inl e, w1)
           | (None, l, w1) \<Rightarrow> (Inr l, w1)))"

text \<open>Timeouts that are set in the configuration replace the library's defaults.\<close>

definition raft_settings :: "raft_Config \<Rightarrow> raft_Config \<Rightarrow> raft_Config" where
  "raft_settings dflt c =
     (let c0 = dflt\<lparr>rc_LocalID := rc_LocalID c\<rparr>;
          c1 = (if rc_HeartbeatTimeout c \<noteq> 0 then c0\<lparr>rc_HeartbeatTimeout := rc_HeartbeatTimeout c\<rparr> else c0);
          c2 = (if rc_ElectionTimeout c \<noteq> 0 then c1\<lparr>rc_ElectionTimeout := rc_ElectionTimeout c\<rparr> else c1);
          c3 = (if rc_LeaderLeaseTimeout c \<noteq> 0 then c2\<lparr>rc_LeaderLeaseTimeout := rc_LeaderLeaseTimeout c\<rparr> else c2)
      in if rc_CommitTimeout c \<noteq> 0 then c3\<lparr>rc_CommitTimeout := rc_CommitTimeout c\<rparr> else c3)"

definition setupRaft ::
  "ext \<Rightarrow> 'r raftlib \<Rightarrow> string \<Rightarrow> dlog_Config \<Rightarrow> Log \<Rightarrow> world \<Rightarrow> (goerr + 'r) \<times> world" where
  "setupRaft x rf dataDir c l w0 =
     (let logDir = path_Join [dataDir, ''raft'', ''log''];
          logConfig = (dc_Segment c)\<lparr>InitialOffset := 1\<rparr>
      in case os_MkdirAll logDir w0 of
           (Some e, w1) \<Rightarrow> (Inl e, w1)
         | (None, w1) \<Rightarrow> (case newLogStore x logDir logConfig w1 of
             (Inl e, w2) \<Rightarrow> (Inl e, w2)
           | (Inr logStore, w2) \<Rightarrow> (case rf_NewBoltStore rf (path_Join [dataDir, ''raft'', ''stable'']) w2 of
               (Some e, w3) \<Rightarrow> (Inl e, w3)
             | (None, w3) \<Rightarrow> (case rf_NewFileSnapshotStore rf (path_Join [dataDir, ''raft'']) 1 w3 of
                 (Some e, w4) \<Rightarrow> (Inl e, w4)
               | (None, w4) \<Rightarrow>
                   (let config = raft_settings (rf_DefaultConfig rf) (dc_Raft c)
                    in case rf_NewRaft rf config l logStore w4 of
                         (Inl e, w5) \<Rightarrow> (Inl e, w5)
                       | (Inr r, w5) \<Rightarrow> (case rf_HasExistingState rf r of
                           Inl e \<Rightarrow> (Inl e, w5)
                         | Inr hasState \<Rightarrow>
                             (if dc_Bootstrap c \<and> \<not> hasState then
                                (case rf_BootstrapCluster rf [(rc_LocalID config, dc_BindAddr c)] r of
                                   (Some e, _) \<Rightarrow> (Inl e, w5)
                                 | (None, r') \<Rightarrow> (Inr r', w5))
                              else (Inr r, w5))))))))"

definition NewDistributedLog ::
  "ext \<Rightarrow> 'r raftlib \<Rightarrow> string \<Rightarrow> dlog_Config \<Rightarrow> world \<Rightarrow> (goerr + 'r DistributedLog) \<times> world" where
  "NewDistributedLog x rf dataDir c w0 = (case DistributedLog_setupLog x dataDir c w0 of
     (Inl e, w) \<Rightarrow> (Inl e, w)
   | (Inr l, w) \<Rightarrow> (case setupRaft x rf dataDir c l w of
       (Inl e, w1) \<Rightarrow> (Inl e, w1)
     | (Inr r, w1) \<Rightarrow> (Inr \<lparr>dl_config = c, dl_log = l, dl_raft = r\<rparr>, w1)))"

section \<open>Appending and reading\<close>

definition DistributedLog_apply ::
  "dext \<Rightarrow> 'r raftlib \<Rightarrow> u8 \<Rightarrow> ProduceRequest \<Rightarrow> 'r DistributedLog \<Rightarrow> world \<Rightarrow>
     (goerr + fsm_resp) \<times> 'r DistributedLog \<times> world" where
  "DistributedLog_apply dx rf reqType req d w0 = (case preq_marshal dx req of
     Inl e \<Rightarrow> (Inl e, d, w0)
   | Inr b \<Rightarrow> (case rf_Apply rf (reqType # b) (dl_raft d, dl_log d, w0) of
       (res, r, l, w) \<Rightarrow>
         (let d' = d\<lparr>dl_raft := r, dl_log := l\<rparr>
          in case res of
               Inl e \<Rightarrow> (Inl e, d', w)
             | Inr (RespErr e) \<Rightarrow> (Inl e, d', w)
             | Inr resp \<Rightarrow> (Inr resp, d', w))))"

definition DistributedLog_Append ::
  "dext \<Rightarrow> 'r raftlib \<Rightarrow> api_Record option \<Rightarrow> 'r DistributedLog \<Rightarrow> world \<Rightarrow>
     (goerr + u64) \<times> 'r DistributedLog \<times> world" where
  "DistributedLog_Append dx rf record d w0 =
     (case DistributedLog_apply dx rf AppendRequestType \<lparr>preq_Record = record\<rparr> d w0 of
        (Inl e, d', w) \<Rightarrow> (Inl e, d', w)
      | (Inr (RespProduce res), d', w) \<Rightarrow> (Inr (pres_Offset res), d', w)
      | (Inr _, d', w) \<Rightarrow> (Inl (Panic ''interface conversion''), d', w))"

definition DistributedLog_Read ::
  "ext \<Rightarrow> u64 \<Rightarrow> 'r DistributedLog \<Rightarrow> world \<Rightarrow> (goerr + api_Record) \<times> 'r DistributedLog \<times> world" where
  "DistributedLog_Read x offset d w0 = (case Log_Read x offset (dl_log d) w0 of
     (res, l, w) \<Rightarrow> (res, d\<lparr>dl_log := l\<rparr>, w))"

section \<open>Membership\<close>

text \<open>\<^verbatim>\<open>Join\<close> walks over the servers that the configuration had when it was read.\<close>

fun Join_loop :: "'r raftlib \<Rightarrow> string \<Rightarrow> string \<Rightarrow> (string \<times> string) list \<Rightarrow> 'r \<Rightarrow> goerr option \<times> 'r" where
  "Join_loop rf serverID serverAddr [] r = rf_AddVoter rf serverID serverAddr r"
| "Join_loop rf serverID serverAddr ((sid, saddr) # srvs) r =
     (if sid = serverID \<or> saddr = serverAddr then
        (if sid = serverID \<and> saddr = serverAddr then (None, r)
         else (case rf_RemoveServer rf serverID r of
                 (Some e, r') \<Rightarrow> (Some e, r')
               | (None, r') \<Rightarrow> Join_loop rf serverID serverAddr srvs r'))
      else Join_loop rf serverID serverAddr srvs r)"

definition DistributedLog_Join ::
  "'r raftlib \<Rightarrow> string \<Rightarrow> string \<Rightarrow> 'r DistributedLog \<Rightarrow> goerr option \<times> 'r DistributedLog" where
  "DistributedLog_Join rf ident addr d = (case rf_GetConfiguration rf (dl_raft d) of
     (Inl e, r) \<Rightarrow> (Some e, d\<lparr>dl_raft := r\<rparr>)
   | (Inr servers, r) \<Rightarrow>
       (case Join_loop rf ident addr servers r of (err, r') \<Rightarrow> (err, d\<lparr>dl_raft := r'\<rparr>)))"

definition DistributedLog_Leave :: "'r raftlib \<Rightarrow> string \<Rightarrow> 'r DistributedLog \<Rightarrow> goerr option \<times> 'r DistributedLog" where
  "DistributedLog_Leave rf ident d =
     (case rf_RemoveServer rf ident (dl_raft d) of (err, r) \<Rightarrow> (err, d\<lparr>dl_raft := r\<rparr>))"

definition DistributedLog_GetServers ::
  "'r raftlib \<Rightarrow> 'r DistributedLog \<Rightarrow> (goerr + api_Server list) \<times> 'r DistributedLog" where
  "DistributedLog_GetServers rf d = (case rf_GetConfiguration rf (dl_raft d) of
     (Inl e, r) \<Rightarrow> (Inl e, d\<lparr>dl_raft := r\<rparr>)
   | (Inr servers, r) \<Rightarrow>
       (Inr (map (\<lambda>(sid, saddr). \<lparr>srv_Id = sid, srv_RpcAddr = saddr, srv_IsLeader = (rf_Leader rf r = saddr)\<rparr>)
               servers), d\<lparr>dl_raft := r\<rparr>))"

text \<open>
  \<^verbatim>\<open>WaitForLeader\<close> reacts to the timer and to the ticker; the list holds what fires, and the state of
  Raft at that moment. When nothing more fires, it is still waiting.
\<close>

datatype 'r wait_event = Timeout | Tick 'r

fun WaitForLeader :: "'r raftlib \<Rightarrow> 'r wait_event list \<Rightarrow> goerr option option" where
  "WaitForLeader rf [] = None"
| "WaitForLeader rf (Timeout # evs) = Some (Some (Errorf ''timed out''))"
| "WaitForLeader rf (Tick r # evs) = (if rf_Leader rf r \<noteq> '''' then Some None else WaitForLeader rf evs)"

definition DistributedLog_Close ::
  "ext \<Rightarrow> 'r raftlib \<Rightarrow> 'r DistributedLog \<Rightarrow> world \<Rightarrow> goerr option \<times> 'r DistributedLog \<times> world" where
  "DistributedLog_Close x rf d w0 = (case rf_Shutdown rf (dl_raft d) of
     (Some e, r) \<Rightarrow> (Some e, d\<lparr>dl_raft := r\<rparr>, w0)
   | (None, r) \<Rightarrow> (case Log_Close x (dl_log d) w0 of
       (err, l, w) \<Rightarrow> (err, d\<lparr>dl_raft := r, dl_log := l\<rparr>, w)))"

section \<open>What the library promises\<close>

text \<open>
  On a leader, \<^verbatim>\<open>Apply\<close> commits the command and returns what the state machine answered (\<open>lead\<close>: the
  library's state is that of a leader that reaches its followers). Before and after the state machine
  runs, Raft writes to its own files, its log store among them, but not to the directory of the log.
\<close>

definition raft_ok :: "dext \<Rightarrow> 'r raftlib \<Rightarrow> ('r \<Rightarrow> bool) \<Rightarrow> bool" where
  "raft_ok dx rf lead \<longleftrightarrow> (\<forall>r l w e. lead r \<longrightarrow> (\<exists>w1. undisturbed (lg_Dir l) w w1 \<and>
     (\<forall>resp l' w2. fsm_Apply dx e l w1 = (Inr resp, l', w2) \<longrightarrow>
        (\<exists>r' w'. rf_Apply rf (rl_Data e) (r, l, w) = (Inr resp, r', l', w') \<and> lead r' \<and> undisturbed (lg_Dir l') w2 w'))))"

text \<open>A server that is not the leader says so when it is asked to change the configuration.\<close>

definition raft_ErrNotLeader :: goerr where
  "raft_ErrNotLeader = Extern ''node is not the leader''"

text \<open>
  The configuration of a leader is a list of servers with distinct identifiers and addresses, none of
  which is empty, and the leader \<open>self\<close> is one of them. Removing another server drops the entry with its
  identifier, if there is one. A voter with a new identifier is added at the end, unless its
  identifier or its address is empty or its address belongs to another server: then it is refused,
  as by Raft's check of a new configuration. (Another check, that a voter is left, cannot fail while
  \<open>self\<close> stays.)
\<close>

definition raft_conf_ok ::
  "'r raftlib \<Rightarrow> ('r \<Rightarrow> bool) \<Rightarrow> string \<Rightarrow> ('r \<Rightarrow> (string \<times> string) list) \<Rightarrow> bool" where
  "raft_conf_ok rf lead self conf \<longleftrightarrow> (\<forall>r. lead r \<longrightarrow>
     rf_GetConfiguration rf r = (Inr (conf r), r) \<and>
     distinct (map fst (conf r)) \<and> distinct (map snd (conf r)) \<and> self \<in> fst ` set (conf r) \<and>
     '''' \<notin> fst ` set (conf r) \<and> '''' \<notin> snd ` set (conf r) \<and>
     (\<forall>i. i \<noteq> self \<longrightarrow> (\<exists>r'. rf_RemoveServer rf i r = (None, r') \<and> conf r' = filter (\<lambda>s. fst s \<noteq> i) (conf r) \<and> lead r')) \<and>
     (\<forall>i a. i \<notin> fst ` set (conf r) \<longrightarrow>
        (if i = '''' \<or> a = '''' \<or> a \<in> snd ` set (conf r) then \<exists>e. e \<noteq> raft_ErrNotLeader \<and> rf_AddVoter rf i a r = (Some e, r)
         else \<exists>r'. rf_AddVoter rf i a r = (None, r') \<and> conf r' = conf r @ [(i, a)] \<and> lead r')))"

lemma raft_conf_okD:
  assumes "raft_conf_ok rf lead self conf" "lead r"
  shows "rf_GetConfiguration rf r = (Inr (conf r), r)"
    and "distinct (map fst (conf r))" and "distinct (map snd (conf r))" and "self \<in> fst ` set (conf r)"
    and "i \<noteq> self \<Longrightarrow> \<exists>r'. rf_RemoveServer rf i r = (None, r') \<and> conf r' = filter (\<lambda>s. fst s \<noteq> i) (conf r) \<and> lead r'"
    and "i \<notin> fst ` set (conf r) \<Longrightarrow>
      if i = '''' \<or> a = '''' \<or> a \<in> snd ` set (conf r) then \<exists>e. e \<noteq> raft_ErrNotLeader \<and> rf_AddVoter rf i a r = (Some e, r)
      else \<exists>r'. rf_AddVoter rf i a r = (None, r') \<and> conf r' = conf r @ [(i, a)] \<and> lead r'"
  using assms unfolding raft_conf_ok_def by meson+

text \<open>A server that is not the leader knows the configuration but cannot change it.\<close>

definition raft_follower_ok :: "'r raftlib \<Rightarrow> ('r \<Rightarrow> bool) \<Rightarrow> ('r \<Rightarrow> (string \<times> string) list) \<Rightarrow> bool" where
  "raft_follower_ok rf follow conf \<longleftrightarrow> (\<forall>r. follow r \<longrightarrow> rf_GetConfiguration rf r = (Inr (conf r), r) \<and>
     (\<forall>i. rf_RemoveServer rf i r = (Some raft_ErrNotLeader, r)) \<and>
     (\<forall>i a. rf_AddVoter rf i a r = (Some raft_ErrNotLeader, r)))"

section \<open>Joining the cluster\<close>

text \<open>
  What joining means for the configuration: a server that is known with its address stays where it
  is. Otherwise an entry with the same identifier is removed, and the server comes to the end unless
  its identifier or its address is empty or another server holds the address. A server that is
  refused has then lost its old entry.
\<close>

definition refused :: "string \<Rightarrow> string \<Rightarrow> (string \<times> string) list \<Rightarrow> bool" where
  "refused i a c \<longleftrightarrow> (i, a) \<notin> set c \<and> (i = '''' \<or> a = '''' \<or> (\<exists>s \<in> set c. fst s \<noteq> i \<and> snd s = a))"

definition spec_join :: "string \<Rightarrow> string \<Rightarrow> (string \<times> string) list \<Rightarrow> (string \<times> string) list" where
  "spec_join i a c = (if (i, a) \<in> set c then c
     else if refused i a c then filter (\<lambda>s. fst s \<noteq> i) c
     else filter (\<lambda>s. fst s \<noteq> i) c @ [(i, a)])"

text \<open>The loop ends at the known server, or it removes the identifier where something matches and adds the voter.\<close>

lemma Join_loop_known:
  assumes "(i, a) \<in> set xs" "distinct (map fst xs)" "distinct (map snd xs)"
  shows "Join_loop rf i a xs r = (None, r)"
  using assms by (induction xs) (auto simp: image_iff, (metis fst_conv snd_conv)+)

lemma Join_loop_new:
  assumes ok: "raft_conf_ok rf lead self conf" and i: "i \<noteq> self" and "(i, a) \<notin> set xs" and "lead r"
  shows "\<exists>r'. Join_loop rf i a xs r = rf_AddVoter rf i a r' \<and> lead r' \<and>
    conf r' = (if \<exists>s \<in> set xs. fst s = i \<or> snd s = a then filter (\<lambda>s. fst s \<noteq> i) (conf r) else conf r)"
  using assms(3,4)
proof (induction xs arbitrary: r)
  case (Cons s xs)
  show ?case
  proof (cases "fst s = i \<or> snd s = a")
    case True
    obtain r1 where r1: "rf_RemoveServer rf i r = (None, r1)" "conf r1 = filter (\<lambda>s. fst s \<noteq> i) (conf r)" "lead r1"
      using raft_conf_okD(5) [OF ok Cons.prems(2) i] by blast
    have "\<not> (fst s = i \<and> snd s = a)" using Cons.prems(1) by (metis list.set_intros(1) prod.collapse)
    then have "Join_loop rf i a (s # xs) r = Join_loop rf i a xs r1" using True r1(1) by (cases s) auto
    moreover obtain r' where "Join_loop rf i a xs r1 = rf_AddVoter rf i a r'" "lead r'"
      "conf r' = (if \<exists>s \<in> set xs. fst s = i \<or> snd s = a then filter (\<lambda>s. fst s \<noteq> i) (conf r1) else conf r1)"
      using Cons.IH [OF _ r1(3)] Cons.prems(1) by auto
    ultimately show ?thesis using True r1(2) by (intro exI [of _ r']) auto
  next
    case False
    then have "Join_loop rf i a (s # xs) r = Join_loop rf i a xs r" by (cases s) simp
    then show ?thesis using Cons False by simp
  qed
qed auto

lemma Join_conf:
  assumes ok: "raft_conf_ok rf lead self conf" and l: "lead (dl_raft d)" and i: "i \<noteq> self"
  shows "\<exists>res r. DistributedLog_Join rf i a d = (res, d\<lparr>dl_raft := r\<rparr>) \<and> lead r \<and>
    conf r = spec_join i a (conf (dl_raft d)) \<and>
    (if refused i a (conf (dl_raft d)) then \<exists>e. res = Some e \<and> e \<noteq> raft_ErrNotLeader else res = None)"
proof -
  let ?c = "conf (dl_raft d)"
  note D = raft_conf_okD [OF ok l]
  have join: "DistributedLog_Join rf i a d =
      (case Join_loop rf i a ?c (dl_raft d) of (err, r) \<Rightarrow> (err, d\<lparr>dl_raft := r\<rparr>))"
    by (simp add: DistributedLog_Join_def D(1))
  show ?thesis
  proof (cases "(i, a) \<in> set ?c")
    case True
    then show ?thesis
      unfolding join Join_loop_known [OF True D(2,3)] using l
      by (intro exI [of _ None] exI [of _ "dl_raft d"]) (simp add: spec_join_def refused_def)
  next
    case False
    obtain r where r: "Join_loop rf i a ?c (dl_raft d) = rf_AddVoter rf i a r" "lead r"
      "conf r = (if \<exists>s \<in> set ?c. fst s = i \<or> snd s = a then filter (\<lambda>s. fst s \<noteq> i) ?c else ?c)"
      using Join_loop_new [OF ok i False l] by blast
    have c: "conf r = filter (\<lambda>s. fst s \<noteq> i) ?c" using r(3) by (auto intro!: filter_True [symmetric])
    then have "i \<notin> fst ` set (conf r)" by auto
    note add = raft_conf_okD(6) [OF ok r(2) this, of a]
    have iff: "refused i a ?c \<longleftrightarrow> i = '''' \<or> a = '''' \<or> a \<in> snd ` set (conf r)"
      using False unfolding c refused_def by auto
    show ?thesis
    proof (cases "refused i a ?c")
      case True
      then obtain e where "e \<noteq> raft_ErrNotLeader" "rf_AddVoter rf i a r = (Some e, r)" using add iff by auto
      then show ?thesis using True False r(1,2) c join by (auto simp: spec_join_def)
    next
      case ok: False
      then obtain r' where "rf_AddVoter rf i a r = (None, r')" "conf r' = conf r @ [(i, a)]" "lead r'" using add iff by auto
      then show ?thesis using ok False r(1) c join by (auto simp: spec_join_def)
    qed
  qed
qed

text \<open>
  A new identifier at an address that the configuration already knows: the code asks Raft to remove
  the new identifier and not the server that holds the address, so nothing is removed and Raft
  refuses the voter.
\<close>

lemma Join_taken:
  assumes ok: "raft_conf_ok rf lead self conf" and l: "lead (dl_raft d)" and i: "i \<notin> fst ` set (conf (dl_raft d))"
    and m: "(j, a) \<in> set (conf (dl_raft d))"
  shows "\<exists>e r. DistributedLog_Join rf i a d = (Some e, d\<lparr>dl_raft := r\<rparr>) \<and> conf r = conf (dl_raft d)"
proof -
  have "i \<noteq> self" using raft_conf_okD(4) [OF ok l] i by blast
  moreover have "(i, a) \<notin> set (conf (dl_raft d))" "j \<noteq> i" using i m by force+
  then have refused: "refused i a (conf (dl_raft d))" using m by (force simp: refused_def)
  moreover have "filter (\<lambda>s. fst s \<noteq> i) (conf (dl_raft d)) = conf (dl_raft d)"
    using i by (intro filter_True) force
  then have "spec_join i a (conf (dl_raft d)) = conf (dl_raft d)" using refused by (simp add: spec_join_def)
  ultimately show ?thesis using Join_conf [OF ok l, of i a] refused by auto
qed

text \<open>On a server that is not the leader, joining reports that and changes nothing.\<close>

lemma Join_loop_follower:
  assumes "raft_follower_ok rf follow conf" "follow r"
  shows "Join_loop rf i a c r = (None, r) \<or> Join_loop rf i a c r = (Some raft_ErrNotLeader, r)"
proof -
  have "rf_RemoveServer rf i r = (Some raft_ErrNotLeader, r)" "rf_AddVoter rf i a r = (Some raft_ErrNotLeader, r)"
    using assms by (simp_all add: raft_follower_ok_def)
  then show ?thesis by (induction c) (auto split: if_splits)
qed

lemma Join_follower:
  assumes "raft_follower_ok rf follow conf" "follow (dl_raft d)"
  shows "DistributedLog_Join rf i a d = (None, d) \<or> DistributedLog_Join rf i a d = (Some raft_ErrNotLeader, d)"
proof -
  have "rf_GetConfiguration rf (dl_raft d) = (Inr (conf (dl_raft d)), dl_raft d)"
    using assms by (simp add: raft_follower_ok_def)
  then show ?thesis
    using Join_loop_follower [OF assms, of i a "conf (dl_raft d)"] by (auto simp: DistributedLog_Join_def)
qed

section \<open>The distributed log implements the contract\<close>

definition dlog_contract ::
  "dext \<Rightarrow> 'r raftlib \<Rightarrow> ('r \<Rightarrow> bool) \<Rightarrow> 'r DistributedLog \<times> world \<Rightarrow> nat \<Rightarrow> api_Record list \<Rightarrow> bool" where
  "dlog_contract dx rf lead dw lo rs \<longleftrightarrow> raft_ok dx rf lead \<and> preq_codec_ok dx \<and> lead (dl_raft (fst dw)) \<and>
     log_contract (dx_ext dx) (dl_log (fst dw), snd dw) lo rs"

definition dlog_fits :: "dext \<Rightarrow> nat \<Rightarrow> api_Record option \<Rightarrow> bool" where
  "dlog_fits dx n r \<longleftrightarrow> log_fits (dx_ext dx) n r \<and> (\<exists>b. preq_marshal dx \<lparr>preq_Record = r\<rparr> = Inr b)"

lemma DistributedLog_Append_contract:
  assumes c: "dlog_contract dx rf lead (d, w) lo rs" and f: "dlog_fits dx (lo + length rs) r"
  shows "\<exists>d' w'. DistributedLog_Append dx rf r d w = (Inr (of_nat (lo + length rs)), d', w') \<and>
    dlog_contract dx rf lead (d', w') lo (rs @ [log_stamp (lo + length rs) r])"
proof -
  obtain b where b: "preq_marshal dx \<lparr>preq_Record = r\<rparr> = Inr b" and fits: "log_fits (dx_ext dx) (lo + length rs) r"
    using f by (auto simp: dlog_fits_def)
  have ok: "raft_ok dx rf lead" "lead (dl_raft d)" "log_contract (dx_ext dx) (dl_log d, w) lo rs" "preq_codec_ok dx"
    using c by (simp_all add: dlog_contract_def)
  have un: "preq_unmarshal dx b = Inr \<lparr>preq_Record = r\<rparr>" using ok(4) b by (simp add: preq_codec_ok_def)
  define e where "e = \<lparr>rl_Index = 0, rl_Term = 0, rl_Type = 0, rl_Data = AppendRequestType # b, rl_Extensions = [], rl_AppendedAt = 0\<rparr>"
  obtain w1 where w1: "undisturbed (lg_Dir (dl_log d)) w w1" "\<forall>resp l' w2. fsm_Apply dx e (dl_log d) w1 = (Inr resp, l', w2) \<longrightarrow>
      (\<exists>r' w'. rf_Apply rf (rl_Data e) (dl_raft d, dl_log d, w) = (Inr resp, r', l', w') \<and> lead r' \<and> undisturbed (lg_Dir l') w2 w')"
    using ok(1,2) unfolding raft_ok_def by meson
  have "cmd_ok dx (lo + length rs) e" using un fits by (simp add: cmd_ok_def e_def)
  moreover have "spec_apply dx lo e rs =
      (RespProduce \<lparr>pres_Offset = of_nat (lo + length rs)\<rparr>, rs @ [log_stamp (lo + length rs) r])"
    using un by (simp add: spec_apply_def e_def)
  ultimately obtain l' w2 where a: "fsm_Apply dx e (dl_log d) w1 =
      (Inr (RespProduce \<lparr>pres_Offset = of_nat (lo + length rs)\<rparr>), l', w2)"
    "log_contract (dx_ext dx) (l', w2) lo (rs @ [log_stamp (lo + length rs) r])"
    using fsm_Apply_spec [OF log_contract_undisturbed [OF ok(3) w1(1)], of e] by auto
  obtain r' w' where "rf_Apply rf (AppendRequestType # b) (dl_raft d, dl_log d, w) =
      (Inr (RespProduce \<lparr>pres_Offset = of_nat (lo + length rs)\<rparr>), r', l', w')" "lead r'" "undisturbed (lg_Dir l') w2 w'"
    using w1(2) a(1) unfolding e_def by fastforce
  with log_contract_undisturbed [OF a(2)] b ok(1,4) show ?thesis
    by (simp add: DistributedLog_Append_def DistributedLog_apply_def dlog_contract_def)
qed

lemma DistributedLog_Read_contract:
  assumes "dlog_contract dx rf lead (d, w) lo rs"
  shows "\<exists>d' w'. DistributedLog_Read (dx_ext dx) off d w =
      ((if lo \<le> unat off \<and> unat off < lo + length rs then Inr (rs ! (unat off - lo))
        else Inl (ErrOffsetOutOfRange off)), d', w') \<and> dlog_contract dx rf lead (d', w') lo rs"
  using Log_Read_contract [of "dx_ext dx" "dl_log d" w lo rs off] assms
  by (auto simp: DistributedLog_Read_def dlog_contract_def)

interpretation dl: commit_log "\<lambda>r (d, w). DistributedLog_Append dx rf r d w"
  "\<lambda>off (d, w). DistributedLog_Read (dx_ext dx) off d w" "dlog_contract dx rf lead" log_stamp "dlog_fits dx"
  ErrOffsetOutOfRange for dx rf lead
proof (unfold_locales, goal_cases)
  case (1 s lo rs r)
  then show ?case using DistributedLog_Append_contract by (cases s) fastforce
next
  case (2 s lo rs off)
  then show ?case using DistributedLog_Read_contract [of dx rf lead "fst s" "snd s" lo rs off] by (cases s) auto
next
  case (3 s lo rs off)
  then show ?case using DistributedLog_Read_contract [of dx rf lead "fst s" "snd s" lo rs off] by (cases s) auto
next
  case (4 n r)
  then show ?case by (auto simp: dlog_fits_def log_fits_def)
qed

end
