(* ===== verification/Membership.thy ===== *)
theory Membership
  imports Distributed
begin

text \<open>
  Discovery (src/internal/discovery/membership.go): the setup of Serf and the handler of its membership
  events. Serf is third-party: the record \<open>serflib\<close> holds the calls that the code makes, over a state
  \<open>'q\<close> of the library; the events arrive as a list. The handler interface (\<^verbatim>\<open>Join\<close> and \<^verbatim>\<open>Leave\<close>) is a
  record of functions over a state \<open>'h\<close>; the distributed log implements it.
\<close>

section \<open>Handler and events\<close>

record 'h Handler =
  hd_Join :: "string \<Rightarrow> string \<Rightarrow> 'h \<Rightarrow> goerr option \<times> 'h"
  hd_Leave :: "string \<Rightarrow> 'h \<Rightarrow> goerr option \<times> 'h"

record member =
  mb_Name :: string
  mb_Tags :: "string \<Rightarrow> string option"

datatype serf_event = EventMemberJoin "member list" | EventMemberLeave "member list"
  | EventMemberFailed "member list" | OtherEvent

text \<open>Indexing a Go map with a missing key yields the zero value.\<close>

definition tag :: "member \<Rightarrow> string \<Rightarrow> string" where
  "tag m k = (case mb_Tags m k of None \<Rightarrow> '''' | Some v \<Rightarrow> v)"

datatype level = DebugLevel | ErrorLevel

record log_entry =
  le_level :: level
  le_msg :: string
  le_err :: goerr
  le_name :: string
  le_rpc_addr :: string

section \<open>Setting up\<close>

record discovery_Config =
  mc_NodeName :: string
  mc_BindAddr :: string
  mc_Tags :: "string \<Rightarrow> string option"
  mc_StartJoinAddrs :: "string list option"

record serf_Config =
  sf_BindAddr :: string
  sf_BindPort :: int
  sf_Tags :: "string \<Rightarrow> string option"
  sf_NodeName :: string

text \<open>
  Resolving an address asks the name service, so it is a parameter like the calls of Serf. It returns
  the printed IP address and the port.
\<close>

record 'q serflib =
  net_ResolveTCPAddr :: "string \<Rightarrow> goerr + string \<times> int"
  serf_Create :: "serf_Config \<Rightarrow> goerr + 'q"
  serf_Join :: "string list \<Rightarrow> 'q \<Rightarrow> goerr option \<times> 'q"
  serf_Leave :: "'q \<Rightarrow> goerr option \<times> 'q"
  serf_Members :: "'q \<Rightarrow> member list"
  serf_LocalMember :: "'q \<Rightarrow> member"

record 'q Membership =
  ms_Config :: discovery_Config
  ms_serf :: 'q

definition setupSerf :: "'q serflib \<Rightarrow> discovery_Config \<Rightarrow> goerr + 'q" where
  "setupSerf sl c = (case net_ResolveTCPAddr sl (mc_BindAddr c) of
     Inl e \<Rightarrow> Inl e
   | Inr (ip, port) \<Rightarrow>
       (case serf_Create sl \<lparr>sf_BindAddr = ip, sf_BindPort = port, sf_Tags = mc_Tags c, sf_NodeName = mc_NodeName c\<rparr> of
          Inl e \<Rightarrow> Inl e
        | Inr q \<Rightarrow> (case mc_StartJoinAddrs c of
            None \<Rightarrow> Inr q
          | Some addrs \<Rightarrow> (case serf_Join sl addrs q of
              (Some e, _) \<Rightarrow> Inl e
            | (None, q') \<Rightarrow> Inr q'))))"

definition NewMembership :: "'q serflib \<Rightarrow> discovery_Config \<Rightarrow> goerr + 'q Membership" where
  "NewMembership sl c = (case setupSerf sl c of
     Inl e \<Rightarrow> Inl e
   | Inr q \<Rightarrow> Inr \<lparr>ms_Config = c, ms_serf = q\<rparr>)"

definition Membership_Members :: "'q serflib \<Rightarrow> 'q Membership \<Rightarrow> member list" where
  "Membership_Members sl m = serf_Members sl (ms_serf m)"

definition Membership_Leave :: "'q serflib \<Rightarrow> 'q Membership \<Rightarrow> goerr option \<times> 'q Membership" where
  "Membership_Leave sl m = (case serf_Leave sl (ms_serf m) of (err, q) \<Rightarrow> (err, m\<lparr>ms_serf := q\<rparr>))"

section \<open>Operations\<close>

definition logError :: "goerr \<Rightarrow> string \<Rightarrow> member \<Rightarrow> log_entry" where
  "logError err msg m =
     \<lparr>le_level = (if err = raft_ErrNotLeader then DebugLevel else ErrorLevel), le_msg = msg, le_err = err,
      le_name = mb_Name m, le_rpc_addr = tag m ''rpc_addr''\<rparr>"

text \<open>The name of the local member is what \<^verbatim>\<open>m.serf.LocalMember()\<close> reports; it does not change.\<close>

definition isLocal :: "string \<Rightarrow> member \<Rightarrow> bool" where
  "isLocal self m \<longleftrightarrow> self = mb_Name m"

definition handleJoin :: "'h Handler \<Rightarrow> member \<Rightarrow> 'h \<times> log_entry list \<Rightarrow> 'h \<times> log_entry list" where
  "handleJoin hnd m st = (case hd_Join hnd (mb_Name m) (tag m ''rpc_addr'') (fst st) of
     (Some e, h) \<Rightarrow> (h, snd st @ [logError e ''failed to join'' m])
   | (None, h) \<Rightarrow> (h, snd st))"

definition handleLeave :: "'h Handler \<Rightarrow> member \<Rightarrow> 'h \<times> log_entry list \<Rightarrow> 'h \<times> log_entry list" where
  "handleLeave hnd m st = (case hd_Leave hnd (mb_Name m) (fst st) of
     (Some e, h) \<Rightarrow> (h, snd st @ [logError e ''failed to leave'' m])
   | (None, h) \<Rightarrow> (h, snd st))"

fun join_members :: "'h Handler \<Rightarrow> string \<Rightarrow> member list \<Rightarrow> 'h \<times> log_entry list \<Rightarrow> 'h \<times> log_entry list" where
  "join_members hnd self [] st = st"
| "join_members hnd self (m # ms) st =
     (if isLocal self m then join_members hnd self ms st else join_members hnd self ms (handleJoin hnd m st))"

text \<open>The loop over leaving members; \<open>True\<close> says that the handler returns.\<close>

fun leave_members ::
  "'h Handler \<Rightarrow> string \<Rightarrow> member list \<Rightarrow> 'h \<times> log_entry list \<Rightarrow> bool \<times> 'h \<times> log_entry list" where
  "leave_members hnd self [] st = (False, st)"
| "leave_members hnd self (m # ms) st =
     (if isLocal self m then (True, st) else leave_members hnd self ms (handleLeave hnd m st))"

fun eventHandler :: "'h Handler \<Rightarrow> string \<Rightarrow> serf_event list \<Rightarrow> 'h \<times> log_entry list \<Rightarrow> 'h \<times> log_entry list" where
  "eventHandler hnd self [] st = st"
| "eventHandler hnd self (EventMemberJoin ms # es) st = eventHandler hnd self es (join_members hnd self ms st)"
| "eventHandler hnd self (EventMemberLeave ms # es) st = (case leave_members hnd self ms st of
     (stop, st') \<Rightarrow> if stop then st' else eventHandler hnd self es st')"
| "eventHandler hnd self (EventMemberFailed ms # es) st = (case leave_members hnd self ms st of
     (stop, st') \<Rightarrow> if stop then st' else eventHandler hnd self es st')"
| "eventHandler hnd self (OtherEvent # es) st = eventHandler hnd self es st"

section \<open>The cluster follows the members\<close>

text \<open>
  The specification: the configuration after a sequence of events, and the members whose joining was
  refused. Members that join enter the configuration as \<open>spec_join\<close> says, members that leave or fail
  go; the local member is never touched, and when it leaves the handler stops.
\<close>

fun spec_joins :: "string \<Rightarrow> member list \<Rightarrow> (string \<times> string) list \<Rightarrow> (string \<times> string) list \<times> member list" where
  "spec_joins self [] c = (c, [])"
| "spec_joins self (m # ms) c =
     (if isLocal self m then spec_joins self ms c
      else case spec_joins self ms (spec_join (mb_Name m) (tag m ''rpc_addr'') c) of (c', rej) \<Rightarrow>
        (c', if refused (mb_Name m) (tag m ''rpc_addr'') c then m # rej else rej))"

fun spec_left :: "string \<Rightarrow> member list \<Rightarrow> (string \<times> string) list \<Rightarrow> bool \<times> (string \<times> string) list" where
  "spec_left self [] c = (False, c)"
| "spec_left self (m # ms) c =
     (if isLocal self m then (True, c) else spec_left self ms (filter (\<lambda>s. fst s \<noteq> mb_Name m) c))"

fun spec_events :: "string \<Rightarrow> serf_event list \<Rightarrow> (string \<times> string) list \<Rightarrow> (string \<times> string) list \<times> member list" where
  "spec_events self [] c = (c, [])"
| "spec_events self (EventMemberJoin ms # es) c = (case spec_joins self ms c of (c1, rej1) \<Rightarrow>
     (case spec_events self es c1 of (c2, rej2) \<Rightarrow> (c2, rej1 @ rej2)))"
| "spec_events self (EventMemberLeave ms # es) c =
     (case spec_left self ms c of (stop, c') \<Rightarrow> if stop then (c', []) else spec_events self es c')"
| "spec_events self (EventMemberFailed ms # es) c =
     (case spec_left self ms c of (stop, c') \<Rightarrow> if stop then (c', []) else spec_events self es c')"
| "spec_events self (OtherEvent # es) c = spec_events self es c"

text \<open>The entry that is logged for a member that was refused.\<close>

definition refusal :: "member \<Rightarrow> log_entry \<Rightarrow> bool" where
  "refusal m e \<longleftrightarrow> le_level e = ErrorLevel \<and> le_msg e = ''failed to join'' \<and> le_err e \<noteq> raft_ErrNotLeader \<and>
     le_name e = mb_Name m \<and> le_rpc_addr e = tag m ''rpc_addr''"

locale cluster_handler =
  fixes hnd :: "'h Handler"
    and self :: string
    and inv :: "'h \<Rightarrow> bool"
    and conf :: "'h \<Rightarrow> (string \<times> string) list"
  assumes join: "inv h \<Longrightarrow> i \<noteq> self \<Longrightarrow>
      \<exists>res h'. hd_Join hnd i a h = (res, h') \<and> inv h' \<and> conf h' = spec_join i a (conf h) \<and>
        (if refused i a (conf h) then \<exists>e. res = Some e \<and> e \<noteq> raft_ErrNotLeader else res = None)"
    and leave: "inv h \<Longrightarrow> i \<noteq> self \<Longrightarrow>
      \<exists>h'. hd_Leave hnd i h = (None, h') \<and> inv h' \<and> conf h' = filter (\<lambda>s. fst s \<noteq> i) (conf h)"
begin

lemma handleJoin_conf:
  assumes "inv h" "\<not> isLocal self m"
  shows "\<exists>h' new. handleJoin hnd m (h, lg) = (h', lg @ new) \<and> inv h' \<and>
    conf h' = spec_join (mb_Name m) (tag m ''rpc_addr'') (conf h) \<and>
    list_all2 refusal (if refused (mb_Name m) (tag m ''rpc_addr'') (conf h) then [m] else []) new"
proof -
  obtain res h' where h': "hd_Join hnd (mb_Name m) (tag m ''rpc_addr'') h = (res, h')" "inv h'"
    "conf h' = spec_join (mb_Name m) (tag m ''rpc_addr'') (conf h)"
    "if refused (mb_Name m) (tag m ''rpc_addr'') (conf h) then \<exists>e. res = Some e \<and> e \<noteq> raft_ErrNotLeader else res = None"
    using join [OF assms(1), of "mb_Name m" "tag m ''rpc_addr''"] assms(2) by (auto simp: isLocal_def)
  show ?thesis
  proof (cases res)
    case None
    then show ?thesis using h' by (intro exI [of _ h'] exI [of _ "[]"]) (auto simp: handleJoin_def split: if_splits)
  next
    case (Some e)
    then show ?thesis using h'
      by (intro exI [of _ h'] exI [of _ "[logError e ''failed to join'' m]"])
        (auto simp: handleJoin_def refusal_def logError_def split: if_splits)
  qed
qed

lemma join_members_conf:
  assumes "inv h"
  shows "\<exists>h' new. join_members hnd self ms (h, lg) = (h', lg @ new) \<and> inv h' \<and>
    conf h' = fst (spec_joins self ms (conf h)) \<and> list_all2 refusal (snd (spec_joins self ms (conf h))) new"
  using assms
proof (induction ms arbitrary: h lg)
  case (Cons m ms)
  show ?case
  proof (cases "isLocal self m")
    case False
    obtain h1 n1 where 1: "handleJoin hnd m (h, lg) = (h1, lg @ n1)" "inv h1"
      "conf h1 = spec_join (mb_Name m) (tag m ''rpc_addr'') (conf h)"
      "list_all2 refusal (if refused (mb_Name m) (tag m ''rpc_addr'') (conf h) then [m] else []) n1"
      using handleJoin_conf [OF Cons.prems False] by blast
    obtain h2 n2 where 2: "join_members hnd self ms (h1, lg @ n1) = (h2, (lg @ n1) @ n2)" "inv h2"
      "conf h2 = fst (spec_joins self ms (conf h1))" "list_all2 refusal (snd (spec_joins self ms (conf h1))) n2"
      using Cons.IH [OF 1(2)] by blast
    have "list_all2 refusal (snd (spec_joins self (m # ms) (conf h))) (n1 @ n2)"
      using list_all2_appendI [OF 1(4) 2(4)] False 1(3) by (simp add: case_prod_beta split: if_splits)
    then show ?thesis using False 1 2 by (intro exI [of _ h2] exI [of _ "n1 @ n2"]) (simp add: case_prod_beta)
  qed (use Cons in simp)
qed simp

lemma leave_members_conf:
  assumes "inv h"
  shows "\<exists>h'. leave_members hnd self ms (h, lg) = (fst (spec_left self ms (conf h)), h', lg) \<and> inv h' \<and>
    conf h' = snd (spec_left self ms (conf h))"
  using assms
proof (induction ms arbitrary: h)
  case (Cons m ms)
  show ?case
  proof (cases "isLocal self m")
    case False
    then obtain h1 where h1: "hd_Leave hnd (mb_Name m) h = (None, h1)" "inv h1"
      "conf h1 = filter (\<lambda>s. fst s \<noteq> mb_Name m) (conf h)"
      using leave [OF Cons.prems] by (metis isLocal_def)
    from Cons.IH [OF h1(2)] show ?thesis using False h1 by (simp add: handleLeave_def)
  qed (use Cons.prems in simp)
qed simp

text \<open>The event handler implements the specification, and logs an error for every refused member and nothing else.\<close>

lemma eventHandler_conf:
  assumes "inv h"
  shows "\<exists>h' new. eventHandler hnd self es (h, lg) = (h', lg @ new) \<and> inv h' \<and>
    conf h' = fst (spec_events self es (conf h)) \<and> list_all2 refusal (snd (spec_events self es (conf h))) new"
  using assms
proof (induction es arbitrary: h lg)
  case (Cons e es)
  have leaving: "\<exists>h' new. (case leave_members hnd self ms (h, lg) of (stop, st) \<Rightarrow>
        if stop then st else eventHandler hnd self es st) = (h', lg @ new) \<and> inv h' \<and>
      conf h' = fst (case spec_left self ms (conf h) of (stop, c') \<Rightarrow> if stop then (c', []) else spec_events self es c') \<and>
      list_all2 refusal (snd (case spec_left self ms (conf h) of (stop, c') \<Rightarrow> if stop then (c', []) else spec_events self es c')) new"
    for ms
  proof -
    obtain h1 where h1: "leave_members hnd self ms (h, lg) = (fst (spec_left self ms (conf h)), h1, lg)" "inv h1"
      "conf h1 = snd (spec_left self ms (conf h))" using leave_members_conf [OF Cons.prems] by blast
    show ?thesis
    proof (cases "fst (spec_left self ms (conf h))")
      case False
      from Cons.IH [OF h1(2)] show ?thesis using False h1 by (simp add: case_prod_beta)
    qed (use h1 in \<open>simp add: case_prod_beta\<close>)
  qed
  show ?case
  proof (cases e)
    case (EventMemberJoin ms)
    obtain h1 n1 where 1: "join_members hnd self ms (h, lg) = (h1, lg @ n1)" "inv h1"
      "conf h1 = fst (spec_joins self ms (conf h))" "list_all2 refusal (snd (spec_joins self ms (conf h))) n1"
      using join_members_conf [OF Cons.prems] by blast
    obtain h2 n2 where 2: "eventHandler hnd self es (h1, lg @ n1) = (h2, (lg @ n1) @ n2)" "inv h2"
      "conf h2 = fst (spec_events self es (conf h1))" "list_all2 refusal (snd (spec_events self es (conf h1))) n2"
      using Cons.IH [OF 1(2)] by blast
    show ?thesis
      using EventMemberJoin 1 2 list_all2_appendI [OF 1(4) 2(4)]
      by (intro exI [of _ h2] exI [of _ "n1 @ n2"]) (simp add: case_prod_beta)
  qed (use leaving Cons in auto)
qed simp

end

definition DistributedLog_Handler :: "'r raftlib \<Rightarrow> 'r DistributedLog Handler" where
  "DistributedLog_Handler rf = \<lparr>hd_Join = DistributedLog_Join rf, hd_Leave = DistributedLog_Leave rf\<rparr>"

interpretation ch: cluster_handler "DistributedLog_Handler rf" self
  "\<lambda>d. raft_conf_ok rf lead self conf \<and> lead (dl_raft d)" "\<lambda>d. conf (dl_raft d)"
  for rf lead self conf
proof (unfold_locales, goal_cases)
  case (1 h i a)
  then show ?case using Join_conf [of rf lead self conf h i a] by (fastforce simp: DistributedLog_Handler_def)
next
  case (2 h i)
  then show ?case using raft_conf_okD(5) [of rf lead self conf "dl_raft h" i]
    by (auto simp: DistributedLog_Handler_def DistributedLog_Leave_def)
qed

section \<open>Followers\<close>

text \<open>
  Every server of the cluster handles the events, but only the leader can act on them. On the others
  the handler changes nothing and logs at debug level.
\<close>

definition follower_log :: "log_entry list \<Rightarrow> bool" where
  "follower_log es \<longleftrightarrow> (\<forall>e \<in> set es. le_level e = DebugLevel \<and> le_err e = raft_ErrNotLeader)"

lemma handle_follower:
  assumes "raft_follower_ok rf follow conf" "follow (dl_raft d)"
  shows "\<exists>es. handleJoin (DistributedLog_Handler rf) m (d, lg) = (d, lg @ es) \<and> follower_log es"
    and "\<exists>es. handleLeave (DistributedLog_Handler rf) m (d, lg) = (d, lg @ es) \<and> follower_log es"
proof -
  show "\<exists>es. handleJoin (DistributedLog_Handler rf) m (d, lg) = (d, lg @ es) \<and> follower_log es"
    using Join_follower [OF assms, of "mb_Name m" "tag m ''rpc_addr''"]
    by (auto simp: handleJoin_def DistributedLog_Handler_def follower_log_def logError_def)
  have "rf_RemoveServer rf (mb_Name m) (dl_raft d) = (Some raft_ErrNotLeader, dl_raft d)"
    using assms by (simp add: raft_follower_ok_def)
  then show "\<exists>es. handleLeave (DistributedLog_Handler rf) m (d, lg) = (d, lg @ es) \<and> follower_log es"
    by (auto simp: handleLeave_def DistributedLog_Handler_def DistributedLog_Leave_def follower_log_def logError_def)
qed

lemma members_follower:
  assumes "raft_follower_ok rf follow conf" "follow (dl_raft d)"
  shows "\<exists>es. join_members (DistributedLog_Handler rf) self ms (d, lg) = (d, lg @ es) \<and> follower_log es"
    and "\<exists>stop es. leave_members (DistributedLog_Handler rf) self ms (d, lg) = (stop, d, lg @ es) \<and> follower_log es"
proof -
  have app: "follower_log (as @ bs) \<longleftrightarrow> follower_log as \<and> follower_log bs" for as bs by (auto simp: follower_log_def)
  have nil: "follower_log []" by (simp add: follower_log_def)
  show "\<exists>es. join_members (DistributedLog_Handler rf) self ms (d, lg) = (d, lg @ es) \<and> follower_log es"
  proof (induction ms arbitrary: lg)
    case (Cons m ms)
    obtain es where "handleJoin (DistributedLog_Handler rf) m (d, lg) = (d, lg @ es)" "follower_log es"
      using handle_follower(1) [OF assms] by blast
    moreover obtain es' where "join_members (DistributedLog_Handler rf) self ms (d, lg @ es) = (d, (lg @ es) @ es')"
      "follower_log es'" using Cons.IH by blast
    ultimately show ?case using Cons.IH app by (cases "isLocal self m") auto
  qed (simp add: nil)
  show "\<exists>stop es. leave_members (DistributedLog_Handler rf) self ms (d, lg) = (stop, d, lg @ es) \<and> follower_log es"
  proof (induction ms arbitrary: lg)
    case (Cons m ms)
    obtain es where "handleLeave (DistributedLog_Handler rf) m (d, lg) = (d, lg @ es)" "follower_log es"
      using handle_follower(2) [OF assms] by blast
    moreover obtain stop es' where
      "leave_members (DistributedLog_Handler rf) self ms (d, lg @ es) = (stop, d, (lg @ es) @ es')"
      "follower_log es'" using Cons.IH by blast
    ultimately show ?case using nil app by (cases "isLocal self m") auto
  qed (auto simp: nil)
qed

lemma eventHandler_follower:
  assumes "raft_follower_ok rf follow conf" "follow (dl_raft d)"
  shows "\<exists>log. eventHandler (DistributedLog_Handler rf) self es (d, lg) = (d, lg @ log) \<and> follower_log log"
proof (induction es arbitrary: lg)
  case (Cons e es)
  have app: "follower_log (as @ bs) \<longleftrightarrow> follower_log as \<and> follower_log bs" for as bs by (auto simp: follower_log_def)
  have leaving: "\<exists>log. (case leave_members (DistributedLog_Handler rf) self ms (d, lg) of (stop, st) \<Rightarrow>
      if stop then st else eventHandler (DistributedLog_Handler rf) self es st) = (d, lg @ log) \<and> follower_log log" for ms
  proof -
    obtain stop l1 where l1: "leave_members (DistributedLog_Handler rf) self ms (d, lg) = (stop, d, lg @ l1)"
      "follower_log l1" using members_follower(2) [OF assms] by blast
    then show ?thesis using Cons.IH [of "lg @ l1"] app by (cases stop) auto
  qed
  show ?case
  proof (cases e)
    case (EventMemberJoin ms)
    obtain l1 where l1: "join_members (DistributedLog_Handler rf) self ms (d, lg) = (d, lg @ l1)" "follower_log l1"
      using members_follower(1) [OF assms] by blast
    then show ?thesis using Cons.IH [of "lg @ l1"] app EventMemberJoin by auto
  qed (use leaving Cons.IH in simp_all)
qed (simp add: follower_log_def)

end
