(* ===== verification/DemoCluster.thy ===== *)
theory DemoCluster
  imports Demo Server Membership
begin

text \<open>
  A concrete instance of the parameters of the distributed log and of the service: a codec for
  requests, a Raft library of a single leader that commits at once and keeps the configuration in a
  list, and an access-control list. They satisfy the predicates that the properties assume, and are
  used to apply the properties.
\<close>

section \<open>Requests\<close>

definition ddx :: dext where
  "ddx = \<lparr>dx_ext = demo,
          preq_marshal = (\<lambda>q. case preq_Record q of None \<Rightarrow> Inr [] | Some r \<Rightarrow> demo_marshal r),
          preq_unmarshal = (\<lambda>b. if b = [] then Inr \<lparr>preq_Record = None\<rparr>
             else case demo_unmarshal b of Inl e \<Rightarrow> Inl e | Inr r \<Rightarrow> Inr \<lparr>preq_Record = Some r\<rparr>)\<rparr>"

lemma ddx_ext [simp]: "dx_ext ddx = demo"
  by (simp add: ddx_def)

lemma demo_marshal_nonempty: "demo_marshal r = Inr b \<Longrightarrow> b \<noteq> []"
  by (auto simp: demo_marshal_def PutUint64_def split: if_splits)

lemma ddx_codec_ok [simp]: "preq_codec_ok ddx"
proof -
  have "demo_unmarshal b = Inr r" if "demo_marshal r = Inr b" for r b
    using demo_codec_ok that by (simp add: codec_ok_def demo_def)
  then show ?thesis
    by (auto simp: preq_codec_ok_def ddx_def dest: demo_marshal_nonempty split: option.splits)
qed

section \<open>Raft\<close>

text \<open>The state is the configuration; server 0, its first entry, is the leader.\<close>

type_synonym raft_demo = "(string \<times> string) list"

definition lead_demo :: "raft_demo \<Rightarrow> bool" where
  "lead_demo r \<longleftrightarrow> distinct (map fst r) \<and> distinct (map snd r) \<and> '''' \<notin> fst ` set r \<and> '''' \<notin> snd ` set r \<and>
     r \<noteq> [] \<and> fst (r ! 0) = ''0''"

definition rf_demo :: "raft_demo raftlib" where
  "rf_demo = \<lparr>
     rf_Apply = (\<lambda>data (r, l, w). case fsm_Apply ddx \<lparr>rl_Index = 0, rl_Term = 0, rl_Type = 0, rl_Data = data,
         rl_Extensions = [], rl_AppendedAt = 0\<rparr> l w of
       (res, l', w') \<Rightarrow> (res, r, l', w')),
     rf_GetConfiguration = (\<lambda>r. (Inr r, r)),
     rf_RemoveServer = (\<lambda>i r. (None, filter (\<lambda>s. fst s \<noteq> i) r)),
     rf_AddVoter = (\<lambda>i a r. if i = '''' \<or> a = ''''
       then (Some (Extern ''empty ID or address in configuration''), r)
       else if a \<in> snd ` set r
       then (Some (Extern ''found duplicate address in configuration''), r) else (None, r @ [(i, a)])),
     rf_Leader = (\<lambda>r. case r of [] \<Rightarrow> '''' | s # _ \<Rightarrow> snd s),
     rf_Shutdown = (\<lambda>r. (None, r)),
     rf_DefaultConfig = \<lparr>rc_LocalID = '''', rc_HeartbeatTimeout = 1000, rc_ElectionTimeout = 1000,
       rc_LeaderLeaseTimeout = 500, rc_CommitTimeout = 50\<rparr>,
     rf_NewBoltStore = (\<lambda>p w. (None, w)),
     rf_NewFileSnapshotStore = (\<lambda>p n w. (None, w)),
     rf_NewRaft = (\<lambda>c l ls w. (Inr [], w)),
     rf_HasExistingState = (\<lambda>r. Inr (r \<noteq> [])),
     rf_BootstrapCluster = (\<lambda>srvs r. (None, srvs))\<rparr>"

lemma fsm_Apply_data: "rl_Data e = rl_Data e' \<Longrightarrow> fsm_Apply dx e l w = fsm_Apply dx e' l w"
  by (simp add: fsm_Apply_def)

lemma rf_demo_ok [simp]: "raft_ok ddx rf_demo lead_demo"
proof -
  have "fsm_Apply ddx \<lparr>rl_Index = 0, rl_Term = 0, rl_Type = 0, rl_Data = rl_Data e,
      rl_Extensions = [], rl_AppendedAt = 0\<rparr> l w = fsm_Apply ddx e l w" for e l w
    by (rule fsm_Apply_data) simp
  then show ?thesis by (auto simp: raft_ok_def rf_demo_def undisturbed_def)
qed

lemma rf_demo_conf_ok [simp]: "raft_conf_ok rf_demo lead_demo ''0'' (\<lambda>r. r)"
proof -
  have "lead_demo (filter (\<lambda>s. fst s \<noteq> i) r)" if "lead_demo r" "i \<noteq> ''0''" for i r
    using that by (cases r) (force simp: lead_demo_def distinct_map_filter)+
  moreover have "lead_demo (r @ [(i, a)])" if "lead_demo r" "i \<notin> fst ` set r" "a \<notin> snd ` set r" "i \<noteq> ''''" "a \<noteq> ''''" for i a r
    using that by (cases r) (force simp: lead_demo_def)+
  moreover have "''0'' \<in> fst ` set r" if "lead_demo r" for r
    using that by (cases r) (auto simp: lead_demo_def)
  moreover have "distinct (map fst r)" "distinct (map snd r)" "'''' \<notin> fst ` set r" "'''' \<notin> snd ` set r" if "lead_demo r" for r
    using that by (simp_all add: lead_demo_def)
  ultimately show ?thesis by (simp add: raft_conf_ok_def rf_demo_def raft_ErrNotLeader_def)
qed

text \<open>A follower of the same library: changes of the configuration are refused.\<close>

definition rf_follower :: "raft_demo raftlib" where
  "rf_follower = rf_demo\<lparr>rf_RemoveServer := (\<lambda>i r. (Some raft_ErrNotLeader, r)),
     rf_AddVoter := (\<lambda>i a r. (Some raft_ErrNotLeader, r))\<rparr>"

lemma rf_follower_ok [simp]: "raft_follower_ok rf_follower (\<lambda>r. True) (\<lambda>r. r)"
  by (simp add: raft_follower_ok_def rf_follower_def rf_demo_def)

section \<open>Access control\<close>

text \<open>The policy of src/test/policy.csv: \<^verbatim>\<open>root\<close> may produce and consume.\<close>

definition acl :: Authorizer where
  "acl = \<lparr>au_enforcer = (\<lambda>sub obj act. Inr (sub = ''root'' \<and> obj = ''*'' \<and> (act = ''produce'' \<or> act = ''consume'')))\<rparr>"

definition ctx_of :: "string \<Rightarrow> ctx" where
  "ctx_of sub = \<lparr>ctx_peer = Some \<lparr>peer_AuthInfo = Some (TLSInfo [[sub]])\<rparr>, ctx_subject = Some sub\<rparr>"

definition scfg :: "(Log \<times> world) server_Config" where
  "scfg = log_server demo acl (\<lambda>s. (Inr [], s))"

lemma root_allowed [simp]: "allowed scfg (ctx_of ''root'') produceAction" "allowed scfg (ctx_of ''root'') consumeAction"
  by (simp_all add: allowed_def scfg_def log_server_def ctx_of_def subject_def acl_def produceAction_def consumeAction_def objectWildcard_def)

lemma nobody_denied [simp]: "\<not> allowed scfg (ctx_of ''nobody'') produceAction" "\<not> allowed scfg (ctx_of ''nobody'') consumeAction"
  by (simp_all add: allowed_def scfg_def log_server_def ctx_of_def subject_def acl_def)

section \<open>Commands\<close>

definition cmd_of :: "nat \<Rightarrow> raft_Log" where
  "cmd_of n = \<lparr>rl_Index = of_nat n, rl_Term = 1, rl_Type = 0,
     rl_Data = AppendRequestType # PutUint64 0 @ PutUint64 0 @ PutUint32 0 @ replicate n 7,
     rl_Extensions = [], rl_AppendedAt = 0\<rparr>"

lemma cmd_of_request:
  "rl_Data (cmd_of n) = AppendRequestType # b \<Longrightarrow> preq_unmarshal ddx b = Inr \<lparr>preq_Record = Some (rec_of n)\<rparr>"
proof -
  assume "rl_Data (cmd_of n) = AppendRequestType # b"
  then have b: "b = PutUint64 0 @ PutUint64 0 @ PutUint32 0 @ replicate n 7" by (simp add: cmd_of_def)
  then have "demo_unmarshal b = Inr (rec_of n)" "b \<noteq> []"
    by (simp_all add: demo_unmarshal_def rec_of_def) (simp add: PutUint64_def)
  then show ?thesis by (simp add: ddx_def)
qed

lemma cmd_of_simps:
  "k + 1 < 2 ^ 64 \<Longrightarrow> n < 2 ^ 30 \<Longrightarrow> cmd_ok ddx k (cmd_of n)"
  "spec_apply ddx lo (cmd_of n) rs = (RespProduce \<lparr>pres_Offset = of_nat (lo + length rs)\<rparr>,
     rs @ [(rec_of n)\<lparr>r_Offset := of_nat (lo + length rs)\<rparr>])"
proof -
  obtain b where b: "rl_Data (cmd_of n) = AppendRequestType # b" by (simp add: cmd_of_def)
  show "cmd_ok ddx k (cmd_of n)" if "k + 1 < 2 ^ 64" "n < 2 ^ 30"
    using cmd_of_request [OF b] b that
    by (simp add: cmd_ok_def log_fits_def demo_def demo_marshal_def rec_of_def)
  show "spec_apply ddx lo (cmd_of n) rs = (RespProduce \<lparr>pres_Offset = of_nat (lo + length rs)\<rparr>,
     rs @ [(rec_of n)\<lparr>r_Offset := of_nat (lo + length rs)\<rparr>])"
    using cmd_of_request [OF b] b by (simp add: spec_apply_def log_stamp_def)
qed

end
