(* ===== verification/History.thy ===== *)
theory History
  imports RaftStore
begin

text \<open>
  The histories of a log: the states that a log reaches from an empty directory by appends, reads,
  truncations and restarts of the process (src/internal/log/log.go). A step records what the caller
  saw. The invariant relates the state to the acknowledged appends of the history.
\<close>

section \<open>Steps and runs\<close>

datatype log_event =
    Appended api_Record u64
  | Refused api_Record goerr
  | ReadAt u64 "goerr + api_Record"
  | Truncated u64
  | Reopened

text \<open>
  The guards: an append finds the offset after the next one still below the 64-bit limit, and a
  truncation stays below the highest offset (what happens otherwise is the subject of
  \<open>Log_Truncate_everything\<close>).
\<close>

definition offset_left :: "Log \<Rightarrow> bool" where
  "offset_left l = (case HighestOffset l of Inl _ \<Rightarrow> False | Inr h \<Rightarrow> unat h + 2 < 2 ^ 64)"

definition below_highest :: "u64 \<Rightarrow> Log \<Rightarrow> bool" where
  "below_highest lowest l = (case HighestOffset l of Inl _ \<Rightarrow> False | Inr h \<Rightarrow> lowest < h)"

inductive log_step :: "ext \<Rightarrow> Log \<times> world \<Rightarrow> log_event \<Rightarrow> Log \<times> world \<Rightarrow> bool" for x where
  appended: "log_step x (l, w) (Appended r off) (l', w')"
    if "offset_left l" and "Log_Append x (Some r) l w = (Inr off, l', w')"
| refused: "log_step x (l, w) (Refused r e) (l', w')"
    if "offset_left l" and "Log_Append x (Some r) l w = (Inl e, l', w')"
| read: "log_step x (l, w) (ReadAt off res) (l', w')"
    if "Log_Read x off l w = (res, l', w')"
| truncated: "log_step x (l, w) (Truncated lowest) (l', w')"
    if "below_highest lowest l" and "Log_Truncate x lowest l w = (None, l', w')"
| reopened: "log_step x (l, w) Reopened (l'', w'')"
    if "Log_Close x l w = (None, l', w')" and "NewLog x (lg_Dir l) (lg_Config l) w' = (None, l'', w'')"

inductive_cases log_stepE: "log_step x s ev s'"

inductive log_run :: "ext \<Rightarrow> string \<Rightarrow> Config \<Rightarrow> world \<Rightarrow> log_event list \<Rightarrow> Log \<times> world \<Rightarrow> bool"
  for x dir c w0 where
  start: "log_run x dir c w0 [] (l, w)" if "NewLog x dir c w0 = (None, l, w)"
| step: "log_run x dir c w0 (evs @ [ev]) s'" if "log_run x dir c w0 evs s" and "log_step x s ev s'"

section \<open>What a history acknowledged\<close>

fun acked :: "log_event list \<Rightarrow> (api_Record \<times> u64) list" where
  "acked [] = []"
| "acked (Appended r off # evs) = (r, off) # acked evs"
| "acked (_ # evs) = acked evs"

text \<open>The first offset that no truncation of the history asked to remove.\<close>

fun cut_at :: "log_event list \<Rightarrow> nat" where
  "cut_at [] = 0"
| "cut_at (Truncated lowest # evs) = max (unat lowest + 1) (cut_at evs)"
| "cut_at (_ # evs) = cut_at evs"

lemma acked_append [simp]: "acked (as @ bs) = acked as @ acked bs"
  by (induction as rule: acked.induct) simp_all

lemma cut_at_append [simp]: "cut_at (as @ bs) = max (cut_at as) (cut_at bs)"
  by (induction as rule: cut_at.induct) simp_all

definition stamped :: "api_Record \<times> u64 \<Rightarrow> api_Record" where
  "stamped ro = (fst ro)\<lparr>r_Offset := snd ro\<rparr>"

text \<open>
  The invariant: the acknowledged offsets count up from the initial one; the log holds the
  acknowledged records from some offset on, each with its offset, and that offset is not above
  what was cut.
\<close>

definition history_inv :: "ext \<Rightarrow> nat \<Rightarrow> log_event list \<Rightarrow> Log \<times> world \<Rightarrow> bool" where
  "history_inv x n evs s \<longleftrightarrow> (\<exists>k. log_contract x s (n + k) (drop k (map stamped (acked evs))) \<and>
     k \<le> length (acked evs) \<and> n + k \<le> max n (cut_at evs) \<and>
     (\<forall>i < length (acked evs). unat (snd (acked evs ! i)) = n + i))"

section \<open>Every step keeps the invariant\<close>

lemma highest_contract:
  assumes "log_contract x (l, w) lo rs"
  shows "HighestOffset l = Inr (of_nat (lo + length rs - 1))"
  using index_range_rep [OF assms] by (simp add: LastIndex_def)

lemma contract_bound: "log_contract x s lo rs \<Longrightarrow> lo + length rs < 2 ^ 64"
  using chain_last_next [OF log_repD(1)] u64_bound by (cases s) (metis log_contractE)

lemma offset_left_contract:
  assumes "log_contract x (l, w) lo rs" "offset_left l"
  shows "lo + length rs + 1 < 2 ^ 64"
proof -
  have "lo + length rs - 1 < 2 ^ 64" using contract_bound [OF assms(1)] by linarith
  then show ?thesis using assms by (simp add: offset_left_def highest_contract u64_of_nat)
qed

lemma below_highest_contract:
  assumes "log_contract x (l, w) lo rs" "below_highest lowest l"
  shows "unat lowest + 1 < lo + length rs"
proof -
  have "lo + length rs - 1 < 2 ^ 64" using contract_bound [OF assms(1)] by linarith
  then have "unat lowest < lo + length rs - 1"
    using assms by (simp add: below_highest_def highest_contract word_less_nat_alt u64_of_nat)
  then show ?thesis by linarith
qed

text \<open>An append that is refused changes nothing.\<close>

lemma Log_Append_unserialisable:
  assumes c: "log_contract x (l, w) lo rs" and room: "lo + length rs + 1 < 2 ^ 64"
    and e: "marshal x (r\<lparr>r_Offset := of_nat (lo + length rs)\<rparr>) = Inl e"
  shows "Log_Append x (Some r) l w = (Inl e, l, w)"
proof -
  obtain rss where rep: "log_rep x l w rss" and lo: "lo = log_low l" "rs = concat rss" by (rule log_contractE [OF c])
  note inv = log_repD(1) [OF rep]
  let ?a = "last (lg_segments l)"
  have act: "lg_active l = Some ?a" "seg_of l ?a = last (segs l)"
    using log_invD(3) [OF inv] by (auto simp: ptrs_ok_def segs_def last_map)
  have "sg_nextOffset (last (segs l)) = of_nat (lo + length rs)"
    using chain_last_next [OF inv] lo room by (intro u64_of_nat_eq) simp_all
  then have "Log_Append x (Some r) l w = (Inl e, put_seg ?a (last (segs l)) l, w)"
    using e act by (simp add: Log_Append_def segment_Append_def Let_def)
  then show ?thesis using put_seg_same [of ?a l] by (simp add: act(2))
qed

lemma Log_Append_refused:
  assumes c: "log_contract x (l, w) lo rs" and room: "lo + length rs + 1 < 2 ^ 64"
    and e: "Log_Append x (Some r) l w = (Inl e, l', w')"
  shows "l' = l \<and> w' = w"
proof (cases "marshal x (r\<lparr>r_Offset := of_nat (lo + length rs)\<rparr>)")
  case (Inr p)
  then have "log_fits x (lo + length rs) (Some r)" using room by (simp add: log_fits_def)
  from Log_Append_contract [OF c this] e show ?thesis by auto
next
  case (Inl err)
  from Log_Append_unserialisable [OF c room this] e show ?thesis by simp
qed

lemma Log_Append_ok_marshal:
  assumes c: "log_contract x (l, w) lo rs" and room: "lo + length rs + 1 < 2 ^ 64"
    and ok: "Log_Append x (Some r) l w = (Inr off, l', w')"
  shows "\<exists>p. marshal x (r\<lparr>r_Offset := of_nat (lo + length rs)\<rparr>) = Inr p"
  using Log_Append_unserialisable [OF c room, of r] ok by (cases "marshal x (r\<lparr>r_Offset := of_nat (lo + length rs)\<rparr>)") auto

lemma history_invE:
  assumes "history_inv x n evs s"
  obtains k where "log_contract x s (n + k) (drop k (map stamped (acked evs)))" "k \<le> length (acked evs)"
    "n + k \<le> max n (cut_at evs)" "\<forall>i < length (acked evs). unat (snd (acked evs ! i)) = n + i"
  using assms unfolding history_inv_def by blast

text \<open>A step that keeps every contract and acknowledges and cuts nothing keeps the invariant.\<close>

lemma history_inv_same:
  assumes "history_inv x n evs s" "acked (evs @ [ev]) = acked evs" "cut_at (evs @ [ev]) = cut_at evs"
    "\<And>lo rs. log_contract x s lo rs \<Longrightarrow> log_contract x s' lo rs"
  shows "history_inv x n (evs @ [ev]) s'"
  using assms unfolding history_inv_def by metis

lemma history_inv_appended:
  assumes inv: "history_inv x n evs (l, w)" and left: "offset_left l" and ok: "Log_Append x (Some r) l w = (Inr off, l', w')"
  shows "history_inv x n (evs @ [Appended r off]) (l', w')"
proof -
  obtain k where k: "log_contract x (l, w) (n + k) (drop k (map stamped (acked evs)))" "k \<le> length (acked evs)"
    "n + k \<le> max n (cut_at evs)" "\<forall>i < length (acked evs). unat (snd (acked evs ! i)) = n + i"
    by (rule history_invE [OF inv])
  let ?n = "n + length (acked evs)"
  have len: "n + k + length (drop k (map stamped (acked evs))) = ?n" using k(2) by simp
  have room: "?n + 1 < 2 ^ 64" using offset_left_contract [OF k(1) left] unfolding len .
  obtain p where p: "marshal x (r\<lparr>r_Offset := of_nat ?n\<rparr>) = Inr p"
    using Log_Append_ok_marshal [OF k(1) _ ok] room unfolding len by blast
  then have "log_fits x ?n (Some r)" using room by (simp add: log_fits_def)
  then have off: "off = of_nat ?n" and c: "log_contract x (l', w') (n + k)
      (drop k (map stamped (acked evs)) @ [r\<lparr>r_Offset := of_nat ?n\<rparr>])"
    using Log_Append_contract [OF k(1), of r] ok unfolding len by auto
  have "unat off = ?n" unfolding off using room by (intro u64_of_nat) simp
  then have "unat (snd ((acked evs @ [(r, off)]) ! i)) = n + i" if "i < length (acked evs @ [(r, off)])" for i
    using that k(4) by (auto simp: nth_append less_Suc_eq)
  then show ?thesis using k(2,3) c off
    unfolding history_inv_def by (intro exI [of _ k]) (simp add: stamped_def)
qed

lemma history_inv_truncated:
  assumes inv: "history_inv x n evs (l, w)" and below: "below_highest lowest l"
    and ok: "Log_Truncate x lowest l w = (None, l', w')"
  shows "history_inv x n (evs @ [Truncated lowest]) (l', w')"
proof -
  obtain k where k: "log_contract x (l, w) (n + k) (drop k (map stamped (acked evs)))" "k \<le> length (acked evs)"
    "n + k \<le> max n (cut_at evs)" "\<forall>i < length (acked evs). unat (snd (acked evs ! i)) = n + i"
    by (rule history_invE [OF inv])
  have lt: "unat lowest + 1 < n + k + length (drop k (map stamped (acked evs)))"
    using below_highest_contract [OF k(1) below] .
  obtain j where j: "log_contract x (l', w') (n + k + j) (drop j (drop k (map stamped (acked evs))))"
    "n + k + j \<le> max (n + k) (unat lowest + 1)"
    using Log_Truncate_contract [OF k(1) lt] ok by auto
  have "k + j \<le> length (acked evs)" using j(2) lt k(2) by (auto simp: max_def split: if_splits)
  moreover have "n + (k + j) \<le> max n (max (cut_at evs) (unat lowest + 1))"
    using j(2) k(3) by (auto simp: max_def split: if_splits)
  moreover have "log_contract x (l', w') (n + (k + j)) (drop (k + j) (map stamped (acked evs)))"
    using j(1) by (simp add: ac_simps)
  ultimately show ?thesis
    using k(4) unfolding history_inv_def by (intro exI [of _ "k + j"]) simp
qed

lemma log_step_inv:
  assumes "log_step x s ev s'" "history_inv x n evs s"
  shows "history_inv x n (evs @ [ev]) s'"
  using assms(1)
proof cases
  case (appended l r w off l' w')
  then show ?thesis using history_inv_appended assms(2) by blast
next
  case (refused l r w e l' w')
  obtain lo rs where "log_contract x (l, w) lo rs" using assms(2) refused(1) by (auto simp: history_inv_def)
  then have "s' = s" using Log_Append_refused offset_left_contract refused by blast
  then show ?thesis using assms(2) refused(2) by (intro history_inv_same [OF assms(2)]) simp_all
next
  case (read off l w res l' w')
  have "log_contract x s' lo rs" if "log_contract x s lo rs" for lo rs
    using Log_Read_contract [of x l w lo rs off] that read by auto
  then show ?thesis using assms(2) read(2) by (intro history_inv_same [OF assms(2)]) simp_all
next
  case (truncated lowest l w l' w')
  then show ?thesis using history_inv_truncated assms(2) by blast
next
  case (reopened l w l' w' l'' w'')
  have "log_contract x s' lo rs" if "log_contract x s lo rs" for lo rs
    using Log_close_reopen_contract [of x l w lo rs] that reopened by auto
  then show ?thesis using assms(2) reopened(2) by (intro history_inv_same [OF assms(2)]) simp_all
qed

lemma log_run_inv:
  assumes "log_run x dir c w0 evs s"
    and "config_ok (config_defaults c)" "codec_ok x" "mmap_ok x" "quiet w0" "names w0 dir = Some []"
  shows "history_inv x (unat (InitialOffset c)) evs s"
  using assms(1)
proof induction
  case (start l w)
  then show ?case using NewLog_empty_contract [OF assms(2-6)] by (auto simp: history_inv_def)
next
  case (step evs s ev s')
  then show ?case by (blast intro: log_step_inv)
qed

section \<open>No acknowledged record is lost\<close>

lemma history_read:
  assumes "history_inv x n evs (l, w)" "(r, off) \<in> set (acked evs)" "max n (cut_at evs) \<le> unat off"
  shows "\<exists>l' w'. Log_Read x off l w = (Inr (r\<lparr>r_Offset := off\<rparr>), l', w')"
proof -
  obtain k where k: "log_contract x (l, w) (n + k) (drop k (map stamped (acked evs)))" "k \<le> length (acked evs)"
    "n + k \<le> max n (cut_at evs)" "\<forall>i < length (acked evs). unat (snd (acked evs ! i)) = n + i"
    using assms(1) by (auto simp: history_inv_def)
  obtain i where i: "i < length (acked evs)" "acked evs ! i = (r, off)" using assms(2) by (auto simp: in_set_conv_nth)
  then have off: "unat off = n + i" using k(4) by force
  then have ki: "k \<le> i" using k(3) assms(3) by linarith
  then have "drop k (map stamped (acked evs)) ! (unat off - (n + k)) = r\<lparr>r_Offset := off\<rparr>"
    using i off by (simp add: stamped_def)
  then show ?thesis using Log_Read_contract [OF k(1), of off] off ki i(1) by auto
qed


section \<open>A log never gets stuck\<close>

lemma history_steps:
  assumes "history_inv x n evs (l, w)"
  shows "\<exists>s'. log_step x (l, w) Reopened s'"
    and "\<exists>res s'. log_step x (l, w) (ReadAt off res) s' \<and> (\<forall>e. res = Inl e \<longrightarrow> e = ErrOffsetOutOfRange off)"
    and "below_highest lowest l \<Longrightarrow> \<exists>s'. log_step x (l, w) (Truncated lowest) s'"
    and "n + length (acked evs) + 1 < 2 ^ 64 \<Longrightarrow> marshal x (r\<lparr>r_Offset := of_nat (n + length (acked evs))\<rparr>) = Inr p \<Longrightarrow>
      \<exists>s'. log_step x (l, w) (Appended r (of_nat (n + length (acked evs)))) s'"
proof -
  obtain k where c: "log_contract x (l, w) (n + k) (drop k (map stamped (acked evs)))" and k: "k \<le> length (acked evs)"
    using assms by (auto simp: history_inv_def)
  show "\<exists>s'. log_step x (l, w) Reopened s'"
    using Log_close_reopen_contract [OF c] by (blast intro: log_step.reopened)
  show "\<exists>res s'. log_step x (l, w) (ReadAt off res) s' \<and> (\<forall>e. res = Inl e \<longrightarrow> e = ErrOffsetOutOfRange off)"
  proof -
    obtain l' w' where "Log_Read x off l w = ((if n + k \<le> unat off \<and>
          unat off < n + k + length (drop k (map stamped (acked evs)))
        then Inr (drop k (map stamped (acked evs)) ! (unat off - (n + k)))
        else Inl (ErrOffsetOutOfRange off)), l', w')" using Log_Read_contract [OF c] by blast
    from log_step.read [OF this] show ?thesis by (intro exI conjI, assumption) simp
  qed
  show "\<exists>s'. log_step x (l, w) (Truncated lowest) s'" if lowest: "below_highest lowest l"
    using Log_Truncate_contract [OF c below_highest_contract [OF c lowest]] lowest
    by (blast intro: log_step.truncated)
  show "\<exists>s'. log_step x (l, w) (Appended r (of_nat (n + length (acked evs)))) s'"
    if n: "n + length (acked evs) + 1 < 2 ^ 64" "marshal x (r\<lparr>r_Offset := of_nat (n + length (acked evs))\<rparr>) = Inr p"
  proof -
    have len: "n + k + length (drop k (map stamped (acked evs))) = n + length (acked evs)" using k by simp
    have "log_fits x (n + length (acked evs)) (Some r)" using n by (simp add: log_fits_def)
    then obtain l' w' where "Log_Append x (Some r) l w = (Inr (of_nat (n + length (acked evs))), l', w')"
      using Log_Append_contract [OF c, unfolded len] by blast
    moreover have "HighestOffset l = Inr (of_nat (n + length (acked evs) - 1))"
      using highest_contract [OF c] unfolding len .
    then have "offset_left l" using n(1) by (cases "n + length (acked evs)") (auto simp: offset_left_def u64_of_nat simp flip: of_nat_Suc)
    ultimately show ?thesis by (blast intro: log_step.appended)
  qed
qed

end
