(* ===== verification/Storage_Properties.thy ===== *)
theory Storage_Properties
  imports DemoCluster History
begin

text \<open>
  The properties of the log and of its parts: what the operations of the log do to the records it
  holds, its histories, and the segments, stores and indexes below it. Each is followed by its
  application to a concrete log.
\<close>

section \<open>The log\<close>

lemma log0_contract: "log_contract demo (fst log0, snd log0) 16 []"
  using log0_rep by (auto simp: log_contract_def log_abs_def intro!: exI [of _ "[[]]"])

lemma log3_contract: "log_contract demo (fst log3, snd log3) 16 recs3"
  using log3_rep by (auto simp: log_contract_def log_abs_def)

lemma demo_fits: "n + 1 < 2 ^ 64 \<Longrightarrow> length (r_Value r) < 2 ^ 30 \<Longrightarrow> log_fits demo n (Some r)"
  by (simp add: log_fits_def demo_def demo_marshal_def)

text \<open>
  C1. Appending to a log. A log with lowest offset \<open>lo\<close> and records \<open>rs\<close> (whatever their division
  into segments) accepts a record that can be serialised: the offset returned is the next one, the
  record is stored with that offset after all the others, and nothing else changes, also when the
  active segment becomes full and the log starts a new one.
\<close>

theorem log_append:
  assumes "log_contract x (l, w) lo rs" and "log_fits x (lo + length rs) (Some r)"
  shows "\<exists>l' w'. Log_Append x (Some r) l w = (Inr (of_nat (lo + length rs)), l', w') \<and>
    log_contract x (l', w') lo (rs @ [r\<lparr>r_Offset := of_nat (lo + length rs)\<rparr>])"
  using assms by (rule Log_Append_contract)

theorem log_append_witness:
  "\<exists>l' w'. Log_Append demo (Some (rec_of 5)) (fst log3) (snd log3) = (Inr 19, l', w') \<and>
    log_contract demo (l', w') 16 (recs3 @ [(rec_of 5)\<lparr>r_Offset := 19\<rparr>])"
proof -
  have "log_fits demo (16 + length recs3) (Some (rec_of 5))"
    by (rule demo_fits) (simp_all add: recs3_def rec_of_def)
  from log_append [OF log3_contract this] show ?thesis by (simp add: recs3_def)
qed

text \<open>
  C2. Reading from a log. An offset between the lowest and the highest returns the record stored
  there; every other offset is refused with \<^verbatim>\<open>ErrOffsetOutOfRange\<close>. The log stays the same.
\<close>

theorem log_read:
  assumes "log_contract x (l, w) lo rs"
  shows "\<exists>l' w'. Log_Read x off l w =
      ((if lo \<le> unat off \<and> unat off < lo + length rs then Inr (rs ! (unat off - lo))
        else Inl (ErrOffsetOutOfRange off)), l', w') \<and> log_contract x (l', w') lo rs"
  using assms by (rule Log_Read_contract)

theorem log_read_witness:
  "\<exists>l' w'. Log_Read demo 17 (fst log3) (snd log3) = (Inr ((rec_of 2)\<lparr>r_Offset := 17\<rparr>), l', w') \<and>
    log_contract demo (l', w') 16 recs3"
  using log_read [OF log3_contract, of 17] by (simp add: recs3_def)

text \<open>
  C3. Durability. Closing a log succeeds, and opening the directory again with the same configuration
  finds every segment from the names of its files and gives back a log with the same records at the
  same offsets.
\<close>

theorem log_close_reopen:
  assumes "log_contract x (l, w) lo rs"
  shows "\<exists>l1 w1 l2 w2. Log_Close x l w = (None, l1, w1) \<and>
    NewLog x (lg_Dir l) (lg_Config l) w1 = (None, l2, w2) \<and> log_contract x (l2, w2) lo rs"
  using assms by (rule Log_close_reopen_contract)

theorem log_close_reopen_witness:
  "\<exists>l1 w1 l2 w2. Log_Close demo (fst log3) (snd log3) = (None, l1, w1) \<and>
    NewLog demo (lg_Dir (fst log3)) (lg_Config (fst log3)) w1 = (None, l2, w2) \<and>
    log_contract demo (l2, w2) 16 recs3"
  using log_close_reopen [OF log3_contract] .



section \<open>Opening logs\<close>

text \<open>
  File names. The base offset that \<^verbatim>\<open>setup\<close> reads from the name of a segment file is the one the
  segment was created with, for every 64-bit offset; files of different segments have different names.
\<close>

theorem file_name_round_trip:
  "base_of_name (store_file b) = b \<and> base_of_name (index_file b) = b \<and> store_file a \<noteq> index_file b \<and>
    (store_file a = store_file b \<longleftrightarrow> a = b) \<and> (index_file a = index_file b \<longleftrightarrow> a = b)"
  by (simp add: store_file_def index_file_def base_of_name_file [unfolded store_file_def index_file_def])


section \<open>Histories\<close>

text \<open>
  C5. No acknowledged record is lost. After any history of appends, reads, truncations and restarts that
  starts in an empty directory, the acknowledged offsets count up from the initial offset, and an
  acknowledged record whose offset no truncation asked to remove is read back at that offset.
\<close>

theorem acknowledged_survives:
  assumes "log_run x dir c w0 evs (l, w)"
    and "config_ok (config_defaults c)" and "codec_ok x" and "mmap_ok x" and "quiet w0" and "names w0 dir = Some []"
  shows "map (\<lambda>ro. unat (snd ro)) (acked evs) = map (\<lambda>i. unat (InitialOffset c) + i) [0..<length (acked evs)] \<and>
    (\<forall>(r, off) \<in> set (acked evs). cut_at evs \<le> unat off \<longrightarrow>
       (\<exists>l' w'. Log_Read x off l w = (Inr (r\<lparr>r_Offset := off\<rparr>), l', w')))"
proof -
  note inv = log_run_inv [OF assms]
  then have off: "\<forall>i < length (acked evs). unat (snd (acked evs ! i)) = unat (InitialOffset c) + i"
    by (auto simp: history_inv_def)
  then have "unat (InitialOffset c) \<le> unat off" if "(r, off) \<in> set (acked evs)" for r off
    using that by (metis in_set_conv_nth le_add1 snd_conv)
  then show ?thesis using history_read [OF inv] off by (auto intro: nth_equalityI)
qed

lemma c_small_defaults: "config_ok (config_defaults c_small)" "unat (InitialOffset c_small) = 16"
  by (simp_all add: c_small_def config_defaults_def config_ok_def Let_def)

lemma run_reopened:
  assumes "log_run demo ''data'' c_small w_empty evs s"
  shows "\<exists>s'. log_run demo ''data'' c_small w_empty (evs @ [Reopened]) s'"
proof -
  have "history_inv demo 16 evs (fst s, snd s)" using log_run_inv [OF assms c_small_defaults(1)] c_small_defaults(2) by simp
  from history_steps(1) [OF this] obtain s' where "log_step demo s Reopened s'" by auto
  from log_run.step [OF assms this] show ?thesis by blast
qed

lemma run_appended:
  assumes "log_run demo ''data'' c_small w_empty evs s" "length (acked evs) < 2 ^ 30" "k < 2 ^ 30"
  shows "\<exists>s'. log_run demo ''data'' c_small w_empty (evs @ [Appended (rec_of k) (of_nat (16 + length (acked evs)))]) s'"
proof -
  let ?n = "16 + length (acked evs)"
  obtain p where "marshal demo ((rec_of k)\<lparr>r_Offset := of_nat ?n\<rparr>) = Inr p"
    using assms(3) by (simp add: demo_def demo_marshal_def rec_of_def)
  moreover have "history_inv demo 16 evs (fst s, snd s)"
    using log_run_inv [OF assms(1) c_small_defaults(1)] c_small_defaults(2) by simp
  ultimately obtain s' where "log_step demo s (Appended (rec_of k) (of_nat ?n)) s'"
    using history_steps(4) [of demo 16 evs "fst s" "snd s" "rec_of k"] assms(2) by auto
  from log_run.step [OF assms(1) this] show ?thesis by blast
qed

lemma demo_run:
  "\<exists>s. log_run demo ''data'' c_small w_empty [Appended (rec_of 1) 16, Reopened, Appended (rec_of 2) 17] s"
proof -
  obtain l w where "NewLog demo ''data'' c_small w_empty = (None, l, w)"
    using NewLog_empty_contract [OF c_small_defaults(1) demo_codec_ok demo_mmap_ok w_empty_ok] by auto
  then have "log_run demo ''data'' c_small w_empty [] (l, w)" by (rule log_run.start)
  from run_appended [OF this, of 1] obtain s1 where "log_run demo ''data'' c_small w_empty [Appended (rec_of 1) 16] s1"
    by auto
  from run_reopened [OF this] obtain s2 where
    2: "log_run demo ''data'' c_small w_empty [Appended (rec_of 1) 16, Reopened] s2" by auto
  from run_appended [OF 2, of 2] show ?thesis by auto
qed

theorem acknowledged_survives_witness:
  "\<exists>l w l' w'. log_run demo ''data'' c_small w_empty [Appended (rec_of 1) 16, Reopened, Appended (rec_of 2) 17] (l, w) \<and>
    Log_Read demo 16 l w = (Inr ((rec_of 1)\<lparr>r_Offset := 16\<rparr>), l', w')"
proof -
  obtain l w where r: "log_run demo ''data'' c_small w_empty [Appended (rec_of 1) 16, Reopened, Appended (rec_of 2) 17] (l, w)"
    using demo_run by auto
  from acknowledged_survives [OF r c_small_defaults(1) demo_codec_ok demo_mmap_ok w_empty_ok] r show ?thesis by auto
qed

text \<open>
  C14. A log never gets stuck. After every history, closing and opening again succeeds, a read fails with
  nothing but \<^verbatim>\<open>ErrOffsetOutOfRange\<close>, a truncation below the highest offset succeeds, and so does the append
  of a record that can be serialised while the next offset exists.
\<close>

theorem log_progress:
  assumes "log_run x dir c w0 evs (l, w)"
    and "config_ok (config_defaults c)" and "codec_ok x" and "mmap_ok x" and "quiet w0" and "names w0 dir = Some []"
    and "n = unat (InitialOffset c) + length (acked evs)"
  shows "(\<exists>l1 w1 l2 w2. Log_Close x l w = (None, l1, w1) \<and> NewLog x (lg_Dir l) (lg_Config l) w1 = (None, l2, w2)) \<and>
    (\<forall>off e. fst (Log_Read x off l w) = Inl e \<longrightarrow> e = ErrOffsetOutOfRange off) \<and>
    (\<forall>lowest. below_highest lowest l \<longrightarrow> fst (Log_Truncate x lowest l w) = None) \<and>
    (\<forall>r p. n + 1 < 2 ^ 64 \<and> marshal x (r\<lparr>r_Offset := of_nat n\<rparr>) = Inr p \<longrightarrow>
       fst (Log_Append x (Some r) l w) = Inr (of_nat n))"
proof -
  note steps = history_steps [OF log_run_inv [OF assms(1-6)], folded assms(7)]
  have "e = ErrOffsetOutOfRange off" if "fst (Log_Read x off l w) = Inl e" for off e
    using steps(2) [of off] that by (auto elim!: log_stepE)
  moreover have "fst (Log_Truncate x lowest l w) = None" if "below_highest lowest l" for lowest
    using steps(3) [OF that] by (auto elim!: log_stepE)
  moreover have "fst (Log_Append x (Some r) l w) = Inr (of_nat n)"
    if "n + 1 < 2 ^ 64" "marshal x (r\<lparr>r_Offset := of_nat n\<rparr>) = Inr p" for r p
    using steps(4) [OF that] by (auto elim!: log_stepE)
  ultimately show ?thesis using steps(1) by (blast elim: log_stepE)
qed

theorem log_progress_witness:
  "\<exists>l w. log_run demo ''data'' c_small w_empty [Appended (rec_of 1) 16, Reopened, Appended (rec_of 2) 17] (l, w) \<and>
    fst (Log_Append demo (Some (rec_of 3)) l w) = Inr 18"
proof -
  obtain l w where r: "log_run demo ''data'' c_small w_empty [Appended (rec_of 1) 16, Reopened, Appended (rec_of 2) 17] (l, w)"
    using demo_run by auto
  obtain p where p: "marshal demo ((rec_of 3)\<lparr>r_Offset := 18\<rparr>) = Inr p" by (simp add: demo_def demo_marshal_def rec_of_def)
  from log_progress [OF r c_small_defaults(1) demo_codec_ok demo_mmap_ok w_empty_ok refl] p
  have "fst (Log_Append demo (Some (rec_of 3)) l w) = Inr 18" by (simp add: c_small_defaults(2))
  with r show ?thesis by blast
qed

section \<open>Segments\<close>

text \<open>
  A segment that is not full takes a record at its next offset, and afterwards every offset from
  the base on returns its record, the new one included.
\<close>

theorem segment_append_read:
  assumes "seg_rep x dir s w rs" and "codec_ok x" and "\<not> segment_IsMaxed s"
    and "marshal x (r\<lparr>r_Offset := sg_nextOffset s\<rparr>) = Inr p" and "unat (sg_nextOffset s) + 1 < 2 ^ 64"
  shows "\<exists>s' w'. segment_Append x (Some r) s w = (Inr (sg_nextOffset s), s', w') \<and>
    seg_rep x dir s' w' (rs @ [r\<lparr>r_Offset := sg_nextOffset s\<rparr>]) \<and>
    (\<forall>off i. unat off = unat (sg_baseOffset s) + i \<and> i \<le> length rs \<longrightarrow>
      (\<exists>s'' w''. segment_Read x off s' w' = (Inr ((rs @ [r\<lparr>r_Offset := sg_nextOffset s\<rparr>]) ! i), s'', w'')))"
proof -
  obtain s' w' where a: "segment_Append x (Some r) s w = (Inr (sg_nextOffset s), s', w')"
    "seg_rep x dir s' w' (rs @ [r\<lparr>r_Offset := sg_nextOffset s\<rparr>])" "sg_baseOffset s' = sg_baseOffset s"
    using segment_Append_rep [OF assms] by blast
  have "\<exists>s'' w''. segment_Read x off s' w' = (Inr ((rs @ [r\<lparr>r_Offset := sg_nextOffset s\<rparr>]) ! i), s'', w'')"
    if "unat off = unat (sg_baseOffset s) + i" "i \<le> length rs" for off i
    using segment_Read_rep [OF a(2) assms(2), of i off] a(3) that by (metis le_imp_less_Suc length_append_singleton)
  with a show ?thesis by blast
qed

theorem segment_append_read_witness:
  "\<exists>s' w' s'' w''. segment_Append demo (Some (rec_of 1)) (fst seg0) (snd seg0) = (Inr 16, s', w') \<and>
    segment_Read demo 16 s' w' = (Inr rec1, s'', w'')"
proof -
  have m: "marshal demo ((rec_of 1)\<lparr>r_Offset := sg_nextOffset (fst seg0)\<rparr>) = Inr enc1"
    using enc1 seg0_open(2) by (simp add: rec1_def)
  from segment_append_read [OF seg0_rep(1) demo_codec_ok seg0_open(1) m] obtain s' w' where
    a: "segment_Append demo (Some (rec_of 1)) (fst seg0) (snd seg0) = (Inr 16, s', w')"
    "\<forall>off i. unat off = 16 + i \<and> i \<le> 0 \<longrightarrow> (\<exists>s'' w''. segment_Read demo off s' w' = (Inr ([rec1] ! i), s'', w''))"
    using seg0_rep(2) seg0_open(2) by (auto simp: rec1_def)
  then have "\<exists>s'' w''. segment_Read demo 16 s' w' = (Inr ([rec1] ! 0), s'', w'')" by fastforce
  with a(1) show ?thesis by auto
qed

text \<open>
  When the index has no room, an append is refused with \<^verbatim>\<open>io.EOF\<close>: the next offset and the index stay
  as they are, but the frame has already been appended to the store.
\<close>

theorem segment_append_index_full:
  assumes "seg_rep x dir s w rs" and "codec_ok x" and "encodes x rs ps"
    and "unat (MaxIndexBytes (sg_config s)) < 12 * length rs + 12" and "length (frames ps) < 2 ^ 62"
    and "marshal x (r\<lparr>r_Offset := sg_nextOffset s\<rparr>) = Inr p"
  shows "\<exists>s' w'. segment_Append x (Some r) s w = (Inl EOF, s', w') \<and>
    sg_nextOffset s' = sg_nextOffset s \<and> sg_index s' = sg_index s \<and>
    store_rep (sg_store s') w' (frames ps @ frame p)"
  using assms by (rule segment_Append_index_full)

definition c_tiny :: Config where
  "c_tiny = \<lparr>MaxStoreBytes = 1024, MaxIndexBytes = 12, InitialOffset = 0\<rparr>"

lemma tiny_full:
  "\<exists>s w. seg_rep demo ''data'' s w [(rec_of 1)\<lparr>r_Offset := 0\<rparr>] \<and> sg_config s = c_tiny \<and> sg_nextOffset s = 1"
proof -
  have c: "config_ok c_tiny" by (simp add: config_ok_def c_tiny_def)
  have "fget w_empty (''data'', n) = None" for n using fget_names [of w_empty "''data''" n] by auto
  then obtain s w where s: "seg_rep demo ''data'' s w []" "sg_baseOffset s = 0" "sg_config s = c_tiny"
    using newSegment_fresh [OF c demo_mmap_ok w_empty_ok, of 0] by auto
  have n: "sg_nextOffset s = 0" using seg_rep_next [OF s(1)] s(2) by (simp add: u64_eq_iff)
  have nm: "\<not> segment_IsMaxed s"
    using segment_IsMaxed_rep [OF s(1), of "[]"] s(3) by (simp add: encodes_def c_tiny_def)
  obtain p where p: "marshal demo ((rec_of 1)\<lparr>r_Offset := sg_nextOffset s\<rparr>) = Inr p"
    by (simp add: demo_def demo_marshal_def rec_of_def)
  obtain s' w' where "seg_rep demo ''data'' s' w' [(rec_of 1)\<lparr>r_Offset := 0\<rparr>]" "sg_config s' = c_tiny"
    "unat (sg_nextOffset s') = 1"
    using segment_Append_rep [OF s(1) demo_codec_ok nm p] s(3) by (auto simp: n)
  then show ?thesis by (auto simp: u64_eq_iff)
qed

theorem segment_append_index_full_witness:
  "\<exists>s w s' w'. sg_config s = c_tiny \<and> segment_Append demo (Some (rec_of 1)) s w = (Inl EOF, s', w') \<and>
    sg_nextOffset s' = sg_nextOffset s"
proof -
  obtain s w where s: "seg_rep demo ''data'' s w [(rec_of 1)\<lparr>r_Offset := 0\<rparr>]" "sg_config s = c_tiny"
    using tiny_full by blast
  obtain p where p: "marshal demo ((rec_of 1)\<lparr>r_Offset := 0\<rparr>) = Inr p" "length p = 21"
    by (simp add: demo_def demo_marshal_def rec_of_def)
  obtain q where q: "marshal demo ((rec_of 1)\<lparr>r_Offset := sg_nextOffset s\<rparr>) = Inr q"
    by (simp add: demo_def demo_marshal_def rec_of_def)
  have "encodes demo [(rec_of 1)\<lparr>r_Offset := 0\<rparr>] [p]" using p by (simp add: encodes_def)
  from segment_append_index_full [OF s(1) demo_codec_ok this _ _ q] s(2) p(2)
  show ?thesis by (fastforce simp: c_tiny_def)
qed

text \<open>
  \<^verbatim>\<open>nearestMultiple\<close> returns the largest multiple of a positive \<open>k\<close> that is not above \<open>j\<close>, for all
  64-bit arguments.
\<close>

theorem nearestMultiple_largest:
  assumes "k \<noteq> 0"
  shows "\<exists>m. nearestMultiple j k = Inr m \<and> unat k dvd unat m \<and> unat m \<le> unat j \<and> unat j < unat m + unat k"
  using assms by (rule nearestMultiple_ok)

theorem nearestMultiple_largest_witness:
  "\<exists>m. nearestMultiple 9 4 = Inr m \<and> unat (4 :: u64) dvd unat m \<and> unat m \<le> unat (9 :: u64) \<and>
    unat (9 :: u64) < unat m + unat (4 :: u64)"
  by (rule nearestMultiple_largest) simp

section \<open>Stores and indexes\<close>

text \<open>
  Any sequence of appends to a store succeeds while the file stays below the largest offset, and
  every payload is read back from the position that its append returned.
\<close>

theorem store_appends_read:
  assumes "store_rep s w bs" and "length bs + length (concat (map frame ps)) < 2 ^ 63"
    and "\<forall>p \<in> set ps. length p \<le> maxAlloc"
  shows "\<exists>poss s' w'. store_appends ps s w = (Inr poss, s', w') \<and> length poss = length ps \<and>
    (\<forall>i < length ps. \<exists>s'' w''. store_Read (poss ! i) s' w' = (Inr (ps ! i), s'', w''))"
  unfolding store_appends_eq using st.appends_read [of "(s, w)" bs ps] assms by fastforce

theorem store_appends_read_witness:
  "\<exists>poss s' w' s'' w''. store_appends [[1, 2, 3], [], [4]] (sg_store (fst seg1)) (snd seg1) = (Inr poss, s', w') \<and>
    store_Read (poss ! 2) s' w' = (Inr [4], s'', w'')"
proof -
  let ?ps = "[[1, 2, 3], [], [4]] :: bytes list"
  obtain poss s' w' where a: "store_appends ?ps (sg_store (fst seg1)) (snd seg1) = (Inr poss, s', w')"
    "\<forall>i < length ?ps. \<exists>s'' w''. store_Read (poss ! i) s' w' = (Inr (?ps ! i), s'', w'')"
    using store_appends_read [OF seg1_parts(1), of ?ps] by (auto simp: maxAlloc_def)
  have "2 < length ?ps" by simp
  then obtain s'' w'' where "store_Read (poss ! 2) s' w' = (Inr (?ps ! 2), s'', w'')" using a(2) by blast
  with a(1) show ?thesis by auto
qed

text \<open>
  An error of the store sticks: once an append has failed, every later append fails with the same
  error and changes nothing, so a frame that was written in part is never followed by another.
\<close>

theorem store_error_sticks:
  assumes "store_Append p s w = (Inl e, s', w')"
  shows "store_Append q s' w'' = (Inl e, s', w'') \<and> st_size s' = st_size s"
  using store_Append_failed [OF assms] bufio_Write_failed [of "st_buf s'" e]
  by (simp add: store_Append_def Let_def)

definition st_closed :: store where
  "st_closed = \<lparr>st_File = \<lparr>fname = (''data'', ''0.store''), fclosed = True\<rparr>, st_buf = bufio_NewWriter, st_size = 0\<rparr>"

lemma st_closed_fails: "\<exists>s'. store_Append (replicate 5000 0) st_closed w_empty = (Inl ErrClosed, s', w_empty)"
proof -
  let ?f = "\<lparr>fname = (''data'', ''0.store''), fclosed = True\<rparr>"
  have "bufio_Write ?f (PutUint64 5000) bufio_NewWriter w_empty =
      ((8, None), \<lparr>bw_buf = PutUint64 5000, bw_err = None\<rparr>, w_empty)"
    by (simp add: bufio_Write_def bufio_Write_loop.simps bufio_NewWriter_def bufio_size_def)
  moreover have "\<exists>n b. bufio_Write ?f (replicate 5000 0) \<lparr>bw_buf = PutUint64 5000, bw_err = None\<rparr> w_empty =
      ((n, Some ErrClosed), b, w_empty)"
    by (subst bufio_Write_def, subst bufio_Write_loop.simps,
        simp add: bufio_size_def bufio_Flush_def os_Write_def PutUint64_def, subst bufio_Write_loop.simps, simp)
  ultimately show ?thesis by (auto simp: store_Append_def st_closed_def Let_def)
qed

theorem store_error_sticks_witness:
  "\<exists>s'. store_Append (replicate 5000 0) st_closed w_empty = (Inl ErrClosed, s', w_empty) \<and>
    store_Append [1] s' w_empty = (Inl ErrClosed, s', w_empty) \<and> st_size s' = 0"
proof -
  obtain s' where s': "store_Append (replicate 5000 0) st_closed w_empty = (Inl ErrClosed, s', w_empty)"
    using st_closed_fails by blast
  from store_error_sticks [OF s', of "[1]" w_empty] s' show ?thesis by (auto simp: st_closed_def)
qed

text \<open>
  C39. Reading the index, on every 64-bit argument: -1 reads the last entry. Any other argument is cut to
  its lower 32 bits, and the entry with that number is read, or \<^verbatim>\<open>io.EOF\<close> when there is none: so the
  numbers of entries read those entries, but \<open>2^32\<close> reads the first one again. An empty index answers
  \<^verbatim>\<open>io.EOF\<close> throughout.
\<close>

theorem index_read_bounds:
  assumes "index_rep c i w es"
  shows "index_Read inn i = (if es = [] then Inl EOF else if inn = -1 then Inr (last es)
    else if unat inn mod 2 ^ 32 < length es then Inr (es ! (unat inn mod 2 ^ 32)) else Inl EOF)"
proof (cases "es = []")
  case True
  then have "ix_size i = 0" using assms by (simp add: index_rep_def unat_eq_0)
  then show ?thesis using True by (simp add: index_Read_def)
next
  case False
  moreover have "unat (ucast inn :: u32) = unat inn mod 2 ^ 32" by (simp add: unsigned_ucast_eq take_bit_eq_mod)
  ultimately show ?thesis using index_Read_any [OF assms, of inn] index_Read_last [OF assms] by simp
qed

theorem index_read_bounds_witness:
  "index_Read 7 (sg_index (fst seg1)) = Inl EOF \<and> index_Read (-1) (sg_index (fst seg1)) = Inr (0, 0) \<and>
    index_Read 4294967296 (sg_index (fst seg1)) = Inr (0, 0)"
  using index_read_bounds [OF seg1_parts(2), of 7] index_read_bounds [OF seg1_parts(2), of "-1"]
    index_read_bounds [OF seg1_parts(2), of 4294967296] by simp

text \<open>
  Closing an index and opening its file again, under any configuration whose index has room for the
  entries, gives back the entries: the zeroes with which the mapped file is padded are cut off.
\<close>

theorem index_reopen:
  assumes "index_rep c i w es" and "mmap_ok x" and "config_ok c'" and "12 * length es \<le> unat (MaxIndexBytes c')"
  shows "\<exists>i1 w1 i2 w2. index_Close x i w = (None, i1, w1) \<and>
    newIndex x \<lparr>fname = index_Name i, fclosed = False\<rparr> c' w1 = (Inr i2, w2) \<and> index_rep c' i2 w2 es"
proof -
  obtain i1 w1 where c: "index_Close x i w = (None, i1, w1)" "index_disk (index_Name i) w1 es" "quiet w1"
    using index_Close_rep [OF assms(1,2)] by (metis touches_quiet)
  then show ?thesis
    using newIndex_rep [of c' x w1 "\<lparr>fname = index_Name i, fclosed = False\<rparr>" es] assms(2-4) by auto
qed

theorem index_reopen_witness:
  "\<exists>i1 w1 i2 w2. index_Close demo (sg_index (fst seg1)) (snd seg1) = (None, i1, w1) \<and>
    newIndex demo \<lparr>fname = index_Name (sg_index (fst seg1)), fclosed = False\<rparr> c_tiny w1 = (Inr i2, w2) \<and>
    index_rep c_tiny i2 w2 [(0, 0)]"
  by (rule index_reopen [OF seg1_parts(2) demo_mmap_ok]) (simp_all add: config_ok_def c_tiny_def)

end
