(* ===== verification/Snapshot.thy ===== *)
theory Snapshot
  imports Fsm History
begin

text \<open>
  Persisting a snapshot (src/internal/log/distributed.go, \<^verbatim>\<open>snapshot.Persist\<close>). The code copies the
  reader of the whole log to the sink with \<^verbatim>\<open>io.Copy\<close>. The reader is an \<^verbatim>\<open>io.MultiReader\<close>, whose \<^verbatim>\<open>WriteTo\<close>
  copies its parts one after the other; a part is an \<^verbatim>\<open>originReader\<close>, which inherits the method \<^verbatim>\<open>WriteTo\<close>
  of \<^verbatim>\<open>os.File\<close> through the embedded store (since Go 1.22, the version in src/go.mod). So the copy does
  not call the \<^verbatim>\<open>Read\<close> of \<^verbatim>\<open>originReader\<close>: it reads the file from the position that the kernel keeps for
  it. The sink is a value of the Raft library, given by a record of its calls.
\<close>

section \<open>Copying a file\<close>

text \<open>\<^verbatim>\<open>File.Read\<close>: from the read position on, which moves; at the end it reports \<^verbatim>\<open>io.EOF\<close>.\<close>

definition os_Read :: "osfile \<Rightarrow> nat \<Rightarrow> world \<Rightarrow> (bytes \<times> goerr option) \<times> world" where
  "os_Read f n w0 =
     (if fclosed f then (([], Some ErrClosed), w0)
      else case take_fault w0 of
        (Some (e, _), w) \<Rightarrow> (([], Some e), w)
      | (None, w) \<Rightarrow>
          (let c = (case fget w (fname f) of None \<Rightarrow> [] | Some c \<Rightarrow> c);
               data = take n (drop (fpos w (fname f)) c)
           in if data = [] then (([], Some EOF), w)
              else ((data, None), w\<lparr>fpos := (fpos w)(fname f := fpos w (fname f) + length data)\<rparr>)))"

record 'k sinklib =
  sk_Write :: "bytes \<Rightarrow> 'k \<Rightarrow> goerr option \<times> 'k"
  sk_Close :: "'k \<Rightarrow> goerr option \<times> 'k"
  sk_Cancel :: "'k \<Rightarrow> goerr option \<times> 'k"

definition copy_size :: nat where
  "copy_size = 32 * 1024"

definition left_of :: "osfile \<Rightarrow> world \<Rightarrow> nat" where
  "left_of f w = (case fget w (fname f) of None \<Rightarrow> 0 | Some c \<Rightarrow> length c - fpos w (fname f))"

lemma take_fault_same: "take_fault w = (flt, w') \<Longrightarrow> fget w' = fget w \<and> fpos w' = fpos w"
  by (auto simp: take_fault_def fget_def fun_eq_iff split: list.splits)

lemma os_Read_left:
  assumes "os_Read f n w = ((data, None), w')"
  shows "left_of f w' < left_of f w \<and> data \<noteq> []"
proof -
  obtain flt w1 where 1: "take_fault w = (flt, w1)" by fastforce
  define c where "c = (case fget w1 (fname f) of None \<Rightarrow> [] | Some c \<Rightarrow> c)"
  have d: "data \<noteq> []" "data = take n (drop (fpos w1 (fname f)) c)"
    "w' = w1\<lparr>fpos := (fpos w1)(fname f := fpos w1 (fname f) + length data)\<rparr>"
    using assms 1 by (auto simp: os_Read_def c_def Let_def split: if_splits option.splits)
  then have "fpos w1 (fname f) < length c" by (cases "fpos w1 (fname f) < length c") auto
  then show ?thesis
    using d take_fault_same [OF 1] by (auto simp: left_of_def c_def split: option.splits)
qed

text \<open>\<^verbatim>\<open>File.WriteTo\<close>: a loop that reads a block and writes it to the sink.\<close>

function file_WriteTo :: "'k sinklib \<Rightarrow> osfile \<Rightarrow> world \<Rightarrow> 'k \<Rightarrow> goerr option \<times> world \<times> 'k" where
  "file_WriteTo sk f w0 k0 = (case os_Read f copy_size w0 of ((data, err), w) \<Rightarrow>
     (case (if data = [] then (None, k0) else sk_Write sk data k0) of
        (Some e, k) \<Rightarrow> (Some e, w, k)
      | (None, k) \<Rightarrow> (case err of
          Some e \<Rightarrow> (if e = EOF then (None, w, k) else (Some e, w, k))
        | None \<Rightarrow> file_WriteTo sk f w k)))"
  by pat_completeness auto
termination file_WriteTo
  by (relation "measure (\<lambda>(sk, f, w, k). left_of f w)") (auto dest: os_Read_left [OF sym])

declare file_WriteTo.simps [simp del]

section \<open>Persisting\<close>

fun MultiReader_WriteTo :: "'k sinklib \<Rightarrow> originReader list \<Rightarrow> Log \<Rightarrow> world \<Rightarrow> 'k \<Rightarrow> goerr option \<times> world \<times> 'k" where
  "MultiReader_WriteTo sk [] l w k = (None, w, k)"
| "MultiReader_WriteTo sk (rd # rds) l w0 k0 =
     (case file_WriteTo sk (st_File (sg_store (seg_of l (or_seg rd)))) w0 k0 of
        (Some e, w, k) \<Rightarrow> (Some e, w, k)
      | (None, w, k) \<Rightarrow> MultiReader_WriteTo sk rds l w k)"

definition snapshot_Persist :: "'k sinklib \<Rightarrow> snapshot \<Rightarrow> Log \<Rightarrow> world \<Rightarrow> 'k \<Rightarrow> goerr option \<times> world \<times> 'k" where
  "snapshot_Persist sk s l w0 k0 = (case MultiReader_WriteTo sk (sn_reader s) l w0 k0 of
     (Some e, w, k) \<Rightarrow> (case sk_Cancel sk k of (_, k') \<Rightarrow> (Some e, w, k'))
   | (None, w, k) \<Rightarrow> (case sk_Close sk k of (err, k') \<Rightarrow> (err, w, k')))"

section \<open>Where the read positions are\<close>

text \<open>
  Writing leaves the read position of a file behind the written bytes. So in a log that was created
  by this process, the read position of every store is at the end of its file.
\<close>

definition at_end :: "string \<Rightarrow> world \<Rightarrow> bool" where
  "at_end dir w \<longleftrightarrow> (\<forall>b c. fget w (dir, store_file b) = Some c \<longrightarrow> fpos w (dir, store_file b) = length c)"

lemma at_end_cong: "fget w' = fget w \<Longrightarrow> fpos w' = fpos w \<Longrightarrow> at_end dir w' \<longleftrightarrow> at_end dir w"
  by (simp add: at_end_def)

lemma at_end_os_Write:
  assumes "os_Write f p w = (r, w')" "at_end dir w"
  shows "at_end dir w'"
proof (cases "fclosed f")
  case False
  obtain flt w1 where 1: "take_fault w = (flt, w1)" by fastforce
  then have a: "at_end dir w1" using assms(2) at_end_cong take_fault_same by metis
  show ?thesis
  proof (cases "fget w1 (fname f)")
    case None
    then show ?thesis using assms(1) False 1 a by (auto simp: os_Write_def Let_def split: prod.splits)
  next
    case (Some c)
    then obtain n where "w' = (fput (fname f) (c @ take n p) w1)\<lparr>fpos := (fpos w1)(fname f := length (c @ take n p))\<rparr>"
      using assms(1) False 1 by (auto simp: os_Write_def Let_def split: prod.splits)
    moreover have "fs w1 (fst (fname f)) \<noteq> None" using Some by (auto simp: fget_def split: option.splits)
    ultimately show ?thesis using a Some by (auto simp: at_end_def fget_fput)
  qed
qed (use assms in \<open>simp add: os_Write_def\<close>)

lemma at_end_Flush: "bufio_Flush f b w = (r, b', w') \<Longrightarrow> at_end dir w \<Longrightarrow> at_end dir w'"
  by (auto simp: bufio_Flush_def split: option.splits if_splits prod.splits dest: at_end_os_Write)

lemma at_end_bufio_Write_loop:
  "bufio_Write_loop f p nn b w = (r, b', w') \<Longrightarrow> at_end dir w \<Longrightarrow> at_end dir w'"
proof (induction f p nn b w arbitrary: r b' w' rule: bufio_Write_loop.induct)
  case (1 f p nn b w)
  show ?case
  proof (cases "bufio_size - length (bw_buf b) < length p \<and> bw_err b = None")
    case False
    then show ?thesis using 1(3,4) by (auto simp: bufio_Write_loop.simps [of f p nn b w] split: option.splits)
  next
    case c: True
    show ?thesis
    proof (cases "bw_buf b = []")
      case True
      obtain n err w1 where w1: "os_Write f p w = ((n, err), w1)" by (metis prod.exhaust)
      then show ?thesis
        using 1(1) [OF c True w1 [symmetric] refl, of r b' w'] 1(3,4) c True at_end_os_Write
        by (simp add: bufio_Write_loop.simps [of f p nn b w])
    next
      case False
      let ?n = "min (length p) (bufio_size - length (bw_buf b))"
      obtain e b1 w1 where w1: "bufio_Flush f (b\<lparr>bw_buf := bw_buf b @ take ?n p\<rparr>) w = (e, b1, w1)" by (metis prod.exhaust)
      then show ?thesis
        using 1(2) [OF c False refl w1 [symmetric] refl, of r b' w'] 1(3,4) c False at_end_Flush
        by (simp add: bufio_Write_loop.simps [of f p nn b w] Let_def)
    qed
  qed
qed


lemma at_end_store_Append: "store_Append p s w = (r, s', w') \<Longrightarrow> at_end dir w \<Longrightarrow> at_end dir w'"
  by (auto simp: store_Append_def bufio_Write_def Let_def split: prod.splits option.splits
      dest!: at_end_bufio_Write_loop)

lemma at_end_os_ReadAt: "os_ReadAt f n off w = (r, w') \<Longrightarrow> at_end dir w \<Longrightarrow> at_end dir w'"
  by (auto simp: os_ReadAt_def Let_def split: if_splits prod.splits option.splits dest: take_fault_same at_end_cong)

lemma at_end_store_Read: "store_Read pos s w = (r, s', w') \<Longrightarrow> at_end dir w \<Longrightarrow> at_end dir w'"
  by (auto simp: store_Read_def Let_def split: if_splits prod.splits option.splits dest!: at_end_Flush at_end_os_ReadAt)

lemma at_end_segment_Append: "segment_Append x r s w = (res, s', w') \<Longrightarrow> at_end dir w \<Longrightarrow> at_end dir w'"
  by (auto simp: segment_Append_def Let_def split: option.splits sum.splits prod.splits dest!: at_end_store_Append)

lemma at_end_segment_Read: "segment_Read x off s w = (res, s', w') \<Longrightarrow> at_end dir w \<Longrightarrow> at_end dir w'"
  by (auto simp: segment_Read_def Let_def split: option.splits sum.splits prod.splits if_splits dest!: at_end_store_Read)

text \<open>Opening a new store leaves its position at the end, which is the beginning; the index does not matter.\<close>

lemma at_end_OpenFile:
  assumes "os_OpenFile p w = (r, w')" "at_end dir w" "\<forall>b. p = (dir, store_file b) \<longrightarrow> fget w p = None"
  shows "at_end dir w'"
proof -
  obtain flt w1 where 1: "take_fault w = (flt, w1)" by fastforce
  have a: "at_end dir w1" "fget w1 p = fget w p" using assms(2) take_fault_same [OF 1] at_end_cong by metis+
  show ?thesis
    using assms(1,3) 1 a by (auto simp: os_OpenFile_def at_end_def Let_def fget_fput split: option.splits if_splits)
qed

lemma at_end_os_Stat: "os_Stat p w = (r, w') \<Longrightarrow> at_end dir w \<Longrightarrow> at_end dir w'"
  by (auto simp: os_Stat_def split: prod.splits option.splits dest: take_fault_same at_end_cong)

lemma at_end_newIndex:
  assumes "newIndex x f c w = (r, w')" "at_end dir w" "\<forall>b. fname f \<noteq> (dir, store_file b)"
  shows "at_end dir w'"
proof -
  obtain r1 w1 where 1: "os_Stat (fname f) w = (r1, w1)" by fastforce
  then have "at_end dir w1" using at_end_os_Stat assms(2) by blast
  moreover have "at_end dir w3" if "os_Truncate (fname f) n w2 = (e, w3)" "at_end dir w2" for n w2 e w3
  proof -
    obtain flt w4 where 4: "take_fault w2 = (flt, w4)" by fastforce
    then have "at_end dir w4" using that(2) take_fault_same at_end_cong by metis
    then show ?thesis using that(1) 4 assms(3)
      by (auto simp: os_Truncate_def at_end_def fget_fput split: option.splits if_splits) metis+
  qed
  moreover have "at_end dir w3" if "mmap_Map x p w2 = (e, w3)" "at_end dir w2" for p w2 e w3
    using that mmap_Map_frame at_end_cong by metis
  ultimately show ?thesis using assms(1) 1 by (auto simp: newIndex_def split: sum.splits prod.splits option.splits)
qed

lemma at_end_newSegment:
  assumes "newSegment x dir b c w = (r, w')" "at_end dir w" "fget w (dir, store_file b) = None"
  shows "at_end dir w'"
proof -
  obtain r1 w1 where 1: "os_OpenFile (dir, store_file b) w = (r1, w1)" by fastforce
  have a1: "at_end dir w1" using at_end_OpenFile [OF 1 assms(2)] assms(3) by metis
  have ix: "\<forall>b'. (dir, index_file b) \<noteq> (dir, store_file b')" by (auto simp: store_file_def index_file_def)
  have open_ix: "at_end dir w3 \<and> (\<forall>f. r3 = Inr f \<longrightarrow> fname f = (dir, index_file b))"
    if "os_OpenFile (dir, index_file b) w2 = (r3, w3)" "at_end dir w2" for w2 w3 r3
    using at_end_OpenFile [OF that] ix that(1)
    by (auto simp: os_OpenFile_def Let_def split: prod.splits option.splits if_splits)
  have new_ix: "at_end dir w4" if "newIndex x f c w3 = (i, w4)" "at_end dir w3" "fname f = (dir, index_file b)" for f w3 i w4
    using at_end_newIndex [OF that(1,2)] ix that(3) by simp
  show ?thesis
    using assms(1) 1 a1
    by (auto simp: newSegment_def newStore_def split: sum.splits prod.splits if_splits
        dest!: at_end_os_Stat open_ix new_ix)
qed


section \<open>Logs that were only written to\<close>

lemma base_le_next:
  assumes inv: "log_inv x l w rss" and b: "b \<in> set (bases l)"
  shows "unat b \<le> unat (sg_nextOffset (last (segs l)))"
proof -
  obtain i where i: "i < length (segs l)" "b = sg_baseOffset (segs l ! i)" using b by (auto simp: bases_def in_set_conv_nth)
  have "length (concat (take i rss)) \<le> length (concat rss)"
    by (metis append_take_drop_id concat_append le_add1 length_append)
  then show ?thesis using chain_base [OF inv i(1)] chain_last_next [OF inv] i(2) by simp
qed

lemma Log_Append_at_end:
  assumes c: "log_contract x (l, w) lo rs" and room: "lo + length rs + 1 < 2 ^ 64" and a: "at_end (lg_Dir l) w"
    and run: "Log_Append x (Some r) l w = (Inr off, l', w')"
  shows "at_end (lg_Dir l) w' \<and> lg_Dir l' = lg_Dir l"
proof -
  obtain rss where rep: "log_rep x l w rss" and lo: "lo = log_low l" "rs = concat rss" and x: "codec_ok x" "mmap_ok x"
    by (rule log_contractE [OF c])
  note inv = log_repD(1) [OF rep]
  note D = log_invD [OF inv]
  let ?a = "last (lg_segments l)"
  have act: "lg_active l = Some ?a" "seg_of l ?a = last (segs l)"
    using D(3) by (auto simp: ptrs_ok_def segs_def last_map)
  obtain s w1 where s: "segment_Append x (Some r) (last (segs l)) w = (Inr off, s, w1)"
    using run act by (auto simp: Log_Append_def split: sum.splits prod.splits if_splits option.splits)
  have a1: "at_end (lg_Dir l) w1" using at_end_segment_Append [OF s a] .
  show ?thesis
  proof (cases "segment_IsMaxed s")
    case False
    then show ?thesis using run act s a1 by (auto simp: Log_Append_def)
  next
    case True
    define n where "n = lo + length rs"
    obtain p where p: "marshal x (r\<lparr>r_Offset := of_nat n\<rparr>) = Inr p"
      using Log_Append_ok_marshal [OF c room run] by (auto simp: n_def)
    have n: "unat (sg_nextOffset (last (segs l))) = n" "n + 1 < 2 ^ 64"
      using chain_last_next [OF inv] lo room by (simp_all add: n_def)
    then have nxt: "sg_nextOffset (last (segs l)) = of_nat n" by (intro u64_of_nat_eq) simp_all
    let ?k = "length (segs l) - 1"
    have k: "?k < length (segs l)" "last (segs l) = segs l ! ?k" using D(7) by (simp_all add: last_conv_nth)
    obtain s' w'' where "segment_Append x (Some r) (last (segs l)) w = (Inr (sg_nextOffset (last (segs l))), s', w'')"
      "touches (seg_paths (lg_Dir l) (sg_baseOffset (last (segs l)))) w w''"
      using segment_Append_rep [OF D(10) [OF k(1)] x(1), of r p] log_repD(2) [OF rep] p n nxt
      unfolding k(2) [symmetric] by auto
    with s have off: "off = sg_nextOffset (last (segs l))" and names: "names w1 = names w"
      by (auto dest: touches_names)
    have "off + 1 \<notin> set (bases l)"
    proof
      assume "off + 1 \<in> set (bases l)"
      from base_le_next [OF inv this] show False using n unfolding off by (simp add: unat_u64_Suc)
    qed
    then have "fget w1 (lg_Dir l, store_file (off + 1)) = None"
      using fget_names [of w1 "lg_Dir l" "store_file (off + 1)"] D(4) names by (auto simp: dir_ok_def)
    then show ?thesis using run act s a1 True
      by (auto simp: Log_Append_def Log_newSegment_def split: sum.splits prod.splits dest: at_end_newSegment)
  qed
qed


fun writes_only :: "log_event list \<Rightarrow> bool" where
  "writes_only [] \<longleftrightarrow> True"
| "writes_only (Truncated _ # evs) \<longleftrightarrow> False"
| "writes_only (Reopened # evs) \<longleftrightarrow> False"
| "writes_only (_ # evs) \<longleftrightarrow> writes_only evs"

lemma writes_only_append [simp]: "writes_only (as @ bs) \<longleftrightarrow> writes_only as \<and> writes_only bs"
  by (induction as rule: writes_only.induct) auto

lemma NewLog_at_end:
  assumes "NewLog x dir c w = (None, l, w')" "quiet w" "names w dir = Some []"
  shows "at_end dir w' \<and> lg_Dir l = dir"
proof -
  have none: "fget w (dir, n) = None" for n using fget_names [of w dir n] assms(3) by auto
  then have "at_end dir w" by (simp add: at_end_def)
  then show ?thesis
    using assms none by (auto simp: NewLog_def Log_setup_def os_ReadDir_quiet Log_newSegment_def
        split: sum.splits prod.splits dest: at_end_newSegment)
qed

lemma log_run_at_end:
  assumes "log_run x dir c w0 evs s" "writes_only evs"
    and ok: "config_ok (config_defaults c)" "codec_ok x" "mmap_ok x" "quiet w0" "names w0 dir = Some []"
  shows "at_end dir (snd s) \<and> lg_Dir (fst s) = dir"
  using assms(1,2)
proof induction
  case (start l w)
  then show ?case using NewLog_at_end ok(4,5) by simp
next
  case (step evs s ev s')
  then have IH: "at_end dir (snd s)" "lg_Dir (fst s) = dir" by simp_all
  obtain lo rs where c: "log_contract x s lo rs"
    using log_run_inv [OF step.hyps(1) ok] by (auto simp: history_inv_def)
  show ?case using step.hyps(2)
  proof cases
    case (appended l r w off l' w')
    then show ?thesis
      using Log_Append_at_end [of x l w lo rs r off l' w'] offset_left_contract [of x l w lo rs] c IH by simp
  next
    case (refused l r w e l' w')
    then show ?thesis using Log_Append_refused [of x l w lo rs r e l' w'] offset_left_contract [of x l w lo rs] c IH by simp
  next
    case (read off l w res l' w')
    then show ?thesis using IH
      by (auto simp: Log_Read_def split: option.splits if_splits prod.splits dest: at_end_segment_Read)
  qed (use step.prems in auto)
qed

section \<open>An empty snapshot\<close>

lemma file_WriteTo_at_end:
  assumes "quiet w" "\<not> fclosed f" "fget w (fname f) = Some c" "fpos w (fname f) = length c"
  shows "file_WriteTo sk f w k = (None, w, k)"
  using assms by (subst file_WriteTo.simps) (simp add: os_Read_def take_fault_def quiet_def)

lemma store_of_segment:
  assumes "log_contract x (l, w) lo rs" "a \<in> set (lg_segments l)"
  shows "\<exists>b c. fname (st_File (sg_store (seg_of l a))) = (lg_Dir l, store_file b) \<and>
    \<not> fclosed (st_File (sg_store (seg_of l a))) \<and> fget w (lg_Dir l, store_file b) = Some c"
proof -
  obtain rss where rep: "log_rep x l w rss" by (rule log_contractE [OF assms(1)])
  note D = log_invD [OF log_repD(1) [OF rep]]
  obtain i where i: "i < length (segs l)" "segs l ! i = seg_of l a"
    using assms(2) by (auto simp: segs_def in_set_conv_nth)
  show ?thesis using D(10) [OF i(1)] unfolding i(2) by (auto simp: seg_rep_def store_rep_def)
qed

lemma Persist_at_end:
  assumes c: "log_contract x (l, w) lo rs" and a: "at_end (lg_Dir l) w"
  shows "snapshot_Persist sk (fsm_Snapshot l) l w k = (fst (sk_Close sk k), w, snd (sk_Close sk k))"
proof -
  have q: "quiet w" using log_contractE [OF c] log_repD(1) log_invD(1) by metis
  have "MultiReader_WriteTo sk (map (\<lambda>a. \<lparr>or_seg = a, or_off = 0\<rparr>) as) l w k = (None, w, k)"
    if "set as \<subseteq> set (lg_segments l)" for as
    using that
  proof (induction as)
    case (Cons s as)
    obtain b c where "fname (st_File (sg_store (seg_of l s))) = (lg_Dir l, store_file b)"
      "\<not> fclosed (st_File (sg_store (seg_of l s)))" "fget w (lg_Dir l, store_file b) = Some c"
      using store_of_segment [OF c] Cons.prems by (metis list.set_intros(1) subsetD)
    then have "file_WriteTo sk (st_File (sg_store (seg_of l s))) w k = (None, w, k)"
      using a by (intro file_WriteTo_at_end [OF q]) (simp_all add: at_end_def)
    then show ?case using Cons by simp
  qed simp
  then show ?thesis
    by (simp add: snapshot_Persist_def fsm_Snapshot_def Log_Reader_def split: prod.splits)
qed

end
