(* ===== verification/Cluster_Runs.thy ===== *)
theory Cluster_Runs
  imports Distributed
begin

text \<open>
  The servers of a cluster over time (src/internal/log/distributed.go: \<^verbatim>\<open>fsm.Apply\<close>, \<^verbatim>\<open>DistributedLog.Read\<close>).
  Raft promises one sequence of committed entries, which it applies on every server in this order, each
  server at its own pace; what is modelled of Raft is this promise. The step relation interleaves
  committing, applying and local reads of any server, and the invariant says that every server
  holds the records of a prefix of the committed commands. Servers that restart are not among the steps: Raft
  applies the entries again there.
\<close>

section \<open>Runs of a cluster\<close>

record 'r cluster =
  cl_committed :: "raft_Log list"
  cl_node :: "nat \<Rightarrow> 'r DistributedLog \<times> world"
  cl_applied :: "nat \<Rightarrow> nat"

text \<open>\<open>Applied i k resp\<close>: server \<open>i\<close> answers the committed command number \<open>k\<close>.\<close>

datatype cl_event = Committed raft_Log | Applied nat nat fsm_resp | ReadAnswer nat u64 "goerr + api_Record"

inductive cl_step :: "dext \<Rightarrow> 'r cluster \<Rightarrow> cl_event \<Rightarrow> 'r cluster \<Rightarrow> bool" for dx where
  commit: "cl_step dx c (Committed e) (c\<lparr>cl_committed := cl_committed c @ [e]\<rparr>)"
| apply_next: "cl_step dx c (Applied i (cl_applied c i) resp)
      (c\<lparr>cl_node := (cl_node c)(i := (d\<lparr>dl_log := l'\<rparr>, w')), cl_applied := (cl_applied c)(i := Suc (cl_applied c i))\<rparr>)"
    if "cl_applied c i < length (cl_committed c)" and "cl_node c i = (d, w)"
      and "fsm_Apply dx (cl_committed c ! cl_applied c i) (dl_log d) w = (Inr resp, l', w')"
| read_local: "cl_step dx c (ReadAnswer i off res) (c\<lparr>cl_node := (cl_node c)(i := (d', w'))\<rparr>)"
    if "cl_node c i = (d, w)" and "DistributedLog_Read (dx_ext dx) off d w = (res, d', w')"

inductive_cases cl_stepE: "cl_step dx c ev c'"

inductive cl_run :: "dext \<Rightarrow> 'r cluster \<Rightarrow> cl_event list \<Rightarrow> 'r cluster \<Rightarrow> bool" for dx c0 where
  start: "cl_run dx c0 [] c0"
| step: "cl_run dx c0 (evs @ [ev]) c'" if "cl_run dx c0 evs c" and "cl_step dx c ev c'"

section \<open>What a prefix of the commands leaves\<close>

definition recs_after :: "dext \<Rightarrow> nat \<Rightarrow> raft_Log list \<Rightarrow> api_Record list" where
  "recs_after dx lo es = snd (spec_run dx lo es [])"

definition resps_after :: "dext \<Rightarrow> nat \<Rightarrow> raft_Log list \<Rightarrow> fsm_resp list" where
  "resps_after dx lo es = fst (spec_run dx lo es [])"

lemma spec_run_append:
  "spec_run dx lo (es @ gs) rs = (let (as, rs1) = spec_run dx lo es rs; (bs, rs2) = spec_run dx lo gs rs1 in (as @ bs, rs2))"
  by (induction es arbitrary: rs) (simp_all add: Let_def split: prod.splits)

lemma cmds_ok_append: "cmds_ok dx lo (es @ gs) rs \<longleftrightarrow> cmds_ok dx lo es rs \<and> cmds_ok dx lo gs (snd (spec_run dx lo es rs))"
  by (induction es arbitrary: rs) (simp_all add: split_beta)

lemma length_responses [simp]: "length (resps_after dx lo es) = length es"
proof -
  have "length (fst (spec_run dx lo es rs)) = length es" for rs by (induction es arbitrary: rs) (simp_all add: split_beta)
  then show ?thesis by (simp add: resps_after_def)
qed

lemma recs_after_snoc: "recs_after dx lo (es @ [e]) = snd (spec_apply dx lo e (recs_after dx lo es))"
  by (simp add: recs_after_def spec_run_append Let_def split_beta)

lemma resps_after_snoc: "resps_after dx lo (es @ [e]) = resps_after dx lo es @ [fst (spec_apply dx lo e (recs_after dx lo es))]"
  by (simp add: recs_after_def resps_after_def spec_run_append Let_def split_beta)

lemma spec_apply_prefix: "prefix rs (snd (spec_apply dx lo e rs))"
  by (simp add: spec_apply_def split: list.split sum.split)

lemma recs_after_prefix: "prefix (recs_after dx lo es) (recs_after dx lo (es @ gs))"
proof (induction gs rule: rev_induct)
  case (snoc f gs)
  then show ?case using spec_apply_prefix prefix_order.trans
    by (metis append_assoc recs_after_snoc)
qed simp

lemma resps_after_nth: "k < length es \<Longrightarrow> resps_after dx lo (es @ gs) ! k = resps_after dx lo es ! k"
  by (induction gs rule: rev_induct) (simp_all add: nth_append resps_after_snoc flip: append_assoc)

lemma resps_after_at:
  assumes "k < length es"
  shows "resps_after dx lo es ! k = fst (spec_apply dx lo (es ! k) (recs_after dx lo (take k es)))"
proof -
  have "es = take (Suc k) es @ drop (Suc k) es" by simp
  then have "resps_after dx lo es ! k = resps_after dx lo (take (Suc k) es) ! k"
    using assms resps_after_nth [of k "take (Suc k) es" dx lo "drop (Suc k) es"] by simp
  then show ?thesis using assms by (simp add: take_Suc_conv_app_nth resps_after_snoc nth_append)
qed

text \<open>A response that names an offset stands for the record at it.\<close>

lemma spec_apply_offset:
  assumes "fst (spec_apply dx lo e rs) = RespProduce \<lparr>pres_Offset = off\<rparr>" "cmd_ok dx (lo + length rs) e"
  shows "unat off = lo + length rs \<and> length (snd (spec_apply dx lo e rs)) = Suc (length rs)"
  using assms
  by (auto simp: spec_apply_def cmd_ok_def log_fits_def u64_of_nat simp del: of_nat_add split: list.splits sum.splits if_splits)

lemma cmds_ok_at:
  assumes "cmds_ok dx lo es []" "k < length es"
  shows "cmd_ok dx (lo + length (recs_after dx lo (take k es))) (es ! k)"
proof -
  have "cmds_ok dx lo (take k es @ es ! k # drop (Suc k) es) []" using assms by (simp add: id_take_nth_drop [symmetric])
  then show ?thesis by (simp add: cmds_ok_append recs_after_def)
qed

lemma response_offset:
  assumes "k < length es" "cmds_ok dx lo es []" "resps_after dx lo es ! k = RespProduce \<lparr>pres_Offset = off\<rparr>"
  shows "lo \<le> unat off \<and> unat off < lo + length (recs_after dx lo (take (Suc k) es))"
  using spec_apply_offset [OF _ cmds_ok_at [OF assms(2,1)]] assms(1,3) resps_after_at [OF assms(1)]
  by (simp add: take_Suc_conv_app_nth recs_after_snoc)

section \<open>The invariant\<close>

text \<open>The answer of a server that has applied these records.\<close>

definition read_answer :: "nat \<Rightarrow> api_Record list \<Rightarrow> u64 \<Rightarrow> goerr + api_Record" where
  "read_answer lo rs off = (if lo \<le> unat off \<and> unat off < lo + length rs then Inr (rs ! (unat off - lo)) else Inl (ErrOffsetOutOfRange off))"

definition node_ok :: "dext \<Rightarrow> nat \<Rightarrow> 'r cluster \<Rightarrow> nat \<Rightarrow> bool" where
  "node_ok dx lo c i \<longleftrightarrow> cl_applied c i \<le> length (cl_committed c) \<and>
     log_contract (dx_ext dx) (dl_log (fst (cl_node c i)), snd (cl_node c i)) lo
       (recs_after dx lo (take (cl_applied c i) (cl_committed c)))"

text \<open>What an event says, given what happened before it and the state that is reached after it.\<close>

fun event_ok :: "dext \<Rightarrow> nat \<Rightarrow> 'r cluster \<Rightarrow> cl_event list \<Rightarrow> cl_event \<Rightarrow> bool" where
  "event_ok dx lo c before (Committed e) \<longleftrightarrow> e \<in> set (cl_committed c)"
| "event_ok dx lo c before (Applied i k resp) \<longleftrightarrow> k < cl_applied c i \<and> k < length (cl_committed c) \<and>
     resp = resps_after dx lo (cl_committed c) ! k"
| "event_ok dx lo c before (ReadAnswer i off res) \<longleftrightarrow> (\<exists>n. n \<le> length (cl_committed c) \<and>
     (\<forall>k resp. Applied i k resp \<in> set before \<longrightarrow> k < n) \<and>
     res = read_answer lo (recs_after dx lo (take n (cl_committed c))) off)"

definition cluster_inv :: "dext \<Rightarrow> nat \<Rightarrow> cl_event list \<Rightarrow> 'r cluster \<Rightarrow> bool" where
  "cluster_inv dx lo evs c \<longleftrightarrow> (\<forall>i. node_ok dx lo c i) \<and> (\<forall>before ev rest. evs = before @ ev # rest \<longrightarrow> event_ok dx lo c before ev)"

text \<open>Events stay true when more is committed or applied.\<close>

lemma event_ok_mono:
  assumes "event_ok dx lo c before ev" "cl_committed c' = cl_committed c @ es" "\<And>i. cl_applied c i \<le> cl_applied c' i"
  shows "event_ok dx lo c' before ev"
proof (cases ev)
  case (ReadAnswer i off res)
  then obtain n where "n \<le> length (cl_committed c)" "\<forall>k resp. Applied i k resp \<in> set before \<longrightarrow> k < n"
    "res = read_answer lo (recs_after dx lo (take n (cl_committed c))) off" using assms(1) by auto
  then show ?thesis using ReadAnswer assms(2) by (auto intro!: exI [of _ n])
qed (use assms in \<open>auto simp: resps_after_nth intro: less_le_trans\<close>)

lemma cluster_inv_snoc:
  assumes inv: "cluster_inv dx lo evs c" and "cl_committed c' = cl_committed c @ es" "\<And>i. cl_applied c i \<le> cl_applied c' i"
    and "\<And>i. node_ok dx lo c' i" "event_ok dx lo c' evs ev"
  shows "cluster_inv dx lo (evs @ [ev]) c'"
  unfolding cluster_inv_def
proof (intro conjI allI impI)
  fix before e rest assume "evs @ [ev] = before @ e # rest"
  then consider "before = evs" "e = ev" | rest' where "evs = before @ e # rest'"
    by (cases rest rule: rev_cases) auto
  then show "event_ok dx lo c' before e"
  proof cases
    case 2
    then show ?thesis using inv event_ok_mono [OF _ assms(2,3)] by (auto simp: cluster_inv_def)
  qed (use assms(5) in simp)
qed (rule assms(4))

lemma node_ok_applied: "cluster_inv dx lo evs c \<Longrightarrow> Applied i k resp \<in> set evs \<Longrightarrow> k < cl_applied c i"
  unfolding cluster_inv_def by (metis event_ok.simps(2) in_set_conv_decomp)

lemma cl_step_inv:
  assumes step: "cl_step dx c ev c'" and inv: "cluster_inv dx lo evs c" and ok: "cmds_ok dx lo (cl_committed c') []"
  shows "cluster_inv dx lo (evs @ [ev]) c'"
  using step
proof cases
  case (commit e)
  then show ?thesis using inv by (intro cluster_inv_snoc [OF inv, where es = "[e]"]) (auto simp: cluster_inv_def node_ok_def intro: le_SucI)
next
  case (apply_next i d w resp l' w')
  let ?k = "cl_applied c i" and ?es = "cl_committed c"
  have n: "node_ok dx lo c i" using inv by (simp add: cluster_inv_def)
  have "cmd_ok dx (lo + length (recs_after dx lo (take ?k ?es))) (?es ! ?k)"
    using ok apply_next(2,3) by (intro cmds_ok_at) simp_all
  from fsm_Apply_spec [OF _ this, of "dl_log d" w] n apply_next(4,5)
  have r: "resp = fst (spec_apply dx lo (?es ! ?k) (recs_after dx lo (take ?k ?es)))"
    "log_contract (dx_ext dx) (l', w') lo (recs_after dx lo (take (Suc ?k) ?es))"
    using apply_next(3) by (simp_all add: node_ok_def take_Suc_conv_app_nth recs_after_snoc)
  have "node_ok dx lo c' j" for j using inv r(2) apply_next(2,3) by (simp add: cluster_inv_def node_ok_def)
  then show ?thesis using apply_next(1-3) r(1)
    by (intro cluster_inv_snoc [OF inv, where es = "[]"]) (auto simp: resps_after_at)
next
  case (read_local i d w off res d' w')
  have n: "node_ok dx lo c i" using inv by (simp add: cluster_inv_def)
  let ?rs = "recs_after dx lo (take (cl_applied c i) (cl_committed c))"
  have r: "res = read_answer lo ?rs off" "log_contract (dx_ext dx) (dl_log d', w') lo ?rs"
    using Log_Read_contract [of "dx_ext dx" "dl_log d" w lo ?rs off] n read_local(3,4)
    by (auto simp: node_ok_def DistributedLog_Read_def read_answer_def)
  have "node_ok dx lo c' j" for j using inv r(2) read_local(2) by (simp add: cluster_inv_def node_ok_def)
  moreover have "event_ok dx lo c' evs (ReadAnswer i off res)"
    using r(1) n node_ok_applied [OF inv] read_local(2) by (auto simp: node_ok_def intro!: exI [of _ "cl_applied c i"])
  ultimately show ?thesis using read_local(1,2)
    by (intro cluster_inv_snoc [OF inv, where es = "[]"]) auto
qed

lemma cl_run_inv:
  assumes "cl_run dx c0 evs c" "cl_committed c0 = []" "\<And>i. cl_applied c0 i = 0"
    and "\<And>i. log_contract (dx_ext dx) (dl_log (fst (cl_node c0 i)), snd (cl_node c0 i)) lo []"
    and "cmds_ok dx lo (cl_committed c) []"
  shows "cluster_inv dx lo evs c"
  using assms(1,5)
proof induction
  case start
  then show ?case using assms(2-4) by (simp add: cluster_inv_def node_ok_def recs_after_def)
next
  case (step evs c ev c')
  obtain es where "cl_committed c' = cl_committed c @ es" using step.hyps(2) by (auto elim!: cl_stepE)
  then have "cmds_ok dx lo (cl_committed c) []" using step.prems by (simp add: cmds_ok_append)
  then show ?case using cl_step_inv step by blast
qed

section \<open>Every server makes progress\<close>

lemma cl_apply_possible:
  assumes inv: "cluster_inv dx lo evs c" and "cmds_ok dx lo (cl_committed c) []" and k: "cl_applied c i < length (cl_committed c)"
  shows "\<exists>resp c'. cl_step dx c (Applied i (cl_applied c i) resp) c'"
proof -
  let ?k = "cl_applied c i" and ?es = "cl_committed c"
  obtain d w where n: "cl_node c i = (d, w)" by fastforce
  have "log_contract (dx_ext dx) (dl_log d, w) lo (recs_after dx lo (take ?k ?es))"
    using inv n by (auto simp: cluster_inv_def node_ok_def dest: spec [of _ i])
  from fsm_Apply_spec [OF this cmds_ok_at [OF assms(2) k]] obtain resp l' w' where "fsm_Apply dx (?es ! ?k) (dl_log d) w = (Inr resp, l', w')" by blast
  from cl_step.apply_next [OF k n this] show ?thesis by blast
qed


section \<open>What the clients of a cluster see\<close>

lemma recs_after_take: "prefix (recs_after dx lo (take n es)) (recs_after dx lo es)"
  using recs_after_prefix [of dx lo "take n es" "drop n es"] by simp

lemma read_answer_prefix:
  assumes "prefix rs qs"
  shows "read_answer lo rs off = read_answer lo qs off \<or> read_answer lo rs off = Inl (ErrOffsetOutOfRange off)"
    and "lo \<le> unat off \<Longrightarrow> unat off < lo + length rs \<Longrightarrow> read_answer lo rs off = Inr (qs ! (unat off - lo))"
  using assms by (auto simp: prefix_def read_answer_def nth_append)

lemma event_at: "cluster_inv dx lo evs c \<Longrightarrow> ev \<in> set evs \<Longrightarrow> \<exists>before. event_ok dx lo c before ev"
  unfolding cluster_inv_def by (metis in_set_conv_decomp)

lemma read_acknowledged:
  assumes inv: "cluster_inv dx lo evs c" and ok: "cmds_ok dx lo (cl_committed c) []"
    and evs: "evs = before @ ReadAnswer i off res # rest" "Applied i k (RespProduce \<lparr>pres_Offset = off\<rparr>) \<in> set before"
  shows "res = Inr (recs_after dx lo (cl_committed c) ! (unat off - lo))"
proof -
  let ?es = "cl_committed c"
  have "event_ok dx lo c before (ReadAnswer i off res)" using inv evs(1) unfolding cluster_inv_def by blast
  then obtain n where n: "n \<le> length ?es" "k < n" "res = read_answer lo (recs_after dx lo (take n ?es)) off"
    using evs(2) by auto
  have k: "k < length ?es" "resps_after dx lo ?es ! k = RespProduce \<lparr>pres_Offset = off\<rparr>"
    using event_at [OF inv, of "Applied i k (RespProduce \<lparr>pres_Offset = off\<rparr>)"] evs by auto
  have "prefix (recs_after dx lo (take (Suc k) ?es)) (recs_after dx lo (take n ?es))"
    using recs_after_take [of dx lo "Suc k" "take n ?es"] n(2) by (simp add: min_def)
  then have "length (recs_after dx lo (take (Suc k) ?es)) \<le> length (recs_after dx lo (take n ?es))" by (rule prefix_length_le)
  with response_offset [OF k(1) ok k(2)] show ?thesis
    unfolding n(3) by (intro read_answer_prefix(2) recs_after_take) simp_all
qed

end
