(* ===== verification/Cluster_Properties.thy ===== *)
theory Cluster_Properties
  imports Storage_Properties Snapshot Cluster_Runs
begin

text \<open>
  The properties of the replicated log and of the service over it, with their applications to the
  concrete instances of \<open>DemoCluster\<close>, and the places where the code falls short of what it promises.
\<close>

section \<open>Replication\<close>

text \<open>
  C6. Replicas agree. Two state machines whose logs hold the same records, however they are laid out
  on their disks, answer the same sequence of committed commands with the same responses and hold
  the same records afterwards, namely those of the specification \<open>spec_run\<close>.
\<close>

theorem replicas_agree:
  assumes "log_contract (dx_ext dx) (l1, w1) lo rs" and "log_contract (dx_ext dx) (l2, w2) lo rs"
    and "cmds_ok dx lo es rs"
  shows "\<exists>resps rs' l1' w1' l2' w2'. fsm_run dx es l1 w1 = (Inr resps, l1', w1') \<and>
    fsm_run dx es l2 w2 = (Inr resps, l2', w2') \<and> spec_run dx lo es rs = (resps, rs') \<and>
    log_contract (dx_ext dx) (l1', w1') lo rs' \<and> log_contract (dx_ext dx) (l2', w2') lo rs'"
  using fsm_run_spec [OF assms(1,3)] fsm_run_spec [OF assms(2,3)] by (metis prod.collapse)

lemma demo_cmds_ok: "cmds_ok ddx 16 [cmd_of 1, cmd_of 2, cmd_of 3] []"
  by (simp add: cmd_of_simps)

lemma log_large: "\<exists>l w. NewLog demo ''data'' (c_small\<lparr>MaxStoreBytes := 1024\<rparr>) w_empty = (None, l, w) \<and>
  log_contract demo (l, w) 16 []"
  using NewLog_empty_contract [of "c_small\<lparr>MaxStoreBytes := 1024\<rparr>" demo w_empty "''data''"]
  by (auto simp: c_small_def config_defaults_def config_ok_def Let_def)

theorem replicas_agree_witness:
  "\<exists>l2 w2 resps rs' l1' w1' l2' w2'. NewLog demo ''data'' (c_small\<lparr>MaxStoreBytes := 1024\<rparr>) w_empty = (None, l2, w2) \<and>
    fsm_run ddx [cmd_of 1, cmd_of 2, cmd_of 3] (fst log0) (snd log0) = (Inr resps, l1', w1') \<and>
    fsm_run ddx [cmd_of 1, cmd_of 2, cmd_of 3] l2 w2 = (Inr resps, l2', w2') \<and>
    resps = [RespProduce \<lparr>pres_Offset = 16\<rparr>, RespProduce \<lparr>pres_Offset = 17\<rparr>, RespProduce \<lparr>pres_Offset = 18\<rparr>] \<and>
    log_contract demo (l1', w1') 16 rs' \<and> log_contract demo (l2', w2') 16 rs'"
proof -
  obtain l2 w2 where 2: "NewLog demo ''data'' (c_small\<lparr>MaxStoreBytes := 1024\<rparr>) w_empty = (None, l2, w2)"
    "log_contract demo (l2, w2) 16 []" using log_large by blast
  have s: "fst (spec_run ddx 16 [cmd_of 1, cmd_of 2, cmd_of 3] []) =
      [RespProduce \<lparr>pres_Offset = 16\<rparr>, RespProduce \<lparr>pres_Offset = 17\<rparr>, RespProduce \<lparr>pres_Offset = 18\<rparr>]"
    by (simp add: cmd_of_simps)
  from replicas_agree [of ddx "fst log0" "snd log0" 16 "[]" l2 w2] log0_contract 2(2) demo_cmds_ok
  show ?thesis using 2(1) s by (metis ddx_ext fst_conv)
qed

text \<open>
  C16. The log store of Raft. Entries stored at the indices that the log is about to give out are
  returned by \<^verbatim>\<open>GetLog\<close> with their data, term, type and index, and the first and the last index are
  those of the stored range. The extensions of an entry and the time at which it was appended are not
  stored: \<^verbatim>\<open>GetLog\<close> leaves in these two fields what the variable held, and Raft passes an empty one.
\<close>

theorem raft_store_round_trip:
  assumes "log_contract x (l, w) lo rs" and "consecutive (lo + length rs) es" and "lo + length rs + length es < 2 ^ 64"
    and "\<forall>i < length es. log_fits x (lo + length rs + i) (Some (record_of (es ! i)))"
  shows "\<exists>l' w'. StoreLogs x es l w = (None, l', w') \<and> FirstIndex l' = Inr (of_nat lo) \<and>
    LastIndex l' = Inr (of_nat (lo + length rs + length es - 1)) \<and>
    (\<forall>i < length es. \<forall>out. \<exists>l'' w''. GetLog x (rl_Index (es ! i)) out l' w' =
       ((None, (es ! i)\<lparr>rl_Extensions := rl_Extensions out, rl_AppendedAt := rl_AppendedAt out\<rparr>), l'', w''))"
proof -
  obtain l' w' where l': "StoreLogs x es l w = (None, l', w')"
    "log_contract x (l', w') lo (rs @ records_of (lo + length rs) es)" using StoreLogs_rep [OF assms(1,4)] by blast
  have "\<exists>l'' w''. GetLog x (rl_Index (es ! i)) out l' w' = ((None, stored out (es ! i)), l'', w'')" if "i < length es" for i out
    using GetLog_rep [OF l'(2) refl assms(2) that assms(3)] by blast
  then show ?thesis using l' index_range_rep [OF l'(2)] by (auto simp: add.assoc stored_def)
qed

definition demo_entry :: "nat \<Rightarrow> raft_Log" where
  "demo_entry n = \<lparr>rl_Index = of_nat n, rl_Term = 3, rl_Type = 1, rl_Data = [1, 2, 3], rl_Extensions = [9], rl_AppendedAt = 5\<rparr>"

definition empty_entry :: raft_Log where
  "empty_entry = \<lparr>rl_Index = 0, rl_Term = 0, rl_Type = 0, rl_Data = [], rl_Extensions = [], rl_AppendedAt = 0\<rparr>"

theorem raft_store_round_trip_witness:
  "\<exists>l' w' l'' w''. StoreLogs demo [demo_entry 16, demo_entry 17] (fst log0) (snd log0) = (None, l', w') \<and>
    LastIndex l' = Inr 17 \<and>
    GetLog demo (rl_Index ([demo_entry 16, demo_entry 17] ! 1)) empty_entry l' w' =
      ((None, (demo_entry 17)\<lparr>rl_Extensions := [], rl_AppendedAt := 0\<rparr>), l'', w'')"
proof -
  let ?es = "[demo_entry 16, demo_entry 17]"
  have c: "consecutive (16 + length ([] :: api_Record list)) ?es"
    by (auto simp: consecutive_def demo_entry_def less_Suc_eq)
  have f: "\<forall>i < length ?es. log_fits demo (16 + length ([] :: api_Record list) + i) (Some (record_of (?es ! i)))"
    by (auto intro!: demo_fits simp: record_of_def demo_entry_def less_Suc_eq)
  obtain l' w' where s: "StoreLogs demo ?es (fst log0) (snd log0) = (None, l', w')"
    "LastIndex l' = Inr (of_nat (16 + length ([] :: api_Record list) + length ?es - 1))"
    "\<forall>i < length ?es. \<forall>out. \<exists>l'' w''. GetLog demo (rl_Index (?es ! i)) out l' w' =
       ((None, (?es ! i)\<lparr>rl_Extensions := rl_Extensions out, rl_AppendedAt := rl_AppendedAt out\<rparr>), l'', w'')"
    using raft_store_round_trip [OF log0_contract c _ f] by auto
  have "1 < length ?es" by simp
  then obtain l'' w'' where "GetLog demo (rl_Index (?es ! 1)) empty_entry l' w' =
      ((None, (?es ! 1)\<lparr>rl_Extensions := rl_Extensions empty_entry, rl_AppendedAt := rl_AppendedAt empty_entry\<rparr>), l'', w'')"
    using s(3) by blast
  with s(1,2) show ?thesis by (auto simp: empty_entry_def)
qed

text \<open>
  C8. Appending through Raft. On a leader, an append to the distributed log returns the next offset,
  and the record is in the local log when the call returns.
\<close>

theorem distributed_append:
  assumes "dlog_contract dx rf lead (d, w) lo rs" and "dlog_fits dx (lo + length rs) r"
  shows "\<exists>d' w' d'' w''. DistributedLog_Append dx rf r d w = (Inr (of_nat (lo + length rs)), d', w') \<and>
    dlog_contract dx rf lead (d', w') lo (rs @ [log_stamp (lo + length rs) r]) \<and>
    DistributedLog_Read (dx_ext dx) (of_nat (lo + length rs)) d' w' = (Inr (log_stamp (lo + length rs) r), d'', w'')"
proof -
  obtain d' w' where d': "DistributedLog_Append dx rf r d w = (Inr (of_nat (lo + length rs)), d', w')"
    "dlog_contract dx rf lead (d', w') lo (rs @ [log_stamp (lo + length rs) r])"
    using DistributedLog_Append_contract [OF assms] by blast
  from dl.append_read [of dx rf lead "(d, w)", OF assms] d'(1) show ?thesis using d' by auto
qed

definition dlog0 :: "raft_demo DistributedLog" where
  "dlog0 = \<lparr>dl_config = \<lparr>dc_Segment = c_small, dc_Raft = rf_DefaultConfig rf_demo, dc_BindAddr = ''127.0.0.1:8400'',
     dc_Bootstrap = True\<rparr>, dl_log = fst log0, dl_raft = [(''0'', ''127.0.0.1:8400'')]\<rparr>"

lemma dlog0_contract: "dlog_contract ddx rf_demo lead_demo (dlog0, snd log0) 16 []"
  using log0_contract by (simp add: dlog_contract_def dlog0_def lead_demo_def)

theorem distributed_append_witness:
  "\<exists>d' w' d'' w''. DistributedLog_Append ddx rf_demo (Some (rec_of 1)) dlog0 (snd log0) = (Inr 16, d', w') \<and>
    DistributedLog_Read demo 16 d' w' = (Inr ((rec_of 1)\<lparr>r_Offset := 16\<rparr>), d'', w'')"
proof -
  have "dlog_fits ddx (16 + length ([] :: api_Record list)) (Some (rec_of 1))"
    using demo_fits [of 16 "rec_of 1"] by (simp add: dlog_fits_def rec_of_def ddx_def demo_marshal_def)
  from distributed_append [OF dlog0_contract this] show ?thesis by (auto simp: log_stamp_def)
qed

text \<open>
  C7. A cluster never contradicts itself. Let the servers of a cluster start with empty logs, and let committing,
  applying and local reads of any server interleave in any order. Then all servers give the same response
  to a committed command; a read on any server at any time returns the record that all of them have at the
  offset in the end, or reports that the offset is out of range; once a server has answered an append, every
  later read on it finds the record; and a server that lags behind can always apply the next command.
\<close>

theorem cluster_agrees:
  assumes "cl_run dx c0 evs c" and "cl_committed c0 = []" and "\<And>i. cl_applied c0 i = 0"
    and "\<And>i. log_contract (dx_ext dx) (dl_log (fst (cl_node c0 i)), snd (cl_node c0 i)) lo []"
    and "cmds_ok dx lo (cl_committed c) []"
  defines "R \<equiv> snd (spec_run dx lo (cl_committed c) [])"
  shows "(\<forall>i k resp. Applied i k resp \<in> set evs \<longrightarrow> k < length (cl_committed c) \<and> resp = fst (spec_run dx lo (cl_committed c) []) ! k) \<and>
    (\<forall>i off r. ReadAnswer i off (Inr r) \<in> set evs \<longrightarrow> lo \<le> unat off \<and> unat off < lo + length R \<and> r = R ! (unat off - lo)) \<and>
    (\<forall>i off e. ReadAnswer i off (Inl e) \<in> set evs \<longrightarrow> e = ErrOffsetOutOfRange off) \<and>
    (\<forall>before rest i k off res. evs = before @ ReadAnswer i off res # rest \<and>
       Applied i k (RespProduce \<lparr>pres_Offset = off\<rparr>) \<in> set before \<longrightarrow> res = Inr (R ! (unat off - lo))) \<and>
    (\<forall>i. cl_applied c i < length (cl_committed c) \<longrightarrow> (\<exists>resp c'. cl_step dx c (Applied i (cl_applied c i) resp) c'))"
proof -
  note inv = cl_run_inv [OF assms(1-5)]
  have R: "R = recs_after dx lo (cl_committed c)" by (simp add: R_def recs_after_def)
  have reads: "res = read_answer lo R off \<or> res = Inl (ErrOffsetOutOfRange off)" if "ReadAnswer i off res \<in> set evs" for i off res
    using event_at [OF inv that] read_answer_prefix(1) [OF recs_after_take] unfolding R by fastforce
  have "k < length (cl_committed c) \<and> resp = fst (spec_run dx lo (cl_committed c) []) ! k" if "Applied i k resp \<in> set evs" for i k resp
    using event_at [OF inv that] by (auto simp: resps_after_def)
  moreover have "lo \<le> unat off \<and> unat off < lo + length R \<and> r = R ! (unat off - lo)" if "ReadAnswer i off (Inr r) \<in> set evs" for i off r
    using reads [OF that] by (auto simp: read_answer_def split: if_splits)
  moreover have "e = ErrOffsetOutOfRange off" if "ReadAnswer i off (Inl e) \<in> set evs" for i off e
    using reads [OF that] by (auto simp: read_answer_def split: if_splits)
  ultimately show ?thesis
    using read_acknowledged [OF inv assms(5)] cl_apply_possible [OF inv assms(5)] unfolding R by blast
qed

definition demo_cluster :: "raft_demo cluster" where
  "demo_cluster = \<lparr>cl_committed = [], cl_node = (\<lambda>i. (dlog0, snd log0)), cl_applied = (\<lambda>i. 0)\<rparr>"

theorem cluster_agrees_witness:
  "\<exists>res1 res2 c. cl_run ddx demo_cluster
      [Committed (cmd_of 1), Applied 1 0 (RespProduce \<lparr>pres_Offset = 16\<rparr>), ReadAnswer 1 16 res1, ReadAnswer 2 16 res2] c \<and>
    res1 = Inr ((rec_of 1)\<lparr>r_Offset := 16\<rparr>) \<and> (\<forall>e. res2 = Inl e \<longrightarrow> e = ErrOffsetOutOfRange 16)"
proof -
  have init: "cl_committed demo_cluster = []" "\<And>i. cl_applied demo_cluster i = 0"
    "\<And>i. log_contract (dx_ext ddx) (dl_log (fst (cl_node demo_cluster i)), snd (cl_node demo_cluster i)) 16 []"
    using log0_contract by (simp_all add: demo_cluster_def dlog0_def)
  have cmds: "cmds_ok ddx 16 [cmd_of 1] []" "spec_run ddx 16 [cmd_of 1] [] =
      ([RespProduce \<lparr>pres_Offset = 16\<rparr>], [(rec_of 1)\<lparr>r_Offset := 16\<rparr>])" by (simp_all add: cmd_of_simps)
  note th = cluster_agrees [OF _ init, of _ _ ]
  obtain c1 where c1: "cl_run ddx demo_cluster [Committed (cmd_of 1)] c1" "cl_committed c1 = [cmd_of 1]" "\<And>i. cl_applied c1 i = 0"
    using cl_run.step [OF cl_run.start cl_step.commit, of ddx demo_cluster "cmd_of 1"] by (auto simp: demo_cluster_def)
  obtain resp c2 where s2: "cl_step ddx c1 (Applied 1 0 resp) c2"
    using th [OF c1(1)] c1(2,3) cmds(1) by (auto dest: spec [of _ 1])
  have c2: "cl_run ddx demo_cluster [Committed (cmd_of 1), Applied 1 0 resp] c2" "cl_committed c2 = [cmd_of 1]"
    using cl_run.step [OF c1(1) s2] s2 c1(2) by (auto elim: cl_stepE)
  obtain res1 d w where r1: "cl_step ddx c2 (ReadAnswer 1 16 res1) (c2\<lparr>cl_node := (cl_node c2)(1 := (d, w))\<rparr>)" (is "cl_step _ _ _ ?c3")
    by (metis cl_step.read_local prod.exhaust)
  obtain res2 d2 w2 where r2: "cl_step ddx ?c3 (ReadAnswer 2 16 res2) (?c3\<lparr>cl_node := (cl_node ?c3)(2 := (d2, w2))\<rparr>)" (is "cl_step _ _ _ ?c4")
    by (metis cl_step.read_local prod.exhaust)
  have run: "cl_run ddx demo_cluster [Committed (cmd_of 1), Applied 1 0 resp, ReadAnswer 1 16 res1, ReadAnswer 2 16 res2] ?c4"
    using cl_run.step [OF cl_run.step [OF c2(1) r1] r2] by simp
  from th [OF run] cmds c2(2) have t: "resp = RespProduce \<lparr>pres_Offset = 16\<rparr>"
    "\<And>e. res2 = Inl e \<Longrightarrow> e = ErrOffsetOutOfRange 16" by auto
  have "res1 = Inr ([(rec_of 1)\<lparr>r_Offset := 16\<rparr>] ! (unat (16 :: u64) - 16))"
    using th [OF run, THEN conjunct2, THEN conjunct2, THEN conjunct2, THEN conjunct1, rule_format,
        of "[Committed (cmd_of 1), Applied 1 0 resp]" 1 16 res1 "[ReadAnswer 2 16 res2]" 0] cmds c2(2) t(1) by simp
  then show ?thesis using run t by auto
qed

section \<open>The service\<close>

text \<open>
  C15. A stream of produce requests by an allowed client: every request is answered, in order, with
  consecutive offsets, and the log ends with exactly these records.
\<close>

theorem produce_stream:
  assumes "allowed (log_server x au gs) c produceAction" and "log_contract x s lo rs"
    and "\<forall>i < length reqs. log_fits x (lo + length rs + i) (preq_Record (reqs ! i))"
  shows "\<exists>s'. ProduceStream (log_server x au gs) c (map (\<lambda>req. (Inr req, None)) reqs) s =
      (Running, map (\<lambda>i. \<lparr>pres_Offset = of_nat (lo + length rs + i)\<rparr>) [0..<length reqs], s') \<and>
    log_contract x s' lo (rs @ map (\<lambda>i. log_stamp (lo + length rs + i) (preq_Record (reqs ! i))) [0..<length reqs])"
proof -
  have "lg.stamps (lo + length rs) (map preq_Record reqs) =
      map (\<lambda>i. log_stamp (lo + length rs + i) (preq_Record (reqs ! i))) [0..<length reqs]"
    by (simp add: lg.stamps_def)
  then show ?thesis using lgs.ProduceStream_rep [OF assms] by simp
qed

theorem produce_stream_witness:
  "\<exists>s'. ProduceStream scfg (ctx_of ''root'') [(Inr \<lparr>preq_Record = Some (rec_of 4)\<rparr>, None), (Inr \<lparr>preq_Record = Some (rec_of 5)\<rparr>, None)]
      (fst log3, snd log3) = (Running, [\<lparr>pres_Offset = 19\<rparr>, \<lparr>pres_Offset = 20\<rparr>], s') \<and>
    log_contract demo s' 16 (recs3 @ [(rec_of 4)\<lparr>r_Offset := 19\<rparr>, (rec_of 5)\<lparr>r_Offset := 20\<rparr>])"
proof -
  let ?reqs = "[\<lparr>preq_Record = Some (rec_of 4)\<rparr>, \<lparr>preq_Record = Some (rec_of 5)\<rparr>]"
  have "\<forall>i < length ?reqs. log_fits demo (16 + length recs3 + i) (preq_Record (?reqs ! i))"
    by (auto intro!: demo_fits simp: less_Suc_eq recs3_def rec_of_def)
  from produce_stream [OF root_allowed(1) [unfolded scfg_def] log3_contract this]
  show ?thesis by (simp add: scfg_def recs3_def log_stamp_def upt_conv_Cons)
qed

text \<open>
  C12. A stream of consume responses. While other clients may extend the log between two polls, the
  stream delivers an initial part of the records from the requested offset on: in order, none twice
  and none left out. As long as the context is not done and no send fails, the handler keeps running
  and has delivered at least as many records as it made polls, or all that were there at the start.
\<close>

theorem consume_stream:
  assumes "allowed (log_server x au gs) c consumeAction" and "log_contract x s lo rs"
    and "\<forall>t \<in> set ts. \<forall>s lo rs. log_contract x s lo rs \<longrightarrow> (\<exists>more. log_contract x (tk_others t s) lo (rs @ more))"
    and "lo \<le> unat (creq_Offset req)" and "unat (creq_Offset req) \<le> lo + length rs"
  shows "\<exists>out sent s' more k. ConsumeStream (log_server x au gs) c req ts s = (out, sent, s') \<and>
    log_contract x s' lo (rs @ more) \<and>
    map cres_Record sent = take k (drop (unat (creq_Offset req) - lo) (rs @ more)) \<and>
    ((\<forall>t \<in> set ts. tk_send t = None \<and> \<not> tk_done t) \<longrightarrow> out = Running \<and>
       length sent \<ge> min (length ts) (lo + length rs - unat (creq_Offset req)))"
  by (rule lgs.ConsumeStream_rep [OF assms(1) _ assms(2,4,5) log_contract_bound])
     (use assms(3) in \<open>simp_all add: lgs.extends_def\<close>)

definition quiet_tick :: "(Log \<times> world) tick" where
  "quiet_tick = \<lparr>tk_done = False, tk_others = (\<lambda>s. s), tk_send = None\<rparr>"

theorem consume_stream_witness:
  "\<exists>sent s' more k. ConsumeStream scfg (ctx_of ''root'') \<lparr>creq_Offset = 17\<rparr> [quiet_tick, quiet_tick, quiet_tick]
      (fst log3, snd log3) = (Running, sent, s') \<and>
    map cres_Record sent = take k (drop 1 (recs3 @ more)) \<and> 2 \<le> length sent"
proof -
  have "\<forall>t \<in> set [quiet_tick, quiet_tick, quiet_tick]. \<forall>s lo rs. log_contract demo s lo rs \<longrightarrow>
      (\<exists>more. log_contract demo (tk_others t s) lo (rs @ more))"
    by (auto simp: quiet_tick_def intro!: exI [of _ "[]"])
  from consume_stream [OF root_allowed(2) [unfolded scfg_def] log3_contract this, of "\<lparr>creq_Offset = 17\<rparr>"]
  obtain out sent s' more k where "ConsumeStream scfg (ctx_of ''root'') \<lparr>creq_Offset = 17\<rparr>
      [quiet_tick, quiet_tick, quiet_tick] (fst log3, snd log3) = (out, sent, s')"
    "map cres_Record sent = take k (drop (17 - 16) (recs3 @ more))"
    "out = Running \<and> length sent \<ge> min 3 (16 + 3 - 17)"
    unfolding scfg_def [symmetric] by (auto simp: recs3_def quiet_tick_def simp del: ConsumeStream.simps)
  then show ?thesis by (intro exI [of _ sent] exI [of _ s'] exI [of _ more] exI [of _ k]) simp
qed

text \<open>
  C21. Denied clients. When the enforcer denies the action, the four handlers of records refuse: \<^verbatim>\<open>Produce\<close>
  and \<^verbatim>\<open>Consume\<close> answer with the status \<^verbatim>\<open>PermissionDenied\<close>, and neither they nor the streams touch the log
  or send anything. The fifth handler, \<^verbatim>\<open>GetServers\<close>, does not ask the authorizer: it answers every client
  alike, also one that may neither produce nor consume.
\<close>

theorem denied_untouched:
  assumes "subject c = Inr sub" and "au_enforcer (sc_Authorizer cfg) sub objectWildcard produceAction = Inr False"
    and "au_enforcer (sc_Authorizer cfg) sub objectWildcard consumeAction = Inr False"
  shows "Produce cfg c preq s = (Inl (Status Code_PermissionDenied (sub @ '' not permitted to produce'')), s) \<and>
    Consume cfg c creq s = (Inl (Status Code_PermissionDenied (sub @ '' not permitted to consume'')), s) \<and>
    ProduceStream cfg c ((Inr preq, send) # es) s =
      (Returned (Some (Status Code_PermissionDenied (sub @ '' not permitted to produce''))), [], s) \<and>
    ConsumeStream cfg c creq (t # ts) s =
      (Returned (if tk_done t then None
        else Some (Status Code_PermissionDenied (sub @ '' not permitted to consume''))), [], tk_others t s) \<and>
    server_GetServers cfg c s = server_GetServers cfg c' s \<and>
    (sc_GetServerer cfg s = (Inr srvs, s') \<longrightarrow> server_GetServers cfg c s = (Inr \<lparr>gres_Servers = srvs\<rparr>, s'))"
  using assms by (simp add: server_GetServers_def Produce_def Consume_def Authorize_def produceAction_def consumeAction_def out_of_range_def)

theorem denied_untouched_witness:
  "Produce scfg (ctx_of ''nobody'') \<lparr>preq_Record = Some (rec_of 1)\<rparr> log3 =
    (Inl (Status Code_PermissionDenied ''nobody not permitted to produce''), log3) \<and>
   server_GetServers scfg (ctx_of ''nobody'') log3 = (Inr \<lparr>gres_Servers = []\<rparr>, log3)"
proof -
  have "subject (ctx_of ''nobody'') = Inr ''nobody''" "au_enforcer (sc_Authorizer scfg) ''nobody'' objectWildcard a = Inr False" for a
    by (simp_all add: ctx_of_def subject_def scfg_def log_server_def acl_def)
  note d = denied_untouched [OF this(1) this(2) this(2), where s = log3 and srvs = "[]" and s' = log3]
  have "sc_GetServerer scfg log3 = (Inr [], log3)" by (simp add: scfg_def log_server_def)
  with d [where preq = "\<lparr>preq_Record = Some (rec_of 1)\<rparr>"] show ?thesis by auto
qed

section \<open>Where the code falls short\<close>

text \<open>
  C32. \<^verbatim>\<open>DeleteRange\<close> on the end of the log. Raft deletes the conflicting entries at the end of a
  follower's log by \<^verbatim>\<open>DeleteRange(min, last)\<close>. The code ignores \<open>min\<close> and truncates: every entry is gone,
  those below \<open>min\<close> too, and the next \<^verbatim>\<open>FirstIndex\<close> or \<^verbatim>\<open>LastIndex\<close> panics.
\<close>

theorem delete_range_removes_all:
  assumes "log_contract x (l, w) lo rs" and "lo + length rs \<le> unat mx + 1" and "unat mx + 1 < 2 ^ 64"
  shows "\<exists>l' w'. DeleteRange x mn mx l w = (None, l', w') \<and>
    FirstIndex l' = Inl (Panic ''index out of range'') \<and> LastIndex l' = Inl (Panic ''index out of range'') \<and>
    (\<forall>index out w''. GetLog x index out l' w'' = ((Some (ErrOffsetOutOfRange index), out), l', w''))"
  using Log_Truncate_everything [OF assms]
  by (auto simp: DeleteRange_def FirstIndex_def LastIndex_def GetLog_def)

theorem delete_range_removes_all_witness:
  "\<exists>l' w'. DeleteRange demo 18 18 (fst log3) (snd log3) = (None, l', w') \<and>
    FirstIndex l' = Inl (Panic ''index out of range'') \<and>
    (\<forall>out w''. GetLog demo 16 out l' w'' = ((Some (ErrOffsetOutOfRange 16), out), l', w''))"
  using delete_range_removes_all [OF log3_contract, of 18 18] by (auto simp: recs3_def)

text \<open>
  \<^verbatim>\<open>Reset\<close> never succeeds, from no state and under no sequence of system-call faults: it removes the
  directory, and setting the log up again lists that directory without creating it.
\<close>

theorem reset_never_succeeds: "fst (Log_Reset x l w) \<noteq> None"
  by (rule Log_Reset_fails)

text \<open>
  C33. Consequently \<^verbatim>\<open>Restore\<close> succeeds on the empty snapshot and on no other.
\<close>

theorem restore_only_empty: "fst (fsm_Restore x (Stream bs err) l w) = None \<longleftrightarrow> bs = [] \<and> err = EOF"
  by (rule fsm_Restore_iff)

text \<open>
  C34. A committed append command without a record makes \<^verbatim>\<open>Apply\<close> panic, on every server that applies it,
  whatever the state of its log.
\<close>

theorem nil_record_panics:
  assumes "rl_Data e = AppendRequestType # b" and "preq_unmarshal dx b = Inr \<lparr>preq_Record = None\<rparr>"
  shows "fst (fsm_Apply dx e l w) = Inl (Panic ''nil pointer dereference'')"
  using assms by (auto simp: fsm_Apply_def applyAppend_def Log_Append_def segment_Append_nil split: option.splits)

theorem nil_record_panics_witness:
  "fst (fsm_Apply ddx \<lparr>rl_Index = 1, rl_Term = 1, rl_Type = 0, rl_Data = [0], rl_Extensions = [], rl_AppendedAt = 0\<rparr> (fst log3) (snd log3)) =
    Inl (Panic ''nil pointer dereference'')"
  by (rule nil_record_panics [where b = "[]"]) (simp_all add: AppendRequestType_def ddx_def)


text \<open>
  C30. Snapshots of a log that this process has written are empty. \<^verbatim>\<open>Persist\<close> copies every store from the
  kernel's read position of its file, and writing leaves that position at the end. After any history
  of appends and reads since the log was created, it passes nothing to the sink and closes it without
  complaint; and restoring what it wrote succeeds on any server without touching its log. So Raft
  takes the records for saved, while no snapshot holds them.
\<close>

theorem snapshot_loses_records:
  assumes "log_run x dir c w0 evs (l, w)" and "writes_only evs"
    and "config_ok (config_defaults c)" and "codec_ok x" and "mmap_ok x" and "quiet w0" and "names w0 dir = Some []"
  shows "snapshot_Persist sk (fsm_Snapshot l) l w k = (fst (sk_Close sk k), w, snd (sk_Close sk k)) \<and>
    fsm_Restore x (Stream [] EOF) l' w' = (None, l', w')"
proof -
  have "at_end (lg_Dir l) w" using log_run_at_end [OF assms] by simp
  moreover obtain lo rs where "log_contract x (l, w) lo rs"
    using log_run_inv [OF assms(1,3-7)] by (auto simp: history_inv_def)
  ultimately have "snapshot_Persist sk (fsm_Snapshot l) l w k = (fst (sk_Close sk k), w, snd (sk_Close sk k))"
    by (intro Persist_at_end)
  moreover have "fsm_Restore x (Stream [] EOF) l' w' = (None, l', w')"
    by (simp add: fsm_Restore_def Restore_loop.simps io_ReadFull_def recordLenBytes_def)
  ultimately show ?thesis ..
qed

definition sink_demo :: "bytes sinklib" where
  "sink_demo = \<lparr>sk_Write = (\<lambda>b k. (None, k @ b)), sk_Close = (\<lambda>k. (None, k)), sk_Cancel = (\<lambda>k. (None, k))\<rparr>"

theorem snapshot_loses_records_witness:
  "\<exists>l w. log_run demo ''data'' c_small w_empty [Appended (rec_of 1) 16, Appended (rec_of 2) 17] (l, w) \<and>
    snapshot_Persist sink_demo (fsm_Snapshot l) l w [] = (None, w, [])"
proof -
  obtain l w where "NewLog demo ''data'' c_small w_empty = (None, l, w)"
    using NewLog_empty_contract [OF c_small_defaults(1) demo_codec_ok demo_mmap_ok w_empty_ok] by auto
  then have "log_run demo ''data'' c_small w_empty [] (l, w)" by (rule log_run.start)
  from run_appended [OF this, of 1] obtain s1 where 1: "log_run demo ''data'' c_small w_empty [Appended (rec_of 1) 16] s1"
    by auto
  from run_appended [OF 1, of 2] obtain l2 w2 where
    2: "log_run demo ''data'' c_small w_empty [Appended (rec_of 1) 16, Appended (rec_of 2) 17] (l2, w2)" by auto
  have "snapshot_Persist sink_demo (fsm_Snapshot l2) l2 w2 [] = (None, w2, [])"
    using snapshot_loses_records [OF 2 _ c_small_defaults(1) demo_codec_ok demo_mmap_ok w_empty_ok, of sink_demo "[]" l2 w2]
    by (simp add: sink_demo_def)
  with 2 show ?thesis by blast
qed

end
