(* ===== verification/Crash.thy ===== *)
theory Crash
  imports CommitLog
begin

text \<open>
  A log whose process was killed (src/internal/log: \<^verbatim>\<open>newIndex\<close>, \<^verbatim>\<open>newSegment\<close>, \<^verbatim>\<open>Log.setup\<close>). Nothing is closed:
  what the stores had in their write buffers is gone, and the index files keep the full length that
  they were mapped with, since only \<^verbatim>\<open>index.Close\<close> cuts them to their entries. The mapping is shared, so
  the files show what was written through it. The lemmas follow such files through \<^verbatim>\<open>NewLog\<close>.
\<close>

section \<open>What a killed process leaves behind\<close>

definition crashed :: "Log \<Rightarrow> world \<Rightarrow> world" where
  "crashed l w = fold (\<lambda>s. fput (index_Name (sg_index s)) (ix_mmap (sg_index s))) (segs l) w"

lemma fget_fput_there: "fget w p = Some c \<Longrightarrow> fget (fput p bs w) p = Some bs"
  by (auto dest: fget_dir)

lemma crash_fold:
  assumes "distinct (map (\<lambda>s. index_Name (sg_index s)) ss)"
    and "\<forall>s \<in> set ss. fget w (index_Name (sg_index s)) \<noteq> None" and "quiet w"
  defines "w' \<equiv> fold (\<lambda>s. fput (index_Name (sg_index s)) (ix_mmap (sg_index s))) ss w"
  shows "\<forall>s \<in> set ss. fget w' (index_Name (sg_index s)) = Some (ix_mmap (sg_index s))"
    and "touches ((\<lambda>s. index_Name (sg_index s)) ` set ss) w w'"
  unfolding w'_def using assms(1-3)
proof (induction ss arbitrary: w)
  case Nil
  case 1 then show ?case by simp
  case 2 then show ?case by (simp add: touches_refl)
next
  case (Cons s ss)
  case 1
  let ?p = "\<lambda>s. index_Name (sg_index s)"
  let ?w = "fput (?p s) (ix_mmap (sg_index s)) w"
  from 1 obtain c where "fget w (?p s) = Some c" by auto
  then have "fget ?w (?p s) = Some (ix_mmap (sg_index s))" by (rule fget_fput_there)
  moreover have "touches (?p ` set ss) ?w (fold (\<lambda>s. fput (?p s) (ix_mmap (sg_index s))) ss ?w)"
    using Cons.IH(2) [of ?w] 1 by auto
  moreover have "?p s \<notin> ?p ` set ss" using 1 by auto
  ultimately show ?case using Cons.IH(1) [of ?w] 1 touches_fget by auto
  case 2
  let ?v = "fput (?p s) (ix_mmap (sg_index s)) w"
  have "touches {?p s} w ?v" using 2 by (intro touches_fput) auto
  then have "touches (?p ` set (s # ss)) w ?v" by (rule touches_mono) simp
  moreover have "touches (?p ` set ss) ?v (fold (\<lambda>s. fput (?p s) (ix_mmap (sg_index s))) ss ?v)"
    using Cons.IH(2) [of ?v] 2 by auto
  then have "touches (?p ` set (s # ss)) ?v (fold (\<lambda>s. fput (?p s) (ix_mmap (sg_index s))) ss ?v)"
    by (rule touches_mono) auto
  ultimately show ?case by (auto intro: touches_trans)
qed

section \<open>Opening the files of a segment\<close>

text \<open>The relative offset in the last slot of a mapped index file.\<close>

definition last_slot :: "bytes \<Rightarrow> u32" where
  "last_slot m = Uint32 (take 4 (drop (12 * (length m div 12 - 1)) m))"

definition left_open :: "string \<Rightarrow> Config \<Rightarrow> world \<Rightarrow> u64 \<Rightarrow> bytes \<Rightarrow> bool" where
  "left_open dir c w b m \<longleftrightarrow> fget w (dir, store_file b) \<noteq> None \<and> fget w (dir, index_file b) = Some m \<and>
     length m = unat (MaxIndexBytes c)"

definition opened_full :: "Config \<Rightarrow> u64 \<Rightarrow> bytes \<Rightarrow> segment \<Rightarrow> bool" where
  "opened_full c b m s \<longleftrightarrow> sg_baseOffset s = b \<and> sg_config s = c \<and> ix_size (sg_index s) = MaxIndexBytes c \<and>
     ix_mmap (sg_index s) = m \<and> sg_nextOffset s = b + ucast (last_slot m) + 1"

lemma index_Read_last_slot:
  assumes "config_ok c" "length (ix_mmap i) = unat (MaxIndexBytes c)" "ix_mapped i" "ix_size i = MaxIndexBytes c"
  shows "\<exists>pos. index_Read (-1) i = Inr (last_slot (ix_mmap i), pos)"
proof -
  let ?n = "unat (MaxIndexBytes c)"
  let ?k = "?n div 12 - 1"
  let ?out = "ucast (ix_size i div entWidth - 1) :: u32"
  have n: "12 \<le> ?n" "?n < 2 ^ 32" using assms(1) by (auto simp: config_ok_def)
  have k: "12 * ?k + 12 \<le> ?n" "?k < 2 ^ 32" using n by linarith+
  have "unat (ix_size i div entWidth) = ?n div 12" using assms(4) by (simp add: entWidth_eq unat_div)
  then have "ix_size i div entWidth - 1 = of_nat ?k"
    using n by (intro u64_of_nat_eq) (simp_all add: unat_u64_sub)
  then have "?out = of_nat ?k" by (simp only: ucast_u64_u32_of_nat)
  then have "unat ?out = ?k" using k(2) by (simp only: u32_of_nat)
  then have pos: "unat (ucast ?out * entWidth :: u64) = 12 * ?k"
    using k n by (simp add: entWidth_eq unat_word_ariths)
  have p: "unat (ucast ?out * entWidth + offWidth :: u64) = 12 * ?k + 4"
    "unat (ucast ?out * entWidth + entWidth :: u64) = 12 * ?k + 12"
    using pos k n by (simp_all add: unat_u64_add offWidth_def entWidth_eq)
  have "mem_slice i (ucast ?out * entWidth) (ucast ?out * entWidth + offWidth) = Inr (take 4 (drop (12 * ?k) (ix_mmap i)))"
    using pos p k assms(2,3) by (simp add: mem_slice_def u64_less_iff)
  moreover have "\<exists>b. mem_slice i (ucast ?out * entWidth + offWidth) (ucast ?out * entWidth + entWidth) = Inr b"
    using pos p k assms(2,3) by (simp add: mem_slice_def u64_less_iff)
  moreover have "ix_size i \<noteq> 0" "\<not> ix_size i < ucast ?out * entWidth + entWidth"
    using assms(4) n p k by (auto simp: u64_simps)
  ultimately show ?thesis using assms(2) by (auto simp: index_Read_def Let_def last_slot_def)
qed

lemma fget_fput_same: "fget w p = Some c \<Longrightarrow> fget (fput p c w) = fget w"
  by (auto simp: fun_eq_iff dest: fget_dir)

lemma newSegment_left_open:
  assumes "left_open dir c w b m" "config_ok c" "mmap_ok x" "quiet w"
  shows "\<exists>s w'. newSegment x dir b c w = (Inr s, w') \<and> opened_full c b m s \<and> quiet w' \<and> fget w' = fget w"
proof -
  let ?p = "(dir, store_file b)" and ?q = "(dir, index_file b)"
  obtain cs where f: "fget w ?p = Some cs" "fget w ?q = Some m" "length m = unat (MaxIndexBytes c)"
    using assms(1) by (auto simp: left_open_def)
  have n: "12 \<le> unat (MaxIndexBytes c)" "unat (MaxIndexBytes c) < 2 ^ 32" using assms(2) by (auto simp: config_ok_def)
  obtain d where d: "fs w dir = Some d" using fget_dir [OF f(1)] by auto
  let ?w1 = "w\<lparr>fpos := (fpos w)(?p := 0)\<rparr>"
  let ?w2 = "?w1\<lparr>fpos := (fpos ?w1)(?q := 0)\<rparr>"
  have o1: "os_OpenFile ?p w = (Inr \<lparr>fname = ?p, fclosed = False\<rparr>, ?w1)"
    using assms(4) f(1) d by (simp add: os_OpenFile_def Let_def)
  have o2: "os_OpenFile ?q ?w1 = (Inr \<lparr>fname = ?q, fclosed = False\<rparr>, ?w2)"
    using assms(4) f(2) d by (simp add: os_OpenFile_def Let_def)
  have st: "newStore \<lparr>fname = ?p, fclosed = False\<rparr> ?w1 =
      (Inr \<lparr>st_File = \<lparr>fname = ?p, fclosed = False\<rparr>, st_buf = bufio_NewWriter, st_size = of_nat (length cs)\<rparr>, ?w1)"
    using assms(4) f(1) by (simp add: newStore_def os_Stat_quiet)
  let ?w3 = "fput ?q m ?w2"
  have w3: "fget ?w3 = fget w" "quiet ?w3"
    using fget_fput_same [of ?w2 ?q m] f(2) assms(4) by (simp_all add: fun_eq_iff)
  have "m \<noteq> []" using f(3) n by auto
  then have mm: "mm_Map x m = Inr m" using assms(3) by (simp add: mmap_ok_def)
  let ?i = "\<lparr>ix_file = \<lparr>fname = ?q, fclosed = False\<rparr>, ix_mmap = m, ix_mapped = True, ix_size = MaxIndexBytes c\<rparr>"
  have "resize (unat (MaxIndexBytes c)) m = m" using f(3) by (metis resize_self)
  then have "os_Truncate ?q (MaxIndexBytes c) ?w2 = (None, ?w3)"
    using os_Truncate_quiet [of ?w2 ?q m "MaxIndexBytes c"] f(2) assms(4) n(2) by simp
  moreover have "os_Stat ?q ?w2 = (Inr (length m), ?w2)" using f(2) assms(4) by (simp add: os_Stat_quiet)
  moreover have "fget ?w3 ?q = Some m" using w3(1) f(2) by simp
  moreover have "of_nat (length m) = MaxIndexBytes c" using f(3) by simp
  ultimately have ni: "newIndex x \<lparr>fname = ?q, fclosed = False\<rparr> c ?w2 = (Inr ?i, ?w3)"
    using mm w3(2) by (simp add: newIndex_def mmap_quiet file_bytes_def)
  obtain pos where "index_Read (-1) ?i = Inr (last_slot m, pos)"
    using index_Read_last_slot [of c ?i] assms(2) f(3) by auto
  then show ?thesis using w3 o1 st o2 ni by (simp add: newSegment_def opened_full_def)
qed

lemma setup_loop_left_open:
  assumes "list_all2 (left_open (lg_Dir l) (lg_Config l) w) bs ms" "config_ok (lg_Config l)" "mmap_ok x" "quiet w"
  shows "\<exists>ss w'. setup_loop x (concat (map (\<lambda>b. [b, b]) bs)) l w =
      (None, l\<lparr>lg_heap := lg_heap l @ ss,
               lg_segments := lg_segments l @ [length (lg_heap l)..<length (lg_heap l) + length ss],
               lg_active := (if ss = [] then lg_active l else Some (length (lg_heap l) + length ss - 1))\<rparr>, w') \<and>
    list_all2 (\<lambda>(b, m) s. opened_full (lg_Config l) b m s) (zip bs ms) ss"
  using assms
proof (induction bs arbitrary: l w ms)
  case Nil
  then show ?case by (auto intro!: exI [of _ w])
next
  case (Cons b bs)
  then obtain m ms' where ms: "ms = m # ms'" "left_open (lg_Dir l) (lg_Config l) w b m"
    "list_all2 (left_open (lg_Dir l) (lg_Config l) w) bs ms'" by (auto simp: list_all2_Cons1)
  obtain s w1 where s: "newSegment x (lg_Dir l) b (lg_Config l) w = (Inr s, w1)" "opened_full (lg_Config l) b m s"
    "quiet w1" "fget w1 = fget w"
    using newSegment_left_open [OF ms(2)] Cons.prems by blast
  let ?l = "l\<lparr>lg_heap := lg_heap l @ [s], lg_segments := lg_segments l @ [length (lg_heap l)],
    lg_active := Some (length (lg_heap l))\<rparr>"
  have "list_all2 (left_open (lg_Dir ?l) (lg_Config ?l) w1) bs ms'"
    by (rule list.rel_mono_strong [OF ms(3)]) (simp add: left_open_def s(4))
  then obtain ss w' where IH: "setup_loop x (concat (map (\<lambda>b. [b, b]) bs)) ?l w1 =
      (None, ?l\<lparr>lg_heap := lg_heap ?l @ ss,
               lg_segments := lg_segments ?l @ [length (lg_heap ?l)..<length (lg_heap ?l) + length ss],
               lg_active := (if ss = [] then lg_active ?l else Some (length (lg_heap ?l) + length ss - 1))\<rparr>, w')"
    "list_all2 (\<lambda>(b, m) s. opened_full (lg_Config l) b m s) (zip bs ms') ss"
    using Cons.IH [of ?l w1 ms'] Cons.prems s(3) by auto
  have "setup_loop x (concat (map (\<lambda>b. [b, b]) (b # bs))) l w =
      (None, l\<lparr>lg_heap := lg_heap l @ s # ss,
               lg_segments := lg_segments l @ [length (lg_heap l)..<length (lg_heap l) + length (s # ss)],
               lg_active := Some (length (lg_heap l) + length ss)\<rparr>, w')"
    using s(1) IH(1) upt_conv_Cons [of n "n + length (s # ss)" for n]
    by (cases ss) (simp_all add: Log_newSegment_def del: upt_Suc)
  then show ?case using s(2) ms(1) IH(2) by (intro exI [of _ "s # ss"] exI [of _ w']) simp
qed

lemma NewLog_left_open:
  assumes "list_all2 (left_open dir c w) bs ms" "config_ok c" "mmap_ok x" "quiet w"
    and "names w dir = Some ns" "distinct ns" "set ns = seg_files bs" "sorted bs" "distinct bs" "bs \<noteq> []"
  shows "\<exists>l w'. NewLog x dir c w = (None, l, w') \<and> lg_segments l \<noteq> [] \<and> lg_active l = Some (last (lg_segments l)) \<and>
    (\<forall>a \<in> set (lg_segments l). a < length (lg_heap l)) \<and>
    list_all2 (\<lambda>(b, m) s. opened_full c b m s) (zip bs ms) (segs l)"
proof -
  let ?l = "\<lparr>lg_Dir = dir, lg_Config = c, lg_active = None, lg_segments = [], lg_heap = []\<rparr>"
  obtain ss w' where s: "setup_loop x (concat (map (\<lambda>b. [b, b]) bs)) ?l w =
      (None, ?l\<lparr>lg_heap := ss, lg_segments := [0..<length ss],
                lg_active := (if ss = [] then None else Some (length ss - 1))\<rparr>, w')"
    "list_all2 (\<lambda>(b, m) s. opened_full c b m s) (zip bs ms) ss"
    using setup_loop_left_open [of ?l w bs ms x] assms(1-4) by (auto cong: if_cong)
  define l where "l = ?l\<lparr>lg_heap := ss, lg_segments := [0..<length ss],
    lg_active := (if ss = [] then None else Some (length ss - 1))\<rparr>"
  have ne: "ss \<noteq> []"
    using list_all2_lengthD [OF s(2)] list_all2_lengthD [OF assms(1)] assms(10) by auto
  have "NewLog x dir c w = (None, l, w')"
    using s(1) assms ne sort_bases [OF assms(6-9)] config_defaults_id [OF assms(2)]
    by (simp add: NewLog_def Log_setup_def os_ReadDir_quiet l_def)
  moreover have "segs l = ss" by (auto simp: segs_def seg_of_def l_def intro: nth_equalityI)
  ultimately show ?thesis using s(2) ne by (intro exI [of _ l] exI [of _ w']) (auto simp: l_def last_upt)
qed

section \<open>The log after the crash\<close>

lemma last_slot_rep:
  assumes rep: "index_rep c i w es" and es: "map fst es = map of_nat [0..<length es]"
  shows "unat (last_slot (ix_mmap i)) = (if 12 * length es + 12 \<le> unat (MaxIndexBytes c) then 0 else length es - 1)"
proof -
  let ?m = "ix_mmap i" and ?n = "length es"
  have r: "length ?m = unat (MaxIndexBytes c)" "12 * ?n \<le> length ?m" "12 \<le> length ?m" "length ?m < 2 ^ 32"
    "drop (12 * ?n) ?m = replicate (length ?m - 12 * ?n) 0"
    using rep by (auto simp: index_rep_def config_ok_def)
  define k where "k = length ?m div 12 - 1"
  have k: "12 * k + 12 \<le> length ?m" "length ?m < 12 * k + 24" using r(3) unfolding k_def by linarith+
  show ?thesis
  proof (cases "12 * ?n + 12 \<le> length ?m")
    case True
    then have "?n \<le> k" using k by linarith
    then have e: "12 * (k - ?n) + 12 * ?n = 12 * k" by linarith
    have "drop (12 * (k - ?n)) (drop (12 * ?n) ?m) = drop (12 * k) ?m" unfolding drop_drop e ..
    then have "drop (12 * k) ?m = replicate (length ?m - 12 * k) 0" unfolding r(5) using e by (simp add: algebra_simps)
    moreover have "4 \<le> length ?m - 12 * k" using k by linarith
    ultimately have "take 4 (drop (12 * k) ?m) = replicate 4 0" by (simp only: take_replicate) (simp add: min_def)
    moreover have "Uint32 (replicate 4 0) = 0" by (simp add: Uint32_def)
    ultimately have "last_slot ?m = 0" unfolding last_slot_def k_def by (simp only:)
    with True r(1) show ?thesis by simp
  next
    case False
    then have n: "?n = k + 1" using k r(2) by linarith
    then have "take 4 (drop (12 * k) ?m) = PutUint32 (fst (es ! k))" using index_rep_entry(1) [OF rep, of k] by simp
    moreover have "fst (es ! k) = of_nat k" using arg_cong [OF es, of "\<lambda>xs. xs ! k"] n by (simp add: nth_append)
    moreover have "unat (of_nat k :: u32) = k" using k r(4) by (intro u32_of_nat) linarith
    moreover have "last_slot ?m = Uint32 (take 4 (drop (12 * k) ?m))" by (simp only: last_slot_def k_def)
    ultimately have "unat (last_slot ?m) = k" by simp
    with False n r(1) show ?thesis by simp
  qed
qed

lemma segment_Append_full:
  assumes "opened_full c b m s" "length m = unat (MaxIndexBytes c)" "config_ok c"
  shows "\<exists>e s' w'. segment_Append x r s w = (Inl e, s', w')"
proof -
  have "unat (MaxIndexBytes c + entWidth) = unat (MaxIndexBytes c) + 12"
    using assms(3) by (simp add: config_ok_def unat_u64_add entWidth_eq)
  then have "index_isMaxed (sg_index s)"
    using assms by (simp add: opened_full_def index_isMaxed_def u64_less_iff)
  then have "index_Write o1 p (sg_index s) = (Some EOF, sg_index s)" for o1 p by (simp add: index_Write_def)
  then show ?thesis
    by (auto simp: segment_Append_def Let_def split: option.split sum.split prod.split)
qed

lemma Log_find_none: "\<forall>a \<in> set as. sg_nextOffset (seg_of l a) \<le> off \<Longrightarrow> Log_find l off as None = None"
  by (induction as) (auto simp: not_less)

text \<open>
  What the crash leaves of a log with the records \<open>rss\<close>: the files are all there, every segment before
  the last one comes back with at most its records, and the last one with a single one.
\<close>

lemma crashed_left_open:
  assumes inv: "log_inv x l w rss"
  shows "list_all2 (left_open (lg_Dir l) (lg_Config l) (crashed l w)) (bases l) (map (\<lambda>s. ix_mmap (sg_index s)) (segs l))"
    and "quiet (crashed l w)" and "names (crashed l w) = names w"
proof -
  note D = log_invD [OF inv]
  have rep: "\<exists>ps. store_rep (sg_store s) w (frames ps) \<and> index_rep (sg_config s) (sg_index s) w (entries ps) \<and>
      st_path (sg_store s) = (lg_Dir l, store_file (sg_baseOffset s)) \<and>
      index_Name (sg_index s) = (lg_Dir l, index_file (sg_baseOffset s)) \<and> sg_config s = lg_Config l"
    if s: "s \<in> set (segs l)" for s
  proof -
    obtain i where i: "i < length (segs l)" "segs l ! i = s" using s unfolding in_set_conv_nth by blast
    show ?thesis using D(10) [OF i(1)] D(11) [OF i(1)] unfolding i(2) by (elim seg_repE) blast
  qed
  have e: "map (\<lambda>s. index_Name (sg_index s)) (segs l) = map (\<lambda>s. (lg_Dir l, index_file (sg_baseOffset s))) (segs l)"
    using rep by auto
  have dist: "distinct (map (\<lambda>s. index_Name (sg_index s)) (segs l))"
    unfolding e using bases_distinct [OF inv] by (auto simp: bases_def distinct_map inj_on_def index_file_def)
  have there: "\<forall>s \<in> set (segs l). fget w (index_Name (sg_index s)) \<noteq> None"
    using rep by (fastforce simp: index_rep_def index_Name_def)
  note fold = crash_fold [OF dist there D(1), folded crashed_def]
  show "quiet (crashed l w)" "names (crashed l w) = names w"
    using fold(2) touches_quiet touches_names by auto
  have "left_open (lg_Dir l) (lg_Config l) (crashed l w) (sg_baseOffset s) (ix_mmap (sg_index s))"
    if s: "s \<in> set (segs l)" for s
  proof -
    from rep [OF s] obtain ps where p: "store_rep (sg_store s) w (frames ps)" "sg_config s = lg_Config l"
      "st_path (sg_store s) = (lg_Dir l, store_file (sg_baseOffset s))"
      "index_rep (sg_config s) (sg_index s) w (entries ps)"
      "index_Name (sg_index s) = (lg_Dir l, index_file (sg_baseOffset s))" by blast
    have "(lg_Dir l, store_file (sg_baseOffset s)) \<notin> (\<lambda>s. index_Name (sg_index s)) ` set (segs l)"
      using rep by fastforce
    then have "fget (crashed l w) (lg_Dir l, store_file (sg_baseOffset s)) = fget w (st_path (sg_store s))"
      using touches_fget [OF fold(2)] p(3) by simp
    then have "fget (crashed l w) (lg_Dir l, store_file (sg_baseOffset s)) \<noteq> None"
      using p(1) by (auto simp: store_rep_def)
    moreover have "fget (crashed l w) (lg_Dir l, index_file (sg_baseOffset s)) = Some (ix_mmap (sg_index s))"
      using bspec [OF fold(1) s] p(5) by simp
    moreover have "length (ix_mmap (sg_index s)) = unat (MaxIndexBytes (lg_Config l))"
      using p(2,4) by (simp add: index_rep_def)
    ultimately show ?thesis by (simp add: left_open_def)
  qed
  then show "list_all2 (left_open (lg_Dir l) (lg_Config l) (crashed l w)) (bases l) (map (\<lambda>s. ix_mmap (sg_index s)) (segs l))"
    unfolding bases_def list.rel_map by (intro list.rel_refl_strong)
qed

lemma seg_last_slot:
  assumes "seg_rep x dir s w rs"
  shows "unat (last_slot (ix_mmap (sg_index s))) =
    (if 12 * length rs + 12 \<le> unat (MaxIndexBytes (sg_config s)) then 0 else length rs - 1)"
proof -
  obtain ps where ps: "index_rep (sg_config s) (sg_index s) w (entries ps)" "length ps = length rs"
    using seg_repE [OF assms] by metis
  have "map fst (entries ps) = map of_nat [0..<length (entries ps)]" by (simp add: entries_def comp_def)
  from last_slot_rep [OF ps(1) this] ps(2) show ?thesis by simp
qed

text \<open>The number in the last slot is below the number of records that a later segment, or the room in this one, leaves.\<close>

lemma last_slot_below:
  assumes rep: "log_rep x l w rss" and i: "i < length (segs l)" and off: "sg_baseOffset (last (segs l)) < off"
  shows "unat (sg_baseOffset (segs l ! i)) + unat (last_slot (ix_mmap (sg_index (segs l ! i)))) < unat off"
proof -
  note inv = log_repD(1) [OF rep]
  note D = log_invD [OF inv]
  let ?s = "segs l ! i" and ?n = "length (segs l)"
  have slot: "unat (last_slot (ix_mmap (sg_index ?s))) =
      (if 12 * length (rss ! i) + 12 \<le> unat (MaxIndexBytes (lg_Config l)) then 0 else length (rss ! i) - 1)"
    using seg_last_slot [OF D(10) [OF i]] D(11) [OF i] by simp
  have lastn: "last (segs l) = segs l ! (?n - 1)" using D(7) by (rule last_conv_nth)
  show ?thesis
  proof (cases "Suc i < ?n")
    case True
    have "sorted (bases l)" unfolding sorted_iff_nth_mono_less bases_def
      using chain_bases_strict [OF inv] by (auto intro: less_imp_le)
    from sorted_nth_mono [OF this, of "Suc i" "?n - 1"] have "sg_baseOffset (segs l ! Suc i) \<le> sg_baseOffset (last (segs l))"
      using True lastn by (simp add: bases_def)
    moreover have "sg_nextOffset ?s = sg_baseOffset (segs l ! Suc i)" using chained_nth [OF D(5) True] .
    ultimately have "unat (sg_baseOffset ?s) + length (rss ! i) < unat off"
      using seg_rep_next [OF D(10) [OF i]] off by (metis le_less_trans u64_less_iff)
    moreover have "0 < length (rss ! i)" using D(12) [OF True] by simp
    ultimately show ?thesis using slot by (auto split: if_splits)
  next
    case False
    then have "i = ?n - 1" using i by simp
    moreover have "last rss = rss ! (?n - 1)" using D(6,7) by (metis last_conv_nth length_0_conv)
    ultimately have e: "?s = last (segs l)" "rss ! i = last rss" using lastn by simp_all
    have "has_room x (lg_Config l) (rss ! i)"
      using has_room_rep [OF D(10) [OF i]] log_repD(2) [OF rep] e(1) D(11) [OF i] by simp
    then have "12 * length (rss ! i) + 12 \<le> unat (MaxIndexBytes (lg_Config l))" by (auto simp: has_room_def)
    then show ?thesis using slot e(1) off by (simp add: u64_less_iff)
  qed
qed

lemma opened_full_next_le:
  assumes "opened_full c b m s" "unat b + unat (last_slot m) < unat off"
  shows "sg_nextOffset s \<le> off"
proof -
  have "unat b + unat (last_slot m) + 1 < 2 ^ 64" using assms(2) u64_bound [of off] by linarith
  then have "unat (sg_nextOffset s) = unat b + unat (last_slot m) + 1"
    using assms(1) by (simp add: opened_full_def unat_u64_add)
  then show ?thesis using assms(2) by (simp add: u64_le_iff)
qed

text \<open>
  The log opens, but every append fails, and every offset above the first one of the last segment is
  refused.
\<close>

lemma log_after_crash:
  assumes c: "log_contract x (l, w) lo rs"
  shows "\<exists>l' w'. NewLog x (lg_Dir l) (lg_Config l) (crashed l w) = (None, l', w') \<and>
    (\<forall>r w2. \<exists>e l'' w''. Log_Append x r l' w2 = (Inl e, l'', w'')) \<and>
    (\<forall>off w2. sg_baseOffset (last (segs l)) < off \<longrightarrow> Log_Read x off l' w2 = (Inl (ErrOffsetOutOfRange off), l', w2))"
proof -
  obtain rss where rep: "log_rep x l w rss" and x: "mmap_ok x" by (rule log_contractE [OF c])
  note inv = log_repD(1) [OF rep]
  note D = log_invD [OF inv]
  let ?n = "length (segs l)"
  obtain ns where ns: "names w (lg_Dir l) = Some ns" "distinct ns" "set ns = seg_files (bases l)"
    using D(4) by (auto simp: dir_ok_def)
  have sorted: "sorted (bases l)" unfolding sorted_iff_nth_mono_less bases_def
    using chain_bases_strict [OF inv] by (auto intro: less_imp_le)
  obtain l' w' where l': "NewLog x (lg_Dir l) (lg_Config l) (crashed l w) = (None, l', w')"
    "lg_segments l' \<noteq> []" "lg_active l' = Some (last (lg_segments l'))"
    "list_all2 (\<lambda>(b, m) s. opened_full (lg_Config l) b m s)
       (zip (bases l) (map (\<lambda>s. ix_mmap (sg_index s)) (segs l))) (segs l')"
    using NewLog_left_open [OF crashed_left_open(1) [OF inv] D(2) x crashed_left_open(2) [OF inv] _ ns(2,3) sorted
        bases_distinct [OF inv]] crashed_left_open(3) [OF inv] ns(1) D(7) by (auto simp: bases_def)
  have len: "length (segs l') = ?n" using list_all2_lengthD [OF l'(4)] by (simp add: bases_def)
  have nth: "opened_full (lg_Config l) (sg_baseOffset (segs l ! i)) (ix_mmap (sg_index (segs l ! i))) (segs l' ! i)"
    if "i < ?n" for i using list_all2_nthD2 [OF l'(4), of i] that len by (simp add: bases_def)
  have ne: "segs l' \<noteq> []" using D(7) len by (metis length_0_conv)
  have lastn: "last (segs l') = segs l' ! (?n - 1)" "?n - 1 < ?n" "last (segs l) = segs l ! (?n - 1)"
    using last_conv_nth [OF ne] last_conv_nth [OF D(7)] D(7) len by simp_all
  have map: "length (ix_mmap (sg_index (segs l ! i))) = unat (MaxIndexBytes (lg_Config l))" if "i < ?n" for i
    using seg_repE [OF D(10) [OF that]] D(11) [OF that] by (metis index_rep_def)
  have "\<exists>e l'' w''. Log_Append x r l' w2 = (Inl e, l'', w'')" for r w2
  proof -
    have "seg_of l' (last (lg_segments l')) = segs l' ! (?n - 1)" using l'(2) lastn(1) by (simp add: segs_def last_map)
    with segment_Append_full [OF nth [OF lastn(2)] map [OF lastn(2)] D(2)]
    obtain e s w3 where "segment_Append x r (seg_of l' (last (lg_segments l'))) w2 = (Inl e, s, w3)" by metis
    with l'(3) show ?thesis by (simp add: Log_Append_def)
  qed
  moreover have "Log_Read x off l' w2 = (Inl (ErrOffsetOutOfRange off), l', w2)"
    if off: "sg_baseOffset (last (segs l)) < off" for off w2
  proof -
    have "\<forall>a \<in> set (lg_segments l'). sg_nextOffset (seg_of l' a) \<le> off"
      using opened_full_next_le [OF nth last_slot_below [OF rep _ off]] len by (auto simp: segs_def in_set_conv_nth)
    then show ?thesis using Log_find_none by (simp add: Log_Read_def)
  qed
  ultimately show ?thesis using l'(1) by blast
qed

end
