(* ===== verification/Reader.thy ===== *)
theory Reader
  imports Snapshot
begin

text \<open>
  The reader over the whole log (src/internal/log/log.go, \<^verbatim>\<open>Log.Reader\<close>) and the copy of a snapshot
  (src/internal/log/distributed.go, \<^verbatim>\<open>snapshot.Persist\<close>) in the cases in which they do their work: reads
  through the reader deliver the frames of all records in order, and a log that was just opened is
  copied in full.
\<close>

section \<open>Reading a store from an offset\<close>

lemma store_ReadAt_rep:
  assumes rep: "store_rep s w bs" and k: "k \<le> length bs" and n: "0 < n"
  shows "\<exists>s' w'. store_ReadAt n (of_nat k) s w =
      ((take n (drop k bs), if length bs - k < n then Some EOF else None), s', w') \<and>
    store_rep s' w' bs \<and> st_File s' = st_File s \<and> st_size s' = st_size s \<and> touches {st_path s} w w'"
proof -
  obtain w' where w': "bufio_Flush (st_File s) (st_buf s) w = (None, (st_buf s)\<lparr>bw_buf := []\<rparr>, w')"
    "fget w' (st_path s) = Some bs" "touches {st_path s} w w'"
    "store_rep (s\<lparr>st_buf := (st_buf s)\<lparr>bw_buf := []\<rparr>\<rparr>) w' bs"
    using store_flush_rep [OF rep] .
  have r: "\<not> fclosed (st_File s)" "length bs < 2 ^ 63" using rep by (auto simp: store_rep_def)
  then have "unat (of_nat k :: u64) = k" using k by simp
  then have "os_ReadAt (st_File s) n (of_nat k) w' =
      ((take n (drop k bs), if length bs - k < n then Some EOF else None), w')"
    using w'(2,3) r k n by (auto simp: os_ReadAt_def sint_u64_nonneg Let_def)
  with w' show ?thesis by (auto simp: store_ReadAt_def)
qed

section \<open>One segment after the other\<close>

text \<open>\<open>bss\<close> are the contents of the stores of a log; \<open>reader_at l bss rds rem\<close>: what \<open>rds\<close> has still to read is \<open>rem\<close>.\<close>

definition stored :: "ext \<Rightarrow> api_Record list list \<Rightarrow> bytes list \<Rightarrow> bool" where
  "stored x rss bss \<longleftrightarrow> list_all2 (\<lambda>rs bs. \<exists>ps. encodes x rs ps \<and> bs = frames ps) rss bss"

definition reader_at :: "Log \<Rightarrow> bytes list \<Rightarrow> originReader list \<Rightarrow> bytes \<Rightarrow> bool" where
  "reader_at l bss rds rem \<longleftrightarrow> (rds = [] \<and> rem = []) \<or>
     (\<exists>i k. i < length bss \<and> k \<le> length (bss ! i) \<and>
        rds = \<lparr>or_seg = lg_segments l ! i, or_off = of_nat k\<rparr> #
          map (\<lambda>a. \<lparr>or_seg = a, or_off = 0\<rparr>) (drop (Suc i) (lg_segments l)) \<and>
        rem = drop k (bss ! i) @ concat (drop (Suc i) bss))"

lemma stored_seg:
  assumes "log_rep x l w rss" "stored x rss bss" "i < length (segs l)"
  shows "store_rep (sg_store (segs l ! i)) w (bss ! i)"
proof -
  note D = log_invD [OF log_repD(1) [OF assms(1)]]
  obtain ps where ps: "encodes x (rss ! i) ps" "bss ! i = frames ps"
    using assms(2,3) D(6) by (auto simp: stored_def list_all2_conv_all_nth)
  obtain qs where qs: "encodes x (rss ! i) qs" "store_rep (sg_store (segs l ! i)) w (frames qs)"
    using seg_repE [OF D(10) [OF assms(3)]] by metis
  show ?thesis using qs(2) ps(2) encodes_unique [OF ps(1) qs(1)] by simp
qed

lemma originReader_Read_rep:
  assumes rep: "log_rep x l w rss" and b: "stored x rss bss" and i: "i < length (segs l)"
    and k: "k \<le> length (bss ! i)" and n: "0 < n"
  shows "\<exists>l' w'. originReader_Read n \<lparr>or_seg = lg_segments l ! i, or_off = of_nat k\<rparr> l w =
      ((take n (drop k (bss ! i)), if length (bss ! i) - k < n then Some EOF else None),
       \<lparr>or_seg = lg_segments l ! i, or_off = of_nat (k + min n (length (bss ! i) - k))\<rparr>, l', w') \<and>
    log_rep x l' w' rss \<and> log_low l' = log_low l \<and> lg_segments l' = lg_segments l"
proof -
  note D = log_invD [OF log_repD(1) [OF rep]]
  let ?s = "segs l ! i"
  have s: "seg_of l (lg_segments l ! i) = ?s" using i D(9) by (simp add: segs_def)
  obtain st w' where st: "store_ReadAt n (of_nat k) (sg_store ?s) w =
      ((take n (drop k (bss ! i)), if length (bss ! i) - k < n then Some EOF else None), st, w')"
    "store_rep st w' (bss ! i)" "st_File st = st_File (sg_store ?s)" "st_size st = st_size (sg_store ?s)"
    "touches {st_path (sg_store ?s)} w w'"
    using store_ReadAt_rep [OF stored_seg [OF rep b i] k n] by blast
  let ?s' = "?s\<lparr>sg_store := st\<rparr>"
  have ri: "seg_rep x (lg_Dir l) ?s w (rss ! i)" using D(10) [OF i] .
  obtain ps where ps: "encodes x (rss ! i) ps" "index_rep (sg_config ?s) (sg_index ?s) w (entries ps)"
    "offsets_from (sg_baseOffset ?s) (rss ! i)" "unat (sg_nextOffset ?s) = unat (sg_baseOffset ?s) + length (rss ! i)"
    "st_path (sg_store ?s) = (lg_Dir l, store_file (sg_baseOffset ?s))"
    "index_Name (sg_index ?s) = (lg_Dir l, index_file (sg_baseOffset ?s))" "store_rep (sg_store ?s) w (frames ps)"
    using seg_repE [OF ri] by metis
  have "bss ! i = frames ps"
    using stored_seg [OF rep b i] ps(7) by (auto simp: store_rep_def)
  moreover have "index_rep (sg_config ?s) (sg_index ?s) w' (entries ps)"
    using ps(5,6) touches_fget [OF st(5)] touches_quiet [OF st(5)] by (intro index_rep_cong [OF ps(2)]) auto
  ultimately have "seg_rep x (lg_Dir l) ?s' w' (rss ! i)"
    using ps st(2,3) by (auto simp: seg_rep_def)
  moreover have "touches (seg_paths (lg_Dir l) (sg_baseOffset ?s)) w w'"
    using ps(5) by (intro touches_mono [OF st(5)]) (simp add: seg_paths_def)
  moreover have "segment_IsMaxed ?s' = segment_IsMaxed ?s" using st(4) by (simp add: segment_IsMaxed_def)
  moreover have "Suc i = length (segs l) \<Longrightarrow> \<not> segment_IsMaxed ?s"
    using log_repD(2) [OF rep] D(7) by (metis diff_Suc_1 last_conv_nth)
  ultimately have "log_rep x (put_seg (lg_segments l ! i) ?s' l) w' (rss[i := rss ! i])"
    "log_low (put_seg (lg_segments l ! i) ?s' l) = log_low l"
    using log_rep_put_seg [OF rep i, of ?s' w' "rss ! i"] D(12) [of i] by auto
  then show ?thesis using st(1) s D(6) i k
    by (intro exI [of _ "put_seg (lg_segments l ! i) ?s' l"] exI [of _ w'])
       (simp add: originReader_Read_def min_def)
qed

text \<open>The readers that are left when one is at its end.\<close>

lemma reader_at_drop:
  assumes "length bss = length (lg_segments l)"
  shows "reader_at l bss (map (\<lambda>a. \<lparr>or_seg = a, or_off = 0\<rparr>) (drop i (lg_segments l))) (concat (drop i bss))"
proof (cases "i < length bss")
  case True
  then show ?thesis using assms unfolding reader_at_def
    by (intro disjI2 exI [of _ i] exI [of _ 0]) (simp flip: Cons_nth_drop_Suc)
qed (use assms in \<open>simp add: reader_at_def\<close>)

lemma reader_at_segments: "lg_segments l' = lg_segments l \<Longrightarrow> reader_at l' bss rds rem = reader_at l bss rds rem"
  by (simp add: reader_at_def)

lemma MultiReader_Read_rep:
  assumes "log_rep x l w rss" "stored x rss bss" "reader_at l bss rds rem" "0 < n"
  shows "\<exists>data err rds' l' w' rem'. MultiReader_Read n rds l w = ((data, err), rds', l', w') \<and>
    log_rep x l' w' rss \<and> log_low l' = log_low l \<and> reader_at l' bss rds' rem' \<and> rem = data @ rem' \<and>
    (err = None \<and> data \<noteq> [] \<or> err = Some EOF \<and> rem' = [])"
  using assms
proof (induction rds arbitrary: l w rem)
  case Nil
  then show ?case by (auto simp: reader_at_def)
next
  case (Cons rd rds)
  obtain i k where ik: "i < length bss" "k \<le> length (bss ! i)" "rd = \<lparr>or_seg = lg_segments l ! i, or_off = of_nat k\<rparr>"
    "rds = map (\<lambda>a. \<lparr>or_seg = a, or_off = 0\<rparr>) (drop (Suc i) (lg_segments l))"
    "rem = drop k (bss ! i) @ concat (drop (Suc i) bss)"
    using Cons.prems(3) by (auto simp: reader_at_def)
  note D = log_invD [OF log_repD(1) [OF Cons.prems(1)]]
  have len: "length bss = length (lg_segments l)" "length bss = length (segs l)"
    using list_all2_lengthD [OF Cons.prems(2) [unfolded stored_def]] D(6,9) by simp_all
  let ?data = "take n (drop k (bss ! i))" and ?k = "k + min n (length (bss ! i) - k)"
  let ?eof = "length (bss ! i) - k < n"
  let ?rd = "\<lparr>or_seg = lg_segments l ! i, or_off = of_nat ?k\<rparr> :: originReader"
  obtain l' w' where l': "originReader_Read n rd l w = ((?data, if ?eof then Some EOF else None), ?rd, l', w')"
    "log_rep x l' w' rss" "log_low l' = log_low l" "lg_segments l' = lg_segments l"
    using originReader_Read_rep [OF Cons.prems(1,2) _ ik(2) Cons.prems(4)] ik(1,3) len(2) by auto
  have rest: "reader_at l' bss rds (concat (drop (Suc i) bss))"
    using reader_at_drop [OF len(1), of "Suc i"] reader_at_segments [OF l'(4)] ik(4) by simp
  show ?case
  proof (cases ?eof)
    case False
    then have "?k = k + n" "k + n \<le> length (bss ! i)" "?data \<noteq> []" using Cons.prems(4) by auto
    moreover from this have "reader_at l' bss (?rd # rds) (drop (k + n) (bss ! i) @ concat (drop (Suc i) bss))"
      unfolding reader_at_def using ik l'(4) by (intro disjI2 exI [of _ i] exI [of _ "k + n"]) simp
    moreover have "drop k (bss ! i) = ?data @ drop (k + n) (bss ! i)" by (metis append_take_drop_id drop_drop add.commute)
    ultimately show ?thesis
      using l' False ik(5) by (intro exI [of _ ?data] exI [of _ None] exI [of _ "?rd # rds"] exI [of _ l'] exI [of _ w']
          exI [of _ "drop (k + n) (bss ! i) @ concat (drop (Suc i) bss)"]) simp
  next
    case eof: True
    then have data: "?data = drop k (bss ! i)" by simp
    show ?thesis
    proof (cases "?data = []")
      case True
      then have "rem = concat (drop (Suc i) bss)" using ik(5) data by simp
      moreover have "MultiReader_Read n (rd # rds) l w = MultiReader_Read n rds l' w'" using l'(1) eof True by simp
      ultimately show ?thesis using Cons.IH [OF l'(2) Cons.prems(2) rest Cons.prems(4)] l'(3) by simp
    next
      case False
      have "rds = [] \<Longrightarrow> concat (drop (Suc i) bss) = []" using ik(4) len(1) by simp
      moreover have "MultiReader_Read n (rd # rds) l w = ((?data, if rds = [] then Some EOF else None), rds, l', w')"
        using l'(1) eof False by simp
      ultimately show ?thesis using l'(2,3) rest ik(5) data False
        by (intro exI [of _ ?data] exI [of _ "if rds = [] then Some EOF else None"] exI [of _ rds] exI [of _ l'] exI [of _ w']
            exI [of _ "concat (drop (Suc i) bss)"]) auto
    qed
  qed
qed

section \<open>Reading to the end\<close>

text \<open>A caller that reads with buffers of the given sizes until it gets an error.\<close>

fun reads :: "nat list \<Rightarrow> originReader list \<Rightarrow> Log \<Rightarrow> world \<Rightarrow> (bytes \<times> goerr option) \<times> originReader list \<times> Log \<times> world" where
  "reads [] rds l w = (([], None), rds, l, w)"
| "reads (n # ns) rds l w0 = (case MultiReader_Read n rds l w0 of
     ((data, Some e), rds', l', w) \<Rightarrow> ((data, Some e), rds', l', w)
   | ((data, None), rds', l', w) \<Rightarrow> (case reads ns rds' l' w of
       ((rest, err), rds'', l'', w') \<Rightarrow> ((data @ rest, err), rds'', l'', w')))"

lemma reads_rep:
  assumes "log_rep x l w rss" "stored x rss bss" "reader_at l bss rds rem" "\<forall>n \<in> set ns. 0 < n"
  shows "\<exists>data err rds' l' w'. reads ns rds l w = ((data, err), rds', l', w') \<and> log_rep x l' w' rss \<and>
    log_low l' = log_low l \<and> prefix data rem \<and> (err = None \<or> err = Some EOF \<and> data = rem) \<and>
    (err = None \<longrightarrow> length ns \<le> length data)"
  using assms
proof (induction ns arbitrary: rds l w rem)
  case (Cons n ns)
  have "0 < n" using Cons.prems(4) by simp
  from MultiReader_Read_rep [OF Cons.prems(1-3) this] obtain data err rds' l' w' rem' where 1: "MultiReader_Read n rds l w = ((data, err), rds', l', w')"
    "log_rep x l' w' rss" "log_low l' = log_low l" "reader_at l' bss rds' rem'" "rem = data @ rem'"
    "err = None \<and> data \<noteq> [] \<or> err = Some EOF \<and> rem' = []"
    by (elim exE conjE) (rule that)
  show ?case
  proof (cases err)
    case None
    obtain rest err' rds'' l'' w'' where 2: "reads ns rds' l' w' = ((rest, err'), rds'', l'', w'')"
      "log_rep x l'' w'' rss" "log_low l'' = log_low l'" "prefix rest rem'" "err' = None \<or> err' = Some EOF \<and> rest = rem'"
      "err' = None \<longrightarrow> length ns \<le> length rest"
      using Cons.IH [OF 1(2) Cons.prems(2) 1(4)] Cons.prems(4) by auto
    have "data \<noteq> []" using 1(6) None by simp
    then have "err' = None \<longrightarrow> length (n # ns) \<le> length (data @ rest)" using 2(6) by (cases data) auto
    moreover have "reads (n # ns) rds l w = ((data @ rest, err'), rds'', l'', w'')" using 1(1) 2(1) None by simp
    moreover have "prefix (data @ rest) rem" "err' = None \<or> err' = Some EOF \<and> data @ rest = rem"
      using 1(5) 2(4,5) by auto
    moreover have "log_low l'' = log_low l" using 1(3) 2(3) by simp
    ultimately show ?thesis using 2(2) by (intro exI conjI)
  next
    case (Some e)
    then have "reads (n # ns) rds l w = ((data, err), rds', l', w')" "prefix data rem" "err = Some EOF \<and> data = rem"
      using 1(1,5,6) by simp_all
    with 1(2,3) show ?thesis
      by (intro exI [of _ data] exI [of _ err] exI [of _ rds'] exI [of _ l'] exI [of _ w']) (simp del: reads.simps)
  qed
qed simp

text \<open>The frames of all records, whatever their division into segments.\<close>

lemma stored_frames:
  assumes "log_rep x l w rss"
  shows "\<exists>bss ps. stored x rss bss \<and> encodes x (concat rss) ps \<and> concat bss = frames ps"
proof -
  note D = log_invD [OF log_repD(1) [OF assms]]
  have "\<exists>ps. encodes x rs ps" if rs: "rs \<in> set rss" for rs
  proof -
    obtain i where i: "i < length rss" "rss ! i = rs" using rs unfolding in_set_conv_nth by blast
    have "seg_rep x (lg_Dir l) (segs l ! i) w rs" using D(10) [of i] i D(6) by simp
    then show ?thesis by (elim seg_repE) blast
  qed
  then have "\<exists>bss ps. stored x rss bss \<and> encodes x (concat rss) ps \<and> concat bss = frames ps"
  proof (induction rss)
    case Nil
    then show ?case by (auto simp: stored_def encodes_def)
  next
    case (Cons rs rss)
    then obtain bss ps qs where "stored x rss bss" "encodes x (concat rss) ps" "concat bss = frames ps" "encodes x rs qs"
      by (metis list.set_intros(1,2))
    then show ?case
      by (intro exI [of _ "frames qs # bss"] exI [of _ "qs @ ps"]) (auto simp: stored_def encodes_def intro: list_all2_appendI)
  qed
  then show ?thesis .
qed

lemma Reader_reads:
  assumes c: "log_contract x (l, w) lo rs" and ns: "\<forall>n \<in> set ns. 0 < n"
  shows "\<exists>ps data err rds l' w'. encodes x rs ps \<and> reads ns (Log_Reader l) l w = ((data, err), rds, l', w') \<and>
    log_contract x (l', w') lo rs \<and> prefix data (frames ps) \<and> (err = None \<or> err = Some EOF \<and> data = frames ps) \<and>
    (length (frames ps) < length ns \<longrightarrow> err = Some EOF)"
proof -
  obtain rss where rep: "log_rep x l w rss" and lo: "lo = log_low l" "rs = concat rss" and x: "codec_ok x" "mmap_ok x"
    by (rule log_contractE [OF c])
  note D = log_invD [OF log_repD(1) [OF rep]]
  obtain bss ps where b: "stored x rss bss" "encodes x rs ps" "concat bss = frames ps"
    using stored_frames [OF rep] lo(2) by blast
  have "length bss = length (lg_segments l)" using list_all2_lengthD [OF b(1) [unfolded stored_def]] D(6,9) by simp
  from reader_at_drop [OF this, of 0] have "reader_at l bss (Log_Reader l) (frames ps)"
    using b(3) by (simp add: Log_Reader_def)
  from reads_rep [OF rep b(1) this ns] obtain data err rds l' w' where
    r: "reads ns (Log_Reader l) l w = ((data, err), rds, l', w')" "log_rep x l' w' rss" "log_low l' = log_low l"
    "prefix data (frames ps)" "err = None \<or> err = Some EOF \<and> data = frames ps" "err = None \<longrightarrow> length ns \<le> length data"
    by blast
  have "log_contract x (l', w') lo rs" using log_contractI [OF r(2) x] lo r(3) by simp
  moreover have "length (frames ps) < length ns \<longrightarrow> err = Some EOF"
    using r(4-6) prefix_length_le [OF r(4)] by auto
  ultimately show ?thesis using b(2) r by blast
qed

section \<open>Copying a log that was just opened\<close>

text \<open>Opening a file sets its read position to 0, and a new store has an empty write buffer.\<close>

definition at_start :: "Log \<Rightarrow> world \<Rightarrow> bool" where
  "at_start l w \<longleftrightarrow> (\<forall>s \<in> set (lg_heap l). bw_buf (st_buf (sg_store s)) = [] \<and> fpos w (st_path (sg_store s)) = 0)"

lemma fpos_take_fault: "take_fault w = (flt, w') \<Longrightarrow> fpos w' = fpos w"
  by (auto simp: take_fault_def split: list.splits)

lemma fpos_os_Stat: "os_Stat p w = (r, w') \<Longrightarrow> fpos w' = fpos w"
  by (auto simp: os_Stat_def dest!: fpos_take_fault split: prod.splits option.splits)

lemma fpos_os_Truncate: "os_Truncate p n w = (r, w') \<Longrightarrow> fpos w' = fpos w"
  by (auto simp: os_Truncate_def dest!: fpos_take_fault split: prod.splits option.splits if_splits)

lemma fpos_newIndex: "newIndex x f c w = (r, w') \<Longrightarrow> fpos w' = fpos w"
  by (auto simp: newIndex_def dest!: fpos_os_Stat fpos_os_Truncate mmap_Map_frame split: prod.splits sum.splits option.splits)

lemma fpos_os_OpenFile: "os_OpenFile p w = (Inr f, w') \<Longrightarrow> f = \<lparr>fname = p, fclosed = False\<rparr> \<and> fpos w' = (fpos w)(p := 0)"
  by (auto simp: os_OpenFile_def Let_def dest!: fpos_take_fault split: prod.splits option.splits)

lemma newSegment_at_start:
  assumes "newSegment x dir b c w = (Inr s, w')"
  shows "bw_buf (st_buf (sg_store s)) = [] \<and> fpos w' (st_path (sg_store s)) = 0 \<and>
    (\<forall>p. fpos w p = 0 \<longrightarrow> fpos w' p = 0)"
  using assms unfolding newSegment_def newStore_def bufio_NewWriter_def
  by (auto split: prod.splits sum.splits if_splits dest!: fpos_os_OpenFile fpos_os_Stat fpos_newIndex)

lemma Log_newSegment_at_start:
  "Log_newSegment x b l w = (None, l', w') \<Longrightarrow> at_start l w \<Longrightarrow> at_start l' w'"
proof -
  assume n: "Log_newSegment x b l w = (None, l', w')" and a: "at_start l w"
  then obtain s where s: "newSegment x (lg_Dir l) b (lg_Config l) w = (Inr s, w')" "lg_heap l' = lg_heap l @ [s]"
    by (auto simp: Log_newSegment_def split: prod.splits sum.splits)
  note ns = newSegment_at_start [OF s(1)]
  have "fpos w' (st_path (sg_store t)) = 0" if "t \<in> set (lg_heap l)" for t
    using conjunct2 [OF conjunct2 [OF ns]] a that unfolding at_start_def by blast
  then show "at_start l' w'" using a ns by (simp add: at_start_def s(2))
qed

lemma setup_loop_at_start:
  "setup_loop x bs l w = (None, l', w') \<Longrightarrow> at_start l w \<Longrightarrow> at_start l' w'"
proof (induction x bs l w rule: setup_loop.induct)
  case (3 x b u bs l w)
  then show ?case by (auto split: prod.splits option.splits dest: Log_newSegment_at_start)
qed (auto dest: Log_newSegment_at_start)

lemma NewLog_at_start: "NewLog x dir c w = (None, l, w') \<Longrightarrow> at_start l w'"
proof -
  assume n: "NewLog x dir c w = (None, l, w')"
  let ?l = "\<lparr>lg_Dir = dir, lg_Config = config_defaults c, lg_active = None, lg_segments = [], lg_heap = []\<rparr>"
  have s: "at_start ?l w1" for w1 by (simp add: at_start_def)
  from n show ?thesis unfolding NewLog_def Log_setup_def
    by (auto split: prod.splits sum.splits option.splits if_splits
        dest: setup_loop_at_start [OF _ s] Log_newSegment_at_start [OF _ setup_loop_at_start [OF _ s]])
qed

text \<open>\<open>got k\<close> is what a sink has received; a sink that works takes everything.\<close>

definition sink_ok :: "'k sinklib \<Rightarrow> ('k \<Rightarrow> bytes) \<Rightarrow> bool" where
  "sink_ok sk got \<longleftrightarrow> (\<forall>b k. fst (sk_Write sk b k) = None \<and> got (snd (sk_Write sk b k)) = got k @ b)"

lemma file_WriteTo_copies:
  assumes sk: "sink_ok sk got" and "quiet w" "\<not> fclosed f" "fget w (fname f) = Some c" "fpos w (fname f) \<le> length c"
  shows "\<exists>w' k'. file_WriteTo sk f w k = (None, w', k') \<and> got k' = got k @ drop (fpos w (fname f)) c \<and>
    fget w' = fget w \<and> quiet w' \<and> (\<forall>p. p \<noteq> fname f \<longrightarrow> fpos w' p = fpos w p)"
  using assms(2-5)
proof (induction "length c - fpos w (fname f)" arbitrary: w k rule: less_induct)
  case less
  let ?i = "fpos w (fname f)"
  let ?data = "take copy_size (drop ?i c)"
  show ?case
  proof (cases "?i = length c")
    case True
    then have "os_Read f copy_size w = (([], Some EOF), w)" using less.prems by (simp add: os_Read_def)
    then show ?thesis using True less.prems(1) by (subst file_WriteTo.simps) simp
  next
    case False
    then have ne: "?data \<noteq> []" "?i < length c" using less.prems(4) by (auto simp: copy_size_def)
    let ?w = "w\<lparr>fpos := (fpos w)(fname f := ?i + length ?data)\<rparr>"
    have rd: "os_Read f copy_size w = ((?data, None), ?w)" using less.prems ne by (simp add: os_Read_def Let_def)
    obtain k1 where k1: "sk_Write sk ?data k = (None, k1)" "got k1 = got k @ ?data"
      using sk unfolding sink_ok_def by (metis prod.collapse)
    have i': "fpos ?w (fname f) = min (length c) (?i + copy_size)" using ne(2) by simp
    have "length c - fpos ?w (fname f) < length c - ?i" unfolding i' using ne(2) by (simp add: copy_size_def)
    from less.hyps [OF this, of k1] obtain w' k' where
      2: "file_WriteTo sk f ?w k1 = (None, w', k')" "got k' = got k1 @ drop (fpos ?w (fname f)) c" "fget w' = fget ?w"
      "quiet w'" "\<forall>p. p \<noteq> fname f \<longrightarrow> fpos w' p = fpos ?w p"
      using less.prems i' by auto
    have "?data @ drop (fpos ?w (fname f)) c = drop ?i c"
    proof (cases "?i + copy_size \<le> length c")
      case True
      then have "drop (fpos ?w (fname f)) c = drop copy_size (drop ?i c)" unfolding i' by (simp add: add.commute)
      then show ?thesis by (simp only: append_take_drop_id)
    qed (use i' ne(2) in simp)
    then have "got k' = got k @ drop ?i c" using 2(2) k1(2) by simp
    moreover have "fget w' = fget w" using 2(3) by (simp add: fun_eq_iff)
    moreover have "file_WriteTo sk f w k = file_WriteTo sk f ?w k1"
      using rd ne k1(1) by (subst file_WriteTo.simps) simp
    ultimately show ?thesis using 2(1,4,5) by auto
  qed
qed

text \<open>The copy of the stores of a list of segments whose files hold \<open>bss\<close>.\<close>

lemma MultiReader_WriteTo_copies:
  assumes sk: "sink_ok sk got"
    and "list_all2 (\<lambda>a bs. \<not> fclosed (st_File (sg_store (seg_of l a))) \<and>
      fget w (st_path (sg_store (seg_of l a))) = Some bs \<and> fpos w (st_path (sg_store (seg_of l a))) = 0) as bss"
    and "distinct (map (\<lambda>a. st_path (sg_store (seg_of l a))) as)" and "quiet w"
  shows "\<exists>w' k'. MultiReader_WriteTo sk (map (\<lambda>a. \<lparr>or_seg = a, or_off = 0\<rparr>) as) l w k = (None, w', k') \<and>
    got k' = got k @ concat bss"
  using assms(2-4)
proof (induction as arbitrary: w k bss)
  case (Cons a as)
  let ?f = "\<lambda>a. st_File (sg_store (seg_of l a))"
  obtain bs bss' where b: "bss = bs # bss'" "\<not> fclosed (?f a)" "fget w (fname (?f a)) = Some bs" "fpos w (fname (?f a)) = 0"
    "list_all2 (\<lambda>a bs. \<not> fclosed (?f a) \<and> fget w (fname (?f a)) = Some bs \<and> fpos w (fname (?f a)) = 0) as bss'"
    using Cons.prems(1) by (auto simp: list_all2_Cons1)
  obtain w1 k1 where 1: "file_WriteTo sk (?f a) w k = (None, w1, k1)" "got k1 = got k @ bs" "fget w1 = fget w" "quiet w1"
    "\<forall>p. p \<noteq> fname (?f a) \<longrightarrow> fpos w1 p = fpos w p"
    using file_WriteTo_copies [OF sk Cons.prems(3) b(2,3), of k] b(4) by auto
  have ne: "fname (?f b) \<noteq> fname (?f a)" if "b \<in> set as" for b using Cons.prems(2) that by (auto simp: image_iff)
  have "list_all2 (\<lambda>a bs. \<not> fclosed (?f a) \<and> fget w1 (fname (?f a)) = Some bs \<and> fpos w1 (fname (?f a)) = 0) as bss'"
    unfolding list_all2_conv_all_nth 1(3)
  proof (intro conjI allI impI)
    fix i assume i: "i < length as"
    then have "fpos w1 (fname (?f (as ! i))) = fpos w (fname (?f (as ! i)))" using ne 1(5) nth_mem by blast
    then show "\<not> fclosed (?f (as ! i))" "fget w (fname (?f (as ! i))) = Some (bss' ! i)" "fpos w1 (fname (?f (as ! i))) = 0"
      using b(5) i unfolding list_all2_conv_all_nth by simp_all
  qed (use b(5) in \<open>simp add: list_all2_lengthD\<close>)
  moreover have "distinct (map (\<lambda>a. st_path (sg_store (seg_of l a))) as)" using Cons.prems(2) by simp
  ultimately obtain w' k' where
    "MultiReader_WriteTo sk (map (\<lambda>a. \<lparr>or_seg = a, or_off = 0\<rparr>) as) l w1 k1 = (None, w', k')" "got k' = got k1 @ concat bss'"
    using Cons.IH [of w1 bss' k1] 1(4) by blast
  then show ?case using 1(1,2) b(1) by simp
qed simp

lemma Persist_from_start:
  assumes c: "log_contract x (l, w) lo rs" and a: "at_start l w" and sk: "sink_ok sk got"
  shows "\<exists>ps w' k'. encodes x rs ps \<and> got k' = got k @ frames ps \<and>
    snapshot_Persist sk (fsm_Snapshot l) l w k = (fst (sk_Close sk k'), w', snd (sk_Close sk k'))"
proof -
  obtain rss where rep: "log_rep x l w rss" and lo: "rs = concat rss" by (rule log_contractE [OF c])
  note inv = log_repD(1) [OF rep]
  note D = log_invD [OF inv]
  obtain bss ps where b: "stored x rss bss" "encodes x rs ps" "concat bss = frames ps"
    using stored_frames [OF rep] lo by blast
  have len: "length bss = length (lg_segments l)" using list_all2_lengthD [OF b(1) [unfolded stored_def]] D(6,9) by simp
  let ?f = "\<lambda>a. st_File (sg_store (seg_of l a))"
  have "list_all2 (\<lambda>a bs. \<not> fclosed (?f a) \<and> fget w (fname (?f a)) = Some bs \<and> fpos w (fname (?f a)) = 0) (lg_segments l) bss"
    unfolding list_all2_conv_all_nth
  proof (intro conjI allI impI)
    fix i assume i: "i < length (lg_segments l)"
    have s: "store_rep (sg_store (seg_of l (lg_segments l ! i))) w (bss ! i)"
      using stored_seg [OF rep b(1), of i] i D(9) by (simp add: segs_def)
    have "lg_segments l ! i < length (lg_heap l)" using D(3) i by (simp add: ptrs_ok_def)
    then have "seg_of l (lg_segments l ! i) \<in> set (lg_heap l)" by (simp add: seg_of_def)
    then show "\<not> fclosed (?f (lg_segments l ! i))" "fget w (fname (?f (lg_segments l ! i))) = Some (bss ! i)"
      "fpos w (fname (?f (lg_segments l ! i))) = 0"
      using s a by (auto simp: store_rep_def at_start_def)
  qed (use len in simp)
  moreover have "map (\<lambda>a. st_path (sg_store (seg_of l a))) (lg_segments l) = map (\<lambda>b. (lg_Dir l, store_file b)) (bases l)"
  proof (rule nth_equalityI)
    fix i assume "i < length (map (\<lambda>a. st_path (sg_store (seg_of l a))) (lg_segments l))"
    then have "seg_rep x (lg_Dir l) (segs l ! i) w (rss ! i)" "segs l ! i = seg_of l (lg_segments l ! i)" "i < length (lg_segments l)"
      using D(9) D(10) [of i] by (simp_all add: segs_def)
    then show "map (\<lambda>a. st_path (sg_store (seg_of l a))) (lg_segments l) ! i = map (\<lambda>b. (lg_Dir l, store_file b)) (bases l) ! i"
      using D(9) by (simp add: bases_def seg_rep_def)
  qed (use D(9) in \<open>simp add: bases_def\<close>)
  moreover have "distinct (map (\<lambda>b. (lg_Dir l, store_file b)) (bases l))"
    using bases_distinct [OF inv] by (auto simp: distinct_map inj_on_def store_file_def)
  ultimately obtain w' k' where "MultiReader_WriteTo sk (map (\<lambda>a. \<lparr>or_seg = a, or_off = 0\<rparr>) (lg_segments l)) l w k = (None, w', k')"
    "got k' = got k @ concat bss"
    using MultiReader_WriteTo_copies [OF sk, of l w "lg_segments l" bss k] D(1) by auto
  then show ?thesis using b(2,3)
    by (intro exI [of _ ps] exI [of _ w'] exI [of _ k'])
       (simp add: snapshot_Persist_def fsm_Snapshot_def Log_Reader_def split: prod.splits)
qed

text \<open>A restart is a close that succeeds and a \<^verbatim>\<open>NewLog\<close> on the same directory.\<close>

lemma Persist_after_restart:
  assumes c: "log_contract x (l0, w0) lo rs" and sk: "sink_ok sk got"
    and cl: "Log_Close x l0 w0 = (None, l1, w1)" and op: "NewLog x (lg_Dir l0) (lg_Config l0) w1 = (None, l, w)"
  shows "\<exists>ps w' k'. encodes x rs ps \<and> got k' = got k @ frames ps \<and>
    snapshot_Persist sk (fsm_Snapshot l) l w k = (fst (sk_Close sk k'), w', snd (sk_Close sk k'))"
  using Log_close_reopen_contract [OF c] cl op Persist_from_start [OF _ NewLog_at_start [OF op] sk] by auto

end
