(* ===== verification/Faults.thy ===== *)
theory Faults
  imports CommitLog
begin

text \<open>
  The log when system calls fail (src/internal/log). Every other theory on the log starts from a
  \<open>quiet\<close> world; here any call may fail at any time. \<open>store_safe\<close> and \<open>seg_safe\<close> are what
  survives: a store whose writer has failed refuses everything from then on, and an index never points
  to anything but a whole frame of its record. \<open>Fault_Histories\<close> goes on to the log.
\<close>

section \<open>System calls\<close>

definition leaves :: "path set \<Rightarrow> world \<Rightarrow> world \<Rightarrow> bool" where
  "leaves P w w' \<longleftrightarrow> (\<forall>p. p \<notin> P \<longrightarrow> fget w' p = fget w p)"

lemma leaves_refl [simp]: "leaves P w w"
  by (simp add: leaves_def)

lemma leaves_trans: "leaves P w w' \<Longrightarrow> leaves P w' w'' \<Longrightarrow> leaves P w w''"
  by (simp add: leaves_def)

lemma leaves_mono: "leaves P w w' \<Longrightarrow> P \<subseteq> Q \<Longrightarrow> leaves Q w w'"
  by (auto simp: leaves_def)

lemma leaves_fget: "leaves P w w' \<Longrightarrow> p \<notin> P \<Longrightarrow> fget w' p = fget w p"
  by (cases p) (simp add: leaves_def)

lemma fget_fault: "take_fault w = (flt, w') \<Longrightarrow> fget w' = fget w \<and> fs w' = fs w"
  by (auto simp: take_fault_def fget_def fun_eq_iff split: list.splits)

lemma os_Write_faulty:
  assumes "os_Write f p w = ((n, err), w')" "\<not> fclosed f" "fget w (fname f) = Some c"
  shows "fget w' (fname f) = Some (c @ take n p) \<and> (err = None \<longrightarrow> n = length p) \<and> leaves {fname f} w w'"
proof -
  obtain flt w1 where t: "take_fault w = (flt, w1)" by fastforce
  note f = fget_fault [OF t]
  have "fs w1 (fst (fname f)) \<noteq> None" using fget_dir [of w1 "fname f" c] assms(3) f by simp
  then show ?thesis using assms t f by (auto simp: os_Write_def Let_def leaves_def split: option.splits)
qed

lemma os_ReadAt_faulty:
  assumes "os_ReadAt f n off w = ((data, err), w')"
  shows "fget w' = fget w" "err = None \<Longrightarrow> fget w (fname f) = Some c \<Longrightarrow> data = take n (drop (unat off) c) \<and> length data = n"
  using assms by (auto simp: os_ReadAt_def Let_def dest!: fget_fault split: if_splits prod.splits option.splits)

text \<open>
  \<open>wrote f p b w err b' w'\<close>: writing \<open>p\<close> through the buffer took the writer from \<open>b\<close> to \<open>b'\<close>. Without an error
  the file followed by the buffer has grown by \<open>p\<close>; with one the writer is broken for good.
\<close>

definition content :: "osfile \<Rightarrow> bufio \<Rightarrow> world \<Rightarrow> bytes" where
  "content f b w = the (fget w (fname f)) @ bw_buf b"

definition wrote :: "osfile \<Rightarrow> bytes \<Rightarrow> bufio \<Rightarrow> world \<Rightarrow> goerr option \<Rightarrow> bufio \<Rightarrow> world \<Rightarrow> bool" where
  "wrote f p b w err b' w' \<longleftrightarrow> leaves {fname f} w w' \<and> fget w' (fname f) \<noteq> None \<and>
     (err = None \<longrightarrow> bw_err b = None \<and> bw_err b' = None \<and> content f b' w' = content f b w @ p) \<and>
     (err \<noteq> None \<longrightarrow> bw_err b' \<noteq> None)"

lemma wroteD:
  assumes "wrote f p b w err b' w'"
  shows "leaves {fname f} w w'" "fget w' (fname f) \<noteq> None"
    "err = None \<Longrightarrow> bw_err b = None" "err = None \<Longrightarrow> bw_err b' = None"
    "err = None \<Longrightarrow> content f b' w' = content f b w @ p" "err \<noteq> None \<Longrightarrow> bw_err b' \<noteq> None"
  using assms by (simp_all add: wrote_def)

lemma wrote_trans:
  assumes "wrote f p b w e b1 w1" "wrote f q b1 w1 err b2 w2"
  shows "wrote f (p @ q) b w err b2 w2"
  using assms leaves_trans by (auto simp: wrote_def)

lemma bufio_Flush_faulty:
  assumes "bufio_Flush f b w = (r, b', w')" "\<not> fclosed f" "fget w (fname f) \<noteq> None"
  shows "wrote f [] b w r b' w'" "r = None \<Longrightarrow> bw_buf b' = []"
proof -
  obtain c where c: "fget w (fname f) = Some c" using assms(3) by blast
  have "wrote f [] b w r b' w' \<and> (r = None \<longrightarrow> bw_buf b' = [])"
  proof (cases "bw_err b = None \<and> bw_buf b \<noteq> []")
    case True
    obtain n err w1 where o: "os_Write f (bw_buf b) w = ((n, err), w1)" by (metis prod.exhaust)
    from os_Write_faulty [OF o assms(2) c] True o assms(1) c show ?thesis
      by (auto simp: bufio_Flush_def wrote_def content_def split: option.splits)
  qed (use assms c in \<open>auto simp: bufio_Flush_def wrote_def content_def split: option.splits\<close>)
  then show "wrote f [] b w r b' w'" "r = None \<Longrightarrow> bw_buf b' = []" by blast+
qed

lemma bufio_Write_loop_faulty:
  assumes "bufio_Write_loop f p nn b w = ((n, err), b', w')" "\<not> fclosed f" "fget w (fname f) \<noteq> None"
  shows "wrote f p b w err b' w' \<and> (err = None \<longrightarrow> n = nn + length p)"
  using assms
proof (induction f p nn b w rule: bufio_Write_loop.induct)
  case (1 f p nn b w)
  show ?case
  proof (cases "bufio_size - length (bw_buf b) < length p \<and> bw_err b = None")
    case False
    then show ?thesis using "1.prems"
      by (auto simp: bufio_Write_loop.simps [of f p nn b w] wrote_def content_def split: option.splits)
  next
    case fits: True
    obtain c where c: "fget w (fname f) = Some c" using "1.prems"(3) by blast
    show ?thesis
    proof (cases "bw_buf b = []")
      case True
      obtain k e w1 where o: "os_Write f p w = ((k, e), w1)" by (metis prod.exhaust)
      note o' = os_Write_faulty [OF o "1.prems"(2) c]
      have run: "bufio_Write_loop f (drop k p) (nn + k) (b\<lparr>bw_err := e\<rparr>) w1 = ((n, err), b', w')"
        using "1.prems"(1) fits True o by (simp add: bufio_Write_loop.simps [of f p nn b w])
      have step: "wrote f (take k p) b w e (b\<lparr>bw_err := e\<rparr>) w1"
        using o' c True fits by (simp add: wrote_def content_def)
      have IH: "wrote f (drop k p) (b\<lparr>bw_err := e\<rparr>) w1 err b' w' \<and> (err = None \<longrightarrow> n = nn + k + length (drop k p))"
        using "1.IH"(1) [OF fits True o [symmetric] refl run "1.prems"(2)] o' by simp
      have "err = None \<longrightarrow> e = None" using wroteD(3) [OF conjunct1 [OF IH]] by simp
      then show ?thesis using wrote_trans [OF step conjunct1 [OF IH]] IH o' by auto
    next
      case False
      let ?k = "min (length p) (bufio_size - length (bw_buf b))"
      let ?b = "b\<lparr>bw_buf := bw_buf b @ take ?k p\<rparr>"
      obtain r b1 w1 where o: "bufio_Flush f ?b w = (r, b1, w1)" by (metis prod.exhaust)
      note o' = bufio_Flush_faulty [OF o "1.prems"(2,3)]
      have run: "bufio_Write_loop f (drop ?k p) (nn + ?k) b1 w1 = ((n, err), b', w')"
        using "1.prems"(1) fits False o by (simp add: bufio_Write_loop.simps [of f p nn b w] Let_def)
      have step: "wrote f (take ?k p) b w r b1 w1"
        using o'(1) fits by (simp add: wrote_def content_def)
      have IH: "wrote f (drop ?k p) b1 w1 err b' w' \<and> (err = None \<longrightarrow> n = nn + ?k + length (drop ?k p))"
        using "1.IH"(2) [OF fits False refl o [symmetric] refl run "1.prems"(2)] wroteD(2) [OF o'(1)] by simp
      have "wrote f (take ?k p @ drop ?k p) b w err b' w'" using IH by (intro wrote_trans [OF step]) simp
      then show ?thesis using IH by (simp only: append_take_drop_id) auto
    qed
  qed
qed

section \<open>The store\<close>

definition store_safe :: "store \<Rightarrow> world \<Rightarrow> bytes \<Rightarrow> bool" where
  "store_safe s w bs \<longleftrightarrow> \<not> fclosed (st_File s) \<and> fget w (st_path s) \<noteq> None \<and>
     (bw_err (st_buf s) = None \<longrightarrow>
        content (st_File s) (st_buf s) w = bs \<and> unat (st_size s) = length bs \<and> length bs < 2 ^ 63)"

lemma store_safe_cong: "store_safe s w bs \<Longrightarrow> fget w' (st_path s) = fget w (st_path s) \<Longrightarrow> store_safe s w' bs"
  by (simp add: store_safe_def content_def)

lemma store_safe_broken: "bw_err b \<noteq> None \<Longrightarrow> store_safe s w bs \<Longrightarrow> fget w' (st_path s) \<noteq> None \<Longrightarrow>
    store_safe (s\<lparr>st_buf := b\<rparr>) w' bs'"
  by (auto simp: store_safe_def)

lemma store_Append_safe:
  assumes a: "store_Append p s w = (res, s', w')" and safe: "store_safe s w bs"
    and room: "unat (st_size s) + length (frame p) < 2 ^ 63"
  shows "leaves {st_path s} w w' \<and> st_File s' = st_File s \<and>
    (case res of
       Inr (n, pos) \<Rightarrow> pos = of_nat (length bs) \<and> length bs < 2 ^ 63 \<and> store_safe s' w' (bs @ frame p) \<and>
         unat (st_size s') = unat (st_size s) + length (frame p)
     | Inl e \<Rightarrow> store_safe s' w' bs \<and> st_size s' = st_size s)"
proof -
  have c: "\<not> fclosed (st_File s)" "fget w (st_path s) \<noteq> None" using safe by (simp_all add: store_safe_def)
  obtain n1 e1 b1 w1 where 1: "bufio_Write (st_File s) (PutUint64 (of_nat (length p))) (st_buf s) w = ((n1, e1), b1, w1)"
    by (metis prod.exhaust)
  note W1 = conjunct1 [OF bufio_Write_loop_faulty [OF 1 [unfolded bufio_Write_def] c]]
  show ?thesis
  proof (cases e1)
    case (Some e)
    then have s': "res = Inl e" "s' = s\<lparr>st_buf := b1\<rparr>" "w' = w1" using a 1 by (simp_all add: store_Append_def)
    have "bw_err b1 \<noteq> None" using wroteD(6) [OF W1] Some by simp
    then show ?thesis using store_safe_broken [OF _ safe wroteD(2) [OF W1]] wroteD(1) [OF W1] by (simp add: s')
  next
    case None
    obtain n2 e2 b2 w2 where 2: "bufio_Write (st_File s) p b1 w1 = ((n2, e2), b2, w2)" by (metis prod.exhaust)
    have W2: "wrote (st_File s) p b1 w1 e2 b2 w2" "e2 = None \<longrightarrow> n2 = length p"
      using bufio_Write_loop_faulty [OF 2 [unfolded bufio_Write_def] c(1) wroteD(2) [OF W1]] by auto
    have W: "wrote (st_File s) (frame p) (st_buf s) w e2 b2 w2"
      unfolding frame_def by (rule wrote_trans [OF W1 [unfolded None] W2(1)])
    show ?thesis
    proof (cases e2)
      case (Some e)
      then have s': "res = Inl e" "s' = s\<lparr>st_buf := b2\<rparr>" "w' = w2" using a 1 2 None by (simp_all add: store_Append_def)
      have "bw_err b2 \<noteq> None" using wroteD(6) [OF W] Some by simp
      then show ?thesis using store_safe_broken [OF _ safe wroteD(2) [OF W]] wroteD(1) [OF W] by (simp add: s')
    next
      case e2: None
      have alive: "content (st_File s) (st_buf s) w = bs" "unat (st_size s) = length bs"
        using safe wroteD(3) [OF W e2] by (simp_all add: store_safe_def)
      let ?s = "s\<lparr>st_buf := b2, st_size := st_size s + of_nat (length p + 8)\<rparr>"
      have u: "unat (of_nat (length p + 8) :: u64) = length p + 8" using room by (intro u64_of_nat) simp
      then have sz: "unat (st_size ?s) = unat (st_size s) + length (frame p)"
        using room by (simp add: unat_u64_add del: of_nat_add)
      have "st_size s = of_nat (length bs)" using alive(2) u64_of_nat_eq [of "length bs" "st_size s"] room by simp
      moreover have "store_safe ?s w2 (bs @ frame p)"
        using c(1) wroteD(2) [OF W] wroteD(5) [OF W e2] alive sz room by (simp add: store_safe_def)
      moreover have "store_Append p s w = (Inr (of_nat (length p + 8), st_size s), ?s, w2)"
        using 1 2 None e2 W2(2) by (simp add: store_Append_def Let_def recordLenBytes_def)
      ultimately show ?thesis using a wroteD(1) [OF W] sz alive(2) room by simp
    qed
  qed
qed

lemma store_Read_safe:
  assumes r: "store_Read pos s w = (res, s', w')" and safe: "store_safe s w bs"
  shows "leaves {st_path s} w w' \<and> st_File s' = st_File s \<and> st_size s' = st_size s \<and> store_safe s' w' bs \<and>
    (\<forall>p q. res = Inr q \<longrightarrow> frame_at bs (unat pos) p \<longrightarrow> q = p)"
proof -
  have c: "\<not> fclosed (st_File s)" "fget w (st_path s) \<noteq> None" using safe by (simp_all add: store_safe_def)
  obtain e b w1 where f: "bufio_Flush (st_File s) (st_buf s) w = (e, b, w1)" by (metis prod.exhaust)
  note W = bufio_Flush_faulty [OF f c]
  show ?thesis
  proof (cases e)
    case (Some e')
    then have s': "res = Inl e'" "s' = s\<lparr>st_buf := b\<rparr>" "w' = w1" using r f by (simp_all add: store_Read_def)
    have "bw_err b \<noteq> None" using wroteD(6) [OF W(1)] Some by simp
    then show ?thesis using store_safe_broken [OF _ safe wroteD(2) [OF W(1)]] wroteD(1) [OF W(1)] by (simp add: s')
  next
    case None
    note wD = wroteD(3-5) [OF W(1) None]
    have bs: "fget w1 (st_path s) = Some bs" "unat (st_size s) = length bs" "length bs < 2 ^ 63"
      using safe wD W(2) [OF None] wroteD(2) [OF W(1)] by (auto simp: store_safe_def content_def)
    obtain sz e1 w2 where 1: "os_ReadAt (st_File s) recordLenBytes pos w1 = ((sz, e1), w2)" by (metis prod.exhaust)
    obtain d e2 w3 where 2: "os_ReadAt (st_File s) (unat (Uint64 sz)) (pos + of_nat recordLenBytes) w2 = ((d, e2), w3)"
      by (metis prod.exhaust)
    note r1 = os_ReadAt_faulty [OF 1] and r2 = os_ReadAt_faulty [OF 2]
    have safe': "store_safe (s\<lparr>st_buf := b\<rparr>) w4 bs" "leaves {st_path s} w w4" if "fget w4 = fget w1" for w4
      using that bs c(1) wroteD(1) [OF W(1)] W(2) [OF None] by (simp_all add: store_safe_def leaves_def content_def)
    have "q = p" if q: "res = Inr q" and p: "frame_at bs (unat pos) p" for p q
    proof -
      have ok: "e1 = None" "e2 = None" "q = d"
        using r f None 1 2 q by (auto simp: store_Read_def Let_def split: option.splits if_splits)
      have len: "unat pos + 8 + length p \<le> length bs" using p by (simp add: frame_at_def)
      have "sz = PutUint64 (of_nat (length p))"
        using r1(2) [OF ok(1) bs(1)] frame_at_size [OF p] by (simp add: recordLenBytes_def)
      moreover have "unat (of_nat (length p) :: u64) = length p" using len bs(3) by simp
      moreover have "unat (pos + of_nat recordLenBytes) = unat pos + 8"
        using len bs(3) by (simp add: recordLenBytes_def unat_u64_add)
      ultimately show "q = p"
        using r2(2) [OF ok(2), of bs] r1(1) bs(1) frame_at_data [OF p] ok(3) by simp
    qed
    moreover have "st_File s' = st_File s \<and> st_size s' = st_size s \<and> store_safe s' w' bs \<and> leaves {st_path s} w w'"
    proof -
      have "s' = s\<lparr>st_buf := b\<rparr>" "w' = w2 \<or> w' = w3"
        using r f None 1 2 by (auto simp: store_Read_def Let_def split: option.splits if_splits)
      moreover have "fget w2 = fget w1" "fget w3 = fget w1" using r1(1) r2(1) by simp_all
      ultimately show ?thesis using safe' by (elim disjE) simp_all
    qed
    ultimately show ?thesis by blast
  qed
qed

section \<open>The segment\<close>

text \<open>
  The index of a segment is in memory, so only the calls of the store can fail. \<open>poss\<close> are the positions
  of the records; between them there may be frames whose index entry could not be written.
\<close>

definition seg_safe :: "ext \<Rightarrow> string \<Rightarrow> segment \<Rightarrow> world \<Rightarrow> api_Record list \<Rightarrow> bool" where
  "seg_safe x dir s w rs \<longleftrightarrow> (\<exists>ps poss bs v. encodes x rs ps \<and> length poss = length ps \<and>
     store_safe (sg_store s) w bs \<and> (\<forall>i < length ps. frame_at bs (poss ! i) (ps ! i) \<and> poss ! i < 2 ^ 63) \<and>
     index_rep (sg_config s) (sg_index s) v (map (\<lambda>i. (of_nat i, of_nat (poss ! i))) [0..<length ps])) \<and>
     unat (sg_nextOffset s) = unat (sg_baseOffset s) + length rs \<and>
     st_path (sg_store s) = (dir, store_file (sg_baseOffset s))"

lemma seg_safe_cong:
  "seg_safe x dir s w rs \<Longrightarrow> fget w' (dir, store_file (sg_baseOffset s)) = fget w (dir, store_file (sg_baseOffset s)) \<Longrightarrow>
     seg_safe x dir s w' rs"
  unfolding seg_safe_def by (elim conjE exE, intro conjI exI) (erule store_safe_cong | simp)+

lemma seg_rep_safe:
  assumes "seg_rep x dir s w rs"
  shows "seg_safe x dir s w rs"
proof -
  obtain ps where ps: "encodes x rs ps" "store_rep (sg_store s) w (frames ps)"
    "index_rep (sg_config s) (sg_index s) w (entries ps)" "length ps = length rs"
    "offsets_from (sg_baseOffset s) rs" "unat (sg_nextOffset s) = unat (sg_baseOffset s) + length rs"
    "st_path (sg_store s) = (dir, store_file (sg_baseOffset s))" by (rule seg_repE [OF assms])
  let ?poss = "map (\<lambda>i. length (frames (take i ps))) [0..<length ps]"
  have "store_safe (sg_store s) w (frames ps)" using ps(2) by (auto simp: store_rep_def store_safe_def content_def)
  moreover have "length (frames ps) < 2 ^ 63" using ps(2) by (simp add: store_rep_def)
  then have "frame_at (frames ps) (?poss ! i) (ps ! i) \<and> ?poss ! i < 2 ^ 63" if "i < length ps" for i
    using frame_at_frames [OF that] frames_take_le [of i ps] that by simp
  moreover have "map (\<lambda>i. (of_nat i, of_nat (?poss ! i))) [0..<length ps] = entries ps"
    by (simp add: entries_def)
  ultimately show ?thesis unfolding seg_safe_def using ps(1,3,6,7)
    by (intro conjI exI [of _ ps] exI [of _ ?poss] exI [of _ "frames ps"] exI [of _ w]) auto
qed

lemma seg_safeI:
  assumes "encodes x rs ps" "length poss = length ps" "store_safe (sg_store s) w bs"
    "\<forall>i < length ps. frame_at bs (poss ! i) (ps ! i) \<and> poss ! i < 2 ^ 63"
    "index_rep (sg_config s) (sg_index s) v (map (\<lambda>i. (of_nat i, of_nat (poss ! i))) [0..<length ps])"
    "unat (sg_nextOffset s) = unat (sg_baseOffset s) + length rs" "st_path (sg_store s) = (dir, store_file (sg_baseOffset s))"
  shows "seg_safe x dir s w rs"
  unfolding seg_safe_def using assms by blast

lemma seg_safeE:
  assumes "seg_safe x dir s w rs"
  obtains ps poss bs v where "encodes x rs ps" "length poss = length ps" "store_safe (sg_store s) w bs"
    "\<forall>i < length ps. frame_at bs (poss ! i) (ps ! i) \<and> poss ! i < 2 ^ 63"
    "index_rep (sg_config s) (sg_index s) v (map (\<lambda>i. (of_nat i, of_nat (poss ! i))) [0..<length ps])"
    "unat (sg_nextOffset s) = unat (sg_baseOffset s) + length rs" "st_path (sg_store s) = (dir, store_file (sg_baseOffset s))"
  using assms unfolding seg_safe_def by blast

text \<open>The positions of the records when one more frame is at the end of the store.\<close>

lemma frame_at_grow:
  assumes "\<forall>i < length ps. frame_at bs (poss ! i) (ps ! i) \<and> poss ! i < 2 ^ 63"
  shows "\<forall>i < length ps. frame_at (bs @ cs) (poss ! i) (ps ! i) \<and> poss ! i < 2 ^ 63"
  using assms frame_at_append by blast

lemma frame_at_snoc:
  assumes "\<forall>i < length ps. frame_at bs (poss ! i) (ps ! i) \<and> poss ! i < 2 ^ 63" "length poss = length ps" "length bs < 2 ^ 63"
  shows "\<forall>i < length (ps @ [p]). frame_at (bs @ frame p) ((poss @ [length bs]) ! i) ((ps @ [p]) ! i) \<and> (poss @ [length bs]) ! i < 2 ^ 63"
  using frame_at_grow [OF assms(1), of "frame p"] assms(2,3) frame_at_end [of bs p] by (auto simp: nth_append less_Suc_eq)

lemma record_entries_snoc:
  assumes "length poss = length ps"
  shows "map (\<lambda>i. (of_nat i, of_nat ((poss @ [q]) ! i))) [0..<length (ps @ [p])] =
    map (\<lambda>i. (of_nat i :: u32, of_nat (poss ! i) :: u64)) [0..<length ps] @ [(of_nat (length ps), of_nat q)]"
  using assms by (auto simp: nth_append intro!: map_cong)

lemma relative_offset:
  assumes "unat (next_off :: u64) = unat base + n"
  shows "ucast (next_off - base) = (of_nat n :: u32)"
proof -
  have "next_off - base = of_nat n" using assms u64_bound [of next_off] by (intro u64_of_nat_eq) (simp_all add: unat_u64_sub)
  then show ?thesis by (simp add: ucast_u64_u32_of_nat)
qed

lemma segment_Append_safe:
  assumes a: "segment_Append x (Some r) s w = (res, s', w')" and safe: "seg_safe x dir s w rs" and x: "codec_ok x"
    and room: "unat (st_size (sg_store s)) + 2 ^ 32 < 2 ^ 63" and off: "unat (sg_nextOffset s) + 1 < 2 ^ 64"
  shows "leaves (seg_paths dir (sg_baseOffset s)) w w' \<and> sg_baseOffset s' = sg_baseOffset s \<and> sg_config s' = sg_config s \<and>
    unat (st_size (sg_store s')) \<le> unat (st_size (sg_store s)) + 2 ^ 32 \<and>
    (case res of
       Inr o' \<Rightarrow> o' = sg_nextOffset s \<and> seg_safe x dir s' w' (rs @ [r\<lparr>r_Offset := sg_nextOffset s\<rparr>]) \<and>
         unat (sg_nextOffset s') = unat (sg_nextOffset s) + 1
     | Inl e \<Rightarrow> seg_safe x dir s' w' rs \<and> sg_nextOffset s' = sg_nextOffset s)"
proof (cases "marshal x (r\<lparr>r_Offset := sg_nextOffset s\<rparr>)")
  case (Inl e)
  then show ?thesis using a safe by (auto simp: segment_Append_def Let_def)
next
  case m: (Inr p)
  obtain ps poss bs v where S: "encodes x rs ps" "length poss = length ps" "store_safe (sg_store s) w bs"
    "\<forall>i < length ps. frame_at bs (poss ! i) (ps ! i) \<and> poss ! i < 2 ^ 63"
    "index_rep (sg_config s) (sg_index s) v (map (\<lambda>i. (of_nat i, of_nat (poss ! i))) [0..<length ps])"
    and nx: "unat (sg_nextOffset s) = unat (sg_baseOffset s) + length rs"
    and path: "st_path (sg_store s) = (dir, store_file (sg_baseOffset s))" by (rule seg_safeE [OF safe])
  have p: "length (frame p) < 2 ^ 32" using codec_okD(2) [OF x m] by simp
  obtain res1 st w1 where st: "store_Append p (sg_store s) w = (res1, st, w1)" by (metis prod.exhaust)
  have SA: "leaves {st_path (sg_store s)} w w1" "st_File st = st_File (sg_store s)"
    "case res1 of Inr (n, pos) \<Rightarrow> pos = of_nat (length bs) \<and> length bs < 2 ^ 63 \<and> store_safe st w1 (bs @ frame p) \<and>
         unat (st_size st) = unat (st_size (sg_store s)) + length (frame p)
     | Inl e \<Rightarrow> store_safe st w1 bs \<and> st_size st = st_size (sg_store s)"
    using store_Append_safe [OF st S(3)] room p by auto
  have lv: "leaves (seg_paths dir (sg_baseOffset s)) w w1" using SA(1) path by (auto simp: seg_paths_def elim: leaves_mono)
  have keep: "seg_safe x dir (s\<lparr>sg_store := st\<rparr>) w1 rs" if "store_safe st w1 (bs @ cs)" for cs
    using that S(1,2,5) frame_at_grow [OF S(4)] nx path SA(2) by (intro seg_safeI [where bs = "bs @ cs"]) simp_all
  show ?thesis
  proof (cases res1)
    case (Inl e)
    then have run: "res = Inl e" "s' = s\<lparr>sg_store := st\<rparr>" "w' = w1" using a m st by (simp_all add: segment_Append_def Let_def)
    show ?thesis using lv SA(3) Inl keep [of "[]"] by (simp add: run)
  next
    case (Inr np)
    obtain n pos where np: "np = (n, pos)" by fastforce
    have S1: "pos = of_nat (length bs)" "store_safe st w1 (bs @ frame p)"
      "unat (st_size st) = unat (st_size (sg_store s)) + length (frame p)" "length bs < 2 ^ 63" using SA(3) Inr np by simp_all
    have rel: "ucast (sg_nextOffset s - sg_baseOffset s) = (of_nat (length ps) :: u32)"
      using relative_offset [OF nx] encodes_length [OF S(1)] by simp
    show ?thesis
    proof (cases "unat (MaxIndexBytes (sg_config s)) < 12 * length ps + 12")
      case True
      then have "res = Inl EOF" "s' = s\<lparr>sg_store := st\<rparr>" "w' = w1"
        using a m st Inr np rel index_Write_full [OF S(5)] by (simp_all add: segment_Append_def Let_def)
      then show ?thesis using lv S1(3) p keep [OF S1(2)] by simp
    next
      case False
      obtain i where i: "index_Write (of_nat (length ps)) pos (sg_index s) = (None, i)"
        "index_rep (sg_config s) i v (map (\<lambda>i. (of_nat i, of_nat (poss ! i))) [0..<length ps] @ [(of_nat (length ps), pos)])"
        using index_Write_rep [OF S(5), of "of_nat (length ps)" pos] False by auto
      let ?s = "s\<lparr>sg_store := st, sg_index := i, sg_nextOffset := sg_nextOffset s + 1\<rparr>"
      have run: "res = Inr (sg_nextOffset s)" "s' = ?s" "w' = w1"
        using a m st Inr np rel i(1) by (simp_all add: segment_Append_def Let_def)
      have nx': "unat (sg_nextOffset s + 1) = unat (sg_nextOffset s) + 1" using off by (rule unat_u64_Suc)
      have "seg_safe x dir ?s w1 (rs @ [r\<lparr>r_Offset := sg_nextOffset s\<rparr>])"
        using encodes_snoc [OF S(1) m] S(2) S1(2) frame_at_snoc [OF S(4,2) S1(4)] nx nx' path SA(2)
          i(2) [unfolded S1(1) record_entries_snoc [OF S(2), of "length bs" p, symmetric]]
        by (intro seg_safeI [where bs = "bs @ frame p" and ps = "ps @ [p]" and poss = "poss @ [length bs]" and v = v]) simp_all
      then show ?thesis using lv S1(3) p nx' by (simp add: run)
    qed
  qed
qed

lemma segment_Read_safe:
  assumes r: "segment_Read x off s w = (res, s', w')" and safe: "seg_safe x dir s w rs" and x: "codec_ok x"
    and i: "i < length rs" "unat off = unat (sg_baseOffset s) + i"
  shows "leaves (seg_paths dir (sg_baseOffset s)) w w' \<and> sg_baseOffset s' = sg_baseOffset s \<and> sg_config s' = sg_config s \<and>
    sg_nextOffset s' = sg_nextOffset s \<and> st_size (sg_store s') = st_size (sg_store s) \<and> seg_safe x dir s' w' rs \<and>
    (\<forall>r. res = Inr r \<longrightarrow> r = rs ! i)"
proof -
  obtain ps poss bs v where S: "encodes x rs ps" "length poss = length ps" "store_safe (sg_store s) w bs"
    "\<forall>i < length ps. frame_at bs (poss ! i) (ps ! i) \<and> poss ! i < 2 ^ 63"
    "index_rep (sg_config s) (sg_index s) v (map (\<lambda>i. (of_nat i, of_nat (poss ! i))) [0..<length ps])"
    and nx: "unat (sg_nextOffset s) = unat (sg_baseOffset s) + length rs"
    and path: "st_path (sg_store s) = (dir, store_file (sg_baseOffset s))" using safe by (auto simp: seg_safe_def)
  have ip: "i < length ps" using i(1) encodes_length [OF S(1)] by simp
  have "off - sg_baseOffset s = of_nat i"
    using i(2) u64_bound [of off] by (intro u64_of_nat_eq) (simp_all add: unat_u64_sub)
  then have rd: "index_Read (off - sg_baseOffset s) (sg_index s) = Inr (of_nat i, of_nat (poss ! i))"
    using index_Read_rep [OF S(5), of i] ip by simp
  obtain res1 st w1 where st: "store_Read (of_nat (poss ! i)) (sg_store s) w = (res1, st, w1)" by (metis prod.exhaust)
  have SR: "leaves {st_path (sg_store s)} w w1" "st_File st = st_File (sg_store s)" "st_size st = st_size (sg_store s)"
    "store_safe st w1 bs"
    "\<And>p q. res1 = Inr q \<Longrightarrow> frame_at bs (unat (of_nat (poss ! i) :: u64)) p \<Longrightarrow> q = p"
    using store_Read_safe [OF st S(3)] by blast+
  have "frame_at bs (poss ! i) (ps ! i)" "poss ! i < 2 ^ 63" using S(4) ip by blast+
  moreover from this(2) have "unat (of_nat (poss ! i) :: u64) = poss ! i" by (intro u64_of_nat) simp
  ultimately have fr: "frame_at bs (unat (of_nat (poss ! i) :: u64)) (ps ! i)" by simp
  have m: "marshal x (rs ! i) = Inr (ps ! i)" using S(1) i(1) by (rule encodes_nth)
  have run: "s' = s\<lparr>sg_store := st\<rparr>" "w' = w1" "res = (case res1 of Inl e \<Rightarrow> Inl e | Inr p \<Rightarrow> unmarshal x p)"
    using r rd st by (auto simp: segment_Read_def split: sum.splits)
  have "seg_safe x dir s' w' rs" unfolding seg_safe_def run using S(1,2,4,5) SR(2,4) nx path
    by (intro conjI exI [of _ ps] exI [of _ poss] exI [of _ bs] exI [of _ v]) simp_all
  moreover have "q = rs ! i" if "res = Inr q" for q
  proof (cases res1)
    case (Inr d)
    then have "d = ps ! i" using SR(5) fr by blast
    then show ?thesis using that run(3) Inr codec_okD(1) [OF x m] by simp
  qed (use that run(3) in simp)
  moreover have "leaves (seg_paths dir (sg_baseOffset s)) w w'"
    using SR(1) path by (auto simp: run seg_paths_def elim: leaves_mono)
  ultimately show ?thesis using SR(3) by (simp add: run)
qed

section \<open>Opening a new segment\<close>

lemma os_OpenFile_faulty:
  assumes "os_OpenFile p w = (r, w')"
  shows "leaves {p} w w'" "r = Inr f \<Longrightarrow> f = \<lparr>fname = p, fclosed = False\<rparr> \<and> fget w' p = Some (case fget w p of None \<Rightarrow> [] | Some c \<Rightarrow> c)"
  using assms
  by (auto simp: os_OpenFile_def Let_def leaves_def dest!: fget_fault split: prod.splits option.splits if_splits)

lemma os_Stat_faulty:
  "os_Stat p w = (r, w') \<Longrightarrow> fget w' = fget w \<and> (\<forall>n c. r = Inr n \<longrightarrow> fget w p = Some c \<longrightarrow> n = length c)"
  by (auto simp: os_Stat_def dest!: fget_fault split: prod.splits option.splits)

lemma os_Truncate_faulty:
  assumes "os_Truncate p n w = (r, w')"
  shows "leaves {p} w w'" "r = None \<Longrightarrow> fget w p = Some c \<Longrightarrow> fget w' p = Some (resize (unat n) c)"
  using assms
  by (auto simp: os_Truncate_def leaves_def dest!: fget_fault split: prod.splits option.splits if_splits)
     (metis fget_dir)+

lemma newIndex_faulty:
  assumes n: "newIndex x f c w = (r, w')"
  shows "leaves {fname f} w w'"
    "r = Inr i \<Longrightarrow> config_ok c \<Longrightarrow> mmap_ok x \<Longrightarrow> \<not> fclosed f \<Longrightarrow> fget w (fname f) = Some [] \<Longrightarrow>
       ix_size i = 0 \<and> (\<exists>v. index_rep c i v [])"
proof -
  obtain r1 w1 where 1: "os_Stat (fname f) w = (r1, w1)" by fastforce
  obtain r2 w2 where 2: "os_Truncate (fname f) (MaxIndexBytes c) w1 = (r2, w2)" by fastforce
  obtain r3 w3 where 3: "mmap_Map x (fname f) w2 = (r3, w3)" by fastforce
  have "w' = w1 \<or> w' = w2 \<or> w' = w3" using n 1 2 3 by (auto simp: newIndex_def split: sum.splits option.splits)
  then show "leaves {fname f} w w'"
    using os_Stat_faulty [OF 1] os_Truncate_faulty(1) [OF 2] mmap_Map_frame [OF 3] by (auto simp: leaves_def)
  assume i: "r = Inr i" and c: "config_ok c" "mmap_ok x" "\<not> fclosed f" and f: "fget w (fname f) = Some []"
  let ?bs = "resize (unat (MaxIndexBytes c)) []"
  have ok: "r1 = Inr 0" "r2 = None" using n 1 2 i os_Stat_faulty [OF 1] f
    by (auto simp: newIndex_def split: sum.splits option.splits)
  have f2: "fget w2 (fname f) = Some ?bs" using os_Truncate_faulty(2) [OF 2 ok(2)] os_Stat_faulty [OF 1] f by simp
  have b: "?bs = replicate (unat (MaxIndexBytes c)) 0" "?bs \<noteq> []" using c(1) by (auto simp: resize_def config_ok_def)
  then have "mm_Map x ?bs = Inr ?bs" using c(2) by (simp add: mmap_ok_def)
  moreover obtain m where m: "r3 = Inr m" using n 1 2 3 ok i by (auto simp: newIndex_def split: sum.splits)
  ultimately have "m = ?bs" using mmap_Map_frame [OF 3] f2 by (simp add: file_bytes_def)
  then have i: "i = \<lparr>ix_file = f, ix_mmap = ?bs, ix_mapped = True, ix_size = 0\<rparr>"
    using n 1 2 3 ok m i by (simp add: newIndex_def)
  moreover have "index_rep c i (w2\<lparr>faults := []\<rparr>) []"
    using c f2 b(1) by (simp add: i index_rep_def quiet_def fget_def resize_def)
  ultimately show "ix_size i = 0 \<and> (\<exists>v. index_rep c i v [])" by auto
qed

lemma newSegment_leaves: "newSegment x dir b c w = (r, w') \<Longrightarrow> leaves (seg_paths dir b) w w'"
proof -
  have op: "leaves {p} u u' \<and> (\<forall>f. q = Inr f \<longrightarrow> fname f = p)" if "os_OpenFile p u = (q, u')" for p q u u'
    using os_OpenFile_faulty [OF that] by auto
  assume "newSegment x dir b c w = (r, w')"
  then show ?thesis
    by (auto simp: newSegment_def newStore_def leaves_def seg_paths_def dest!: op os_Stat_faulty newIndex_faulty(1)
        split: sum.splits prod.splits if_splits)
qed

lemma newSegment_safe:
  assumes n: "newSegment x dir b c w = (Inr s, w')" and c: "config_ok c" "mmap_ok x"
    and f: "fget w (dir, store_file b) = None" "fget w (dir, index_file b) = None"
  shows "seg_safe x dir s w' [] \<and> sg_baseOffset s = b \<and> sg_nextOffset s = b \<and> sg_config s = c \<and> st_size (sg_store s) = 0"
proof -
  let ?p = "(dir, store_file b)" and ?q = "(dir, index_file b)"
  from n obtain sf w1 st w2 fi w3 i w4 where
    1: "os_OpenFile ?p w = (Inr sf, w1)" and 2: "newStore sf w1 = (Inr st, w2)" and 3: "os_OpenFile ?q w2 = (Inr fi, w3)"
    and 4: "newIndex x fi c w3 = (Inr i, w4)" by (auto simp: newSegment_def split: sum.splits prod.splits)
  have pq: "?p \<noteq> ?q" by (auto simp: store_file_def index_file_def)
  have sf: "sf = \<lparr>fname = ?p, fclosed = False\<rparr>" "fget w1 ?p = Some []" "leaves {?p} w w1"
    using os_OpenFile_faulty [OF 1] f(1) by auto
  have st: "fget w2 = fget w1" "st = \<lparr>st_File = sf, st_buf = bufio_NewWriter, st_size = 0\<rparr>"
    using 2 sf by (auto simp: newStore_def split: prod.splits sum.splits dest!: os_Stat_faulty)
  have "fget w2 ?q = None" using leaves_fget [OF sf(3)] pq st(1) f(2) by auto
  then have fi: "fi = \<lparr>fname = ?q, fclosed = False\<rparr>" "fget w3 ?q = Some []" "leaves {?q} w2 w3"
    using os_OpenFile_faulty [OF 3] by auto
  have i: "ix_size i = 0" "\<exists>v. index_rep c i v []" using newIndex_faulty(2) [OF 4 refl c] fi by simp_all
  have s: "s = \<lparr>sg_store = st, sg_index = i, sg_baseOffset = b, sg_nextOffset = b, sg_config = c\<rparr>" "w' = w4"
    using n 1 2 3 4 i(1) by (simp_all add: newSegment_def index_Read_def is_panic_def)
  have "leaves {?q} w2 w4" using leaves_trans [OF fi(3)] newIndex_faulty(1) [OF 4] fi(1) by simp
  then have "fget w4 ?p = Some []" using leaves_fget pq st(1) sf(2) by auto
  then have "store_safe st w4 []" by (simp add: store_safe_def st sf content_def bufio_NewWriter_def)
  then have "seg_safe x dir s w' []" unfolding seg_safe_def s using i(2) st sf(1)
    by (auto simp: encodes_def intro!: exI [of _ "[]"])
  then show ?thesis by (simp add: s st)
qed

lemma seg_safe_leaves:
  assumes "seg_safe x dir s w rs" "leaves (seg_paths dir b) w w'" "sg_baseOffset s \<noteq> b"
  shows "seg_safe x dir s w' rs"
proof (rule seg_safe_cong [OF assms(1)])
  have "(dir, store_file (sg_baseOffset s)) \<notin> seg_paths dir b"
    using seg_paths_disjoint [OF assms(3)] by (auto simp: seg_paths_def)
  then show "fget w' (dir, store_file (sg_baseOffset s)) = fget w (dir, store_file (sg_baseOffset s))"
    by (rule leaves_fget [OF assms(2)])
qed

end
