(* ===== verification/Truncate_Faults.thy ===== *)
theory Truncate_Faults
  imports CommitLog
begin

text \<open>
  A truncation that fails half-way (src/internal/log/log.go: \<^verbatim>\<open>Log.Truncate\<close>; segment.go: \<^verbatim>\<open>segment.Remove\<close>;
  index.go: \<^verbatim>\<open>index.Close\<close>). The index is unmapped before the system calls that can still fail, and the
  early return leaves the segment in the list of the log. The lemmas follow such a segment through
  later reads and truncations.
\<close>

section \<open>An index that was unmapped\<close>

text \<open>
  \<^verbatim>\<open>msync\<close> and \<^verbatim>\<open>munmap\<close> are granted and the system call after them, which syncs the file of the index,
  fails: the faults are \<open>[None, None, Some (e, k)]\<close>.
\<close>

abbreviation unmapped :: "segment \<Rightarrow> segment" where
  "unmapped s \<equiv> s\<lparr>sg_index := (sg_index s)\<lparr>ix_mapped := False\<rparr>\<rparr>"

lemma index_Read_unmapped:
  "index_Read inn i = Inr ep \<Longrightarrow> index_Read inn (i\<lparr>ix_mapped := False\<rparr>) = Inl (Panic ''unexpected fault address'')"
  by (auto simp: index_Read_def mem_slice_def Let_def split: if_splits sum.splits)

lemma segment_Read_unmapped:
  assumes "segment_Read x off s w = (Inr r, s', w')"
  shows "segment_Read x off (unmapped s) w2 = (Inl (Panic ''unexpected fault address''), unmapped s, w2)"
proof -
  obtain ep where "index_Read (off - sg_baseOffset s) (sg_index s) = Inr ep"
    using assms by (auto simp: segment_Read_def split: sum.splits)
  from index_Read_unmapped [OF this] show ?thesis by (simp add: segment_Read_def)
qed

text \<open>Synchronizing the mapping fails now, so the segment can never be removed.\<close>

lemma segment_Remove_unmapped: "segment_Remove x (unmapped s) w = (Some (Extern ''msync: cannot allocate memory''), unmapped s, w)"
  by (simp add: segment_Remove_def segment_Close_def index_Close_def)

lemma segment_Remove_sync_fault:
  assumes rep: "seg_rep x dir s w rs" and x: "mmap_ok x"
  shows "\<exists>w'. segment_Remove x s (w\<lparr>faults := [None, None, Some (e, k)]\<rparr>) = (Some e, unmapped s, w') \<and> quiet w'"
proof -
  obtain ps where i: "index_rep (sg_config s) (sg_index s) w (entries ps)" using seg_repE [OF rep] by metis
  let ?i = "sg_index s"
  obtain bs where b: "fget w (fname (ix_file ?i)) = Some bs" "length bs = length (ix_mmap ?i)" "ix_mapped ?i" "\<not> fclosed (ix_file ?i)"
    using i by (auto simp: index_rep_def)
  have sync: "mm_Sync x (ix_mmap ?i) bs = Inr (ix_mmap ?i)" "mm_UnsafeUnmap x (ix_mmap ?i) = None"
    using x b(2) by (simp_all add: mmap_ok_def)
  have "fget (w\<lparr>faults := g\<rparr>) (fname (ix_file ?i)) = Some bs" for g using b(1) by (simp add: fget_def)
  then show ?thesis using b sync
    by (simp add: segment_Remove_def segment_Close_def index_Close_def mmap_Sync_def mmap_UnsafeUnmap_def file_bytes_def
        os_Sync_def take_fault_def Let_def quiet_def)
qed

section \<open>Finding a segment\<close>

lemma Log_find_cong:
  "(\<And>a. a \<in> set as \<Longrightarrow> sg_baseOffset (seg_of l' a) = sg_baseOffset (seg_of l a) \<and> sg_nextOffset (seg_of l' a) = sg_nextOffset (seg_of l a)) \<Longrightarrow>
     Log_find l' off as s = Log_find l off as s"
  by (induction as arbitrary: s) simp_all

lemma Log_find_first:
  assumes inv: "log_inv x l w rss" and off: "sg_baseOffset (hd (segs l)) \<le> off" "off < sg_nextOffset (hd (segs l))"
  shows "Log_find l off (lg_segments l) None = Some (hd (lg_segments l))"
proof -
  note D = log_invD [OF inv] and ch = log_inv_chain [OF inv]
  have h: "hd (segs l) = segs l ! 0" using D(7) by (rule hd_conv_nth)
  have "0 < length (segs l)" using D(7) by simp
  note b = seg_chain_block [OF ch this off [unfolded h]]
  obtain i where i: "i < length (segs l)" "Log_find l off (lg_segments l) None = Some (lg_segments l ! i)"
    "sg_baseOffset (segs l ! i) \<le> off"
    using Log_find_chain(1) [OF ch, of off] b(3,4) by (auto simp: log_low_def)
  have "i = 0"
  proof (rule ccontr)
    assume "i \<noteq> 0"
    then have "sg_nextOffset (segs l ! 0) \<le> sg_baseOffset (segs l ! i)"
      using chain_next [OF inv, of 0] chain_base [OF inv i(1)] D(6,7)
      by (cases i; cases rss) (auto simp: u64_le_iff)
    then show False using i(3) off(2) h by simp
  qed
  then show ?thesis using i(2) D(7) by (simp add: segs_def hd_conv_nth)
qed

section \<open>The log after a failed truncation\<close>

lemma Log_Truncate_sync_fault:
  assumes rep: "log_rep x l w rss" and x: "mmap_ok x" and cut: "sg_nextOffset (hd (segs l)) \<le> lowest + 1"
  defines "l' \<equiv> put_seg (hd (lg_segments l)) (unmapped (hd (segs l))) l"
  shows "\<exists>w'. Log_Truncate x lowest l (w\<lparr>faults := [None, None, Some (e, k)]\<rparr>) = (Some e, l', w') \<and> quiet w'"
    and "Log_Truncate x lowest l' w2 = (Some (Extern ''msync: cannot allocate memory''), l', w2)"
proof -
  note D = log_invD [OF log_repD(1) [OF rep]]
  obtain a as where as: "lg_segments l = a # as" "hd (segs l) = seg_of l a" "a < length (lg_heap l)"
    using D(3,7) by (cases "lg_segments l") (auto simp: segs_def ptrs_ok_def)
  have "seg_rep x (lg_Dir l) (seg_of l a) w (rss ! 0)" using D(10) [of 0] D(7) as(1) by (simp add: segs_def)
  from segment_Remove_sync_fault [OF this x, of e k]
  show "\<exists>w'. Log_Truncate x lowest l (w\<lparr>faults := [None, None, Some (e, k)]\<rparr>) = (Some e, l', w') \<and> quiet w'"
    using as cut by (auto simp: Log_Truncate_def l'_def)
  have "put_seg a (unmapped (seg_of l a)) l' = l'" using as by (simp add: l'_def put_seg_def)
  then show "Log_Truncate x lowest l' w2 = (Some (Extern ''msync: cannot allocate memory''), l', w2)"
    using as cut segment_Remove_unmapped by (simp add: Log_Truncate_def l'_def seg_of_put_seg)
qed

lemma Log_Read_unmapped:
  assumes rep: "log_rep x l w rss" and x: "codec_ok x"
    and off: "sg_baseOffset (hd (segs l)) \<le> off" "off < sg_nextOffset (hd (segs l))"
  defines "l' \<equiv> put_seg (hd (lg_segments l)) (unmapped (hd (segs l))) l"
  shows "Log_Read x off l' w2 = (Inl (Panic ''unexpected fault address''), l', w2)"
proof -
  note inv = log_repD(1) [OF rep]
  note D = log_invD [OF inv]
  let ?a = "hd (lg_segments l)"
  have a: "seg_of l ?a = hd (segs l)" "?a < length (lg_heap l)"
    using D(3,7) by (cases "lg_segments l"; auto simp: segs_def ptrs_ok_def)+
  have find: "Log_find l' off (lg_segments l') None = Some ?a" if "Log_find l off (lg_segments l) None = Some ?a"
  proof -
    have l': "lg_segments l' = lg_segments l" by (simp add: l'_def put_seg_def)
    show ?thesis unfolding l' that [symmetric] using a by (intro Log_find_cong) (simp add: l'_def seg_of_put_seg)
  qed
  have "0 < length (segs l)" "hd (segs l) = segs l ! 0" using D(7) hd_conv_nth by simp_all
  note b = seg_chain_block [OF log_inv_chain [OF inv] this(1) off [unfolded this(2)], folded log_low_def]
  obtain r l1 w1 where "Log_Read x off l w = (Inr r, l1, w1)" using Log_Read_hit [OF rep x b(3,4)] by blast
  then obtain s w1 where "segment_Read x off (hd (segs l)) w = (Inr r, s, w1)"
    using Log_find_first [OF inv off] off(2) a(1) by (auto simp: Log_Read_def split: if_splits prod.splits)
  from segment_Read_unmapped [OF this]
  show ?thesis using find [OF Log_find_first [OF inv off]] off(2) a
    by (simp add: Log_Read_def l'_def seg_of_put_seg) (simp add: put_seg_def)
qed

end
