(* ===== verification/Fault_Histories.thy ===== *)
theory Fault_Histories
  imports Faults Truncate_Faults
begin

text \<open>
  Histories of a log (src/internal/log/log.go) in which any system call may fail: appends, reads, truncations and
  closing. A segment that was closed or removed, also one whose removal failed half-way, may have an
  unmapped index: it is dead, and a history ends before an operation that would touch that index. Every
  other segment is \<open>seg_safe\<close>. The invariant \<open>hist_safe\<close> says so of the segments that the log can
  still reach. A history without truncations and closings unmaps nothing and goes to its end.
\<close>

section \<open>What the operations leave alone\<close>

lemma os_Write_leaves: "os_Write f p w = (r, w') \<Longrightarrow> leaves {fname f} w w'"
  by (auto simp: os_Write_def Let_def leaves_def dest!: fget_fault split: if_splits prod.splits option.splits)

lemma bufio_Flush_leaves: "bufio_Flush f b w = (r, b', w') \<Longrightarrow> leaves {fname f} w w'"
  by (auto simp: bufio_Flush_def dest!: os_Write_leaves split: option.splits if_splits prod.splits)

lemma bufio_Write_loop_leaves: "bufio_Write_loop f p nn b w = (r, b', w') \<Longrightarrow> leaves {fname f} w w'"
proof (induction f p nn b w rule: bufio_Write_loop.induct)
  case (1 f p nn b w)
  show ?case
  proof (cases "bufio_size - length (bw_buf b) < length p \<and> bw_err b = None")
    case False
    then show ?thesis using "1.prems" by (auto simp: bufio_Write_loop.simps [of f p nn b w] split: option.splits)
  next
    case fits: True
    show ?thesis
    proof (cases "bw_buf b = []")
      case True
      obtain n err w1 where o: "os_Write f p w = ((n, err), w1)" by (metis prod.exhaust)
      then have "bufio_Write_loop f (drop n p) (nn + n) (b\<lparr>bw_err := err\<rparr>) w1 = (r, b', w')"
        using "1.prems" fits True by (simp add: bufio_Write_loop.simps [of f p nn b w])
      from "1.IH"(1) [OF fits True o [symmetric] refl this] show ?thesis by (rule leaves_trans [OF os_Write_leaves [OF o]])
    next
      case False
      let ?n = "min (length p) (bufio_size - length (bw_buf b))"
      obtain e b1 w1 where o: "bufio_Flush f (b\<lparr>bw_buf := bw_buf b @ take ?n p\<rparr>) w = (e, b1, w1)" by (metis prod.exhaust)
      then have "bufio_Write_loop f (drop ?n p) (nn + ?n) b1 w1 = (r, b', w')"
        using "1.prems" fits False by (simp add: bufio_Write_loop.simps [of f p nn b w] Let_def)
      from "1.IH"(2) [OF fits False refl o [symmetric] refl this] show ?thesis by (rule leaves_trans [OF bufio_Flush_leaves [OF o]])
    qed
  qed
qed

lemma store_Append_leaves: "store_Append p s w = (res, s', w') \<Longrightarrow> leaves {st_path s} w w' \<and> st_path s' = st_path s"
  by (auto simp: store_Append_def bufio_Write_def Let_def dest!: bufio_Write_loop_leaves intro: leaves_trans
      split: prod.splits option.splits)

lemma store_Close_leaves: "store_Close s w = (res, s', w') \<Longrightarrow> leaves {st_path s} w w' \<and> st_path s' = st_path s"
  by (auto simp: store_Close_def os_Close_def leaves_def dest!: bufio_Flush_leaves fget_fault
      split: prod.splits option.splits if_splits)

lemma os_Remove_leaves: "os_Remove p w = (r, w') \<Longrightarrow> leaves {p} w w'"
  by (auto simp: os_Remove_def leaves_def dest!: fget_fault split: prod.splits option.splits)

text \<open>
  Closing an index either fails before the index itself has changed or leaves it unmapped, whatever it
  returns. The file of the index is all it touches.
\<close>

lemma index_Close_leaves:
  assumes c: "index_Close x i w = (res, i', w')"
  shows "leaves {index_Name i} w w' \<and> index_Name i' = index_Name i \<and> (\<not> ix_mapped i' \<or> i' = i) \<and>
    (res = None \<longrightarrow> \<not> ix_mapped i')"
proof -
  have sync: "leaves {} u u'" if "os_Sync f u = (r, u')" for f r u u'
    using that by (auto simp: os_Sync_def leaves_def dest!: fget_fault split: prod.splits option.splits if_splits)
  have trunc: "leaves {fname f} u u'" if "os_FTruncate f n u = (r, u')" for f n r u u'
    using that os_Truncate_faulty(1) by (auto simp: os_FTruncate_def split: if_splits)
  have cl: "leaves {} u u' \<and> fname f' = fname f" if "os_Close f u = (r, f', u')" for f r f' u u'
    using that by (auto simp: os_Close_def leaves_def dest!: fget_fault split: prod.splits option.splits if_splits)
  have put: "leaves {q} u (fput q bs u)" for q bs u by (simp add: leaves_def)
  have msync: "leaves {q} u u'" if "mmap_Sync x q m u = (r, u')" for q m r u u'
    using that put by (auto simp: mmap_Sync_def leaves_def dest!: fget_fault split: prod.splits option.splits sum.splits)
  have unmap: "leaves {} u u'" if "mmap_UnsafeUnmap x m u = (r, u')" for m r u u'
    using that by (auto simp: mmap_UnsafeUnmap_def leaves_def dest!: fget_fault split: prod.splits option.splits)
  show ?thesis using c
    by (auto simp: index_Close_def Let_def index_Name_def leaves_def dest!: msync unmap sync trunc cl
        split: if_splits sum.splits option.splits prod.splits)
qed


section \<open>Segments\<close>

definition at_home :: "string \<Rightarrow> segment \<Rightarrow> bool" where
  "at_home dir s \<longleftrightarrow> st_path (sg_store s) = (dir, store_file (sg_baseOffset s)) \<and>
     index_Name (sg_index s) = (dir, index_file (sg_baseOffset s))"

abbreviation dead :: "segment \<Rightarrow> bool" where
  "dead s \<equiv> \<not> ix_mapped (sg_index s)"

text \<open>What closing or removing a segment does to it, whatever it returns.\<close>

definition retired :: "string \<Rightarrow> segment \<Rightarrow> world \<Rightarrow> segment \<Rightarrow> world \<Rightarrow> bool" where
  "retired dir s w s' w' \<longleftrightarrow> leaves (seg_paths dir (sg_baseOffset s)) w w' \<and> at_home dir s' \<and> sg_baseOffset s' = sg_baseOffset s \<and>
     sg_nextOffset s' = sg_nextOffset s \<and> (dead s' \<or> s' = s \<and> fget w' (st_path (sg_store s)) = fget w (st_path (sg_store s)))"

lemma segment_Close_retired:
  assumes c: "segment_Close x s w = (res, s', w')" and h: "at_home dir s"
  shows "retired dir s w s' w' \<and> (res = None \<longrightarrow> dead s')"
proof -
  obtain e i w1 where i: "index_Close x (sg_index s) w = (e, i, w1)" by (metis prod.exhaust)
  obtain e' st w2 where st: "store_Close (sg_store s) w1 = (e', st, w2)" by (metis prod.exhaust)
  note I = index_Close_leaves [OF i] and S = store_Close_leaves [OF st]
  have 1: "leaves (seg_paths dir (sg_baseOffset s)) w w1" using I h by (auto simp: at_home_def seg_paths_def elim: leaves_mono)
  moreover have "leaves (seg_paths dir (sg_baseOffset s)) w1 w2" using S h by (auto simp: at_home_def seg_paths_def elim: leaves_mono)
  ultimately have 2: "leaves (seg_paths dir (sg_baseOffset s)) w w2" by (rule leaves_trans)
  show ?thesis
  proof (cases e)
    case None
    then show ?thesis using c i st I S h 2 by (auto simp: segment_Close_def retired_def at_home_def)
  next
    case (Some e0)
    have "st_path (sg_store s) \<noteq> index_Name (sg_index s)" using h by (simp add: at_home_def store_file_neq_index_file)
    then have "fget w1 (st_path (sg_store s)) = fget w (st_path (sg_store s))" using I leaves_fget by blast
    then show ?thesis using c i I h 1 Some by (auto simp: segment_Close_def retired_def at_home_def)
  qed
qed

lemma segment_Remove_retired:
  assumes c: "segment_Remove x s w = (res, s', w')" and h: "at_home dir s"
  shows "retired dir s w s' w' \<and> (res = None \<longrightarrow> dead s')"
proof -
  obtain e s1 w1 where 1: "segment_Close x s w = (e, s1, w1)" by (metis prod.exhaust)
  note C = segment_Close_retired [OF 1 h]
  show ?thesis
  proof (cases e)
    case None
    have p: "index_Name (sg_index s1) \<in> seg_paths dir (sg_baseOffset s)" "st_path (sg_store s1) \<in> seg_paths dir (sg_baseOffset s)"
      using C by (simp_all add: retired_def at_home_def seg_paths_def)
    obtain e2 w2 where 2: "os_Remove (index_Name (sg_index s1)) w1 = (e2, w2)" by fastforce
    obtain e3 w3 where 3: "os_Remove (st_path (sg_store s1)) w2 = (e3, w3)" by fastforce
    have "s' = s1" "w' = w2 \<or> w' = w3" using c 1 2 3 None by (auto simp: segment_Remove_def split: option.splits)
    moreover have "leaves (seg_paths dir (sg_baseOffset s)) w1 w2" "leaves (seg_paths dir (sg_baseOffset s)) w2 w3"
      using os_Remove_leaves [OF 2] os_Remove_leaves [OF 3] p by (auto elim!: leaves_mono)
    ultimately show ?thesis using C None by (auto simp: retired_def intro: leaves_trans)
  qed (use c 1 C in \<open>simp add: segment_Remove_def\<close>)
qed

text \<open>A dead segment refuses reads and appends.\<close>

lemma segment_Read_dead: "dead s \<Longrightarrow> \<exists>e. segment_Read x off s w = (Inl e, s, w)"
  by (auto simp: segment_Read_def index_Read_def mem_slice_def Let_def)

lemma index_Write_home: "index_Write off pos i = (e, i') \<Longrightarrow> ix_file i' = ix_file i \<and> ix_mapped i' = ix_mapped i \<and> (\<not> ix_mapped i \<longrightarrow> e \<noteq> None)"
  by (auto simp: index_Write_def mem_put_def split: if_splits)

lemma segment_Append_home:
  assumes a: "segment_Append x (Some r) s w = (res, s', w')" and h: "at_home dir s"
  shows "at_home dir s' \<and> sg_baseOffset s' = sg_baseOffset s \<and> leaves (seg_paths dir (sg_baseOffset s)) w w' \<and> (dead s' \<longleftrightarrow> dead s) \<and>
    (dead s \<longrightarrow> (\<exists>e. res = Inl e) \<and> sg_nextOffset s' = sg_nextOffset s)"
proof (cases "marshal x (r\<lparr>r_Offset := sg_nextOffset s\<rparr>)")
  case (Inr p)
  obtain res1 st w1 where st: "store_Append p (sg_store s) w = (res1, st, w1)" by (metis prod.exhaust)
  note S = store_Append_leaves [OF st]
  have "leaves (seg_paths dir (sg_baseOffset s)) w w1" using S h by (auto simp: at_home_def seg_paths_def elim: leaves_mono)
  then show ?thesis using a Inr st S h
    by (auto simp: segment_Append_def Let_def at_home_def index_Name_def dest!: index_Write_home split: sum.splits prod.splits option.splits)
qed (use a h in \<open>auto simp: segment_Append_def Let_def\<close>)

lemma segment_Read_home: "segment_Read x off s w = (res, s', w') \<Longrightarrow> at_home dir s \<Longrightarrow> sg_index s' = sg_index s \<and> at_home dir s'"
  by (auto simp: segment_Read_def store_Read_def at_home_def Let_def split: sum.splits prod.splits option.splits if_splits)

lemma newSegment_home: "newSegment x dir b c w = (Inr s, w') \<Longrightarrow> at_home dir s \<and> sg_baseOffset s = b \<and> \<not> dead s"
  by (auto simp: newSegment_def newStore_def newIndex_def at_home_def index_Name_def dest!: os_OpenFile_faulty(2)
      split: sum.splits prod.splits option.splits if_splits)


section \<open>The invariant\<close>

text \<open>
  A segment that is part of a log of the records \<open>rs\<close> from offset \<open>lo\<close> on: its offsets lie in their range, and unless
  it is dead it holds the records at these offsets.
\<close>

definition seg_part :: "ext \<Rightarrow> string \<Rightarrow> world \<Rightarrow> nat \<Rightarrow> api_Record list \<Rightarrow> segment \<Rightarrow> bool" where
  "seg_part x dir w lo rs s \<longleftrightarrow> lo \<le> unat (sg_baseOffset s) \<and> sg_baseOffset s \<le> sg_nextOffset s \<and>
     unat (sg_nextOffset s) \<le> lo + length rs \<and> at_home dir s \<and>
     (dead s \<or> seg_safe x dir s w (take (unat (sg_nextOffset s) - unat (sg_baseOffset s)) (drop (unat (sg_baseOffset s) - lo) rs)))"

definition reach :: "Log \<Rightarrow> nat set" where
  "reach l = set (lg_segments l) \<union> set_option (lg_active l)"

definition pool :: "ext \<Rightarrow> Log \<Rightarrow> world \<Rightarrow> nat \<Rightarrow> api_Record list \<Rightarrow> bool" where
  "pool x l w lo rs \<longleftrightarrow> (\<forall>a \<in> reach l. a < length (lg_heap l) \<and> seg_part x (lg_Dir l) w lo rs (seg_of l a)) \<and>
     inj_on (\<lambda>a. sg_baseOffset (seg_of l a)) (reach l)"

definition no_files_above :: "string \<Rightarrow> world \<Rightarrow> nat \<Rightarrow> bool" where
  "no_files_above dir w n \<longleftrightarrow> (\<forall>b p. n < unat b \<longrightarrow> p \<in> seg_paths dir b \<longrightarrow> fget w p = None)"

text \<open>
  \<open>hist_safe x k lw lo rs\<close>: whatever has failed before, the log answers for the records \<open>rs\<close> from offset \<open>lo\<close>
  on, and has room for \<open>k\<close> further appends: neither the offsets nor the size of the active store can
  overflow. No file of a segment above the next offset exists.
\<close>

definition active_ok :: "nat \<Rightarrow> nat \<Rightarrow> segment \<Rightarrow> bool" where
  "active_ok k n s \<longleftrightarrow> unat (sg_nextOffset s) = n \<and> (dead s \<or> unat (st_size (sg_store s)) + k * 2 ^ 32 < 2 ^ 63)"

definition hist_safe :: "ext \<Rightarrow> nat \<Rightarrow> Log \<times> world \<Rightarrow> nat \<Rightarrow> api_Record list \<Rightarrow> bool" where
  "hist_safe x k lw lo rs \<longleftrightarrow> codec_ok x \<and> mmap_ok x \<and> config_ok (lg_Config (fst lw)) \<and> pool x (fst lw) (snd lw) lo rs \<and>
     no_files_above (lg_Dir (fst lw)) (snd lw) (lo + length rs) \<and> lo + length rs + k < 2 ^ 64 \<and>
     (\<exists>a. lg_active (fst lw) = Some a \<and> active_ok k (lo + length rs) (seg_of (fst lw) a))"

lemma hist_safeE:
  assumes "hist_safe x k (l, w) lo rs"
  obtains a where "codec_ok x" "mmap_ok x" "config_ok (lg_Config l)" "pool x l w lo rs" "no_files_above (lg_Dir l) w (lo + length rs)"
    "lo + length rs + k < 2 ^ 64" "lg_active l = Some a" "a \<in> reach l" "active_ok k (lo + length rs) (seg_of l a)"
  using assms by (auto simp: hist_safe_def reach_def)

lemma poolD:
  assumes "pool x l w lo rs" "a \<in> reach l"
  shows "a < length (lg_heap l)" "seg_part x (lg_Dir l) w lo rs (seg_of l a)"
    "lo \<le> unat (sg_baseOffset (seg_of l a))" "unat (sg_baseOffset (seg_of l a)) \<le> lo + length rs"
    "at_home (lg_Dir l) (seg_of l a)"
  using assms by (auto simp: pool_def seg_part_def u64_le_iff)

lemma seg_part_other:
  assumes "seg_part x dir w lo rs s" "leaves (seg_paths dir b) w w'" "sg_baseOffset s \<noteq> b"
  shows "seg_part x dir w' lo (rs @ new) s"
proof -
  have "unat (sg_nextOffset s) - unat (sg_baseOffset s) \<le> length (drop (unat (sg_baseOffset s) - lo) rs)"
    using assms(1) by (auto simp: seg_part_def)
  then have "take (unat (sg_nextOffset s) - unat (sg_baseOffset s)) (drop (unat (sg_baseOffset s) - lo) (rs @ new)) =
      take (unat (sg_nextOffset s) - unat (sg_baseOffset s)) (drop (unat (sg_baseOffset s) - lo) rs)"
    by simp
  then show ?thesis using assms(1) seg_safe_leaves [OF _ assms(2,3)] by (auto simp: seg_part_def)
qed

lemma no_files_above_leaves:
  assumes "no_files_above dir w n" "leaves (seg_paths dir b) w w'" "unat b \<le> m" "n \<le> m"
  shows "no_files_above dir w' m"
  unfolding no_files_above_def
proof (intro allI impI)
  fix b' p assume b: "m < unat b'" and p: "p \<in> seg_paths dir b'"
  then have "b \<noteq> b'" using assms(3) by auto
  then have "p \<notin> seg_paths dir b" using seg_paths_disjoint p by blast
  moreover have "fget w p = None" using assms(1,4) b p unfolding no_files_above_def by (meson le_less_trans)
  ultimately show "fget w' p = None" using leaves_fget [OF assms(2)] by simp
qed

text \<open>One segment changes, and its files with it.\<close>

lemma reach_put_seg [simp]: "reach (put_seg a s l) = reach l"
  by (simp add: reach_def put_seg_def)

lemma pool_put:
  assumes pool: "pool x l w lo rs" and a: "a \<in> reach l"
    and s: "seg_part x (lg_Dir l) w' lo (rs @ new) s" "sg_baseOffset s = sg_baseOffset (seg_of l a)"
    and t: "leaves (seg_paths (lg_Dir l) (sg_baseOffset s)) w w'"
  shows "pool x (put_seg a s l) w' lo (rs @ new)"
proof -
  have of_put: "seg_of (put_seg a s l) c = (if c = a then s else seg_of l c)" for c
    using seg_of_put_seg poolD(1) [OF pool a] by simp
  have inj: "inj_on (\<lambda>a. sg_baseOffset (seg_of l a)) (reach l)" using pool unfolding pool_def by blast
  have "seg_part x (lg_Dir l) w' lo (rs @ new) (seg_of (put_seg a s l) c)" if c: "c \<in> reach l" for c
  proof (cases "c = a")
    case False
    then have "sg_baseOffset (seg_of l c) \<noteq> sg_baseOffset s" using inj a c s(2) by (auto dest: inj_onD)
    then show ?thesis using seg_part_other [OF poolD(2) [OF pool c] t] False by (simp add: of_put)
  qed (use s(1) in \<open>simp add: of_put\<close>)
  moreover have "sg_baseOffset (seg_of (put_seg a s l) c) = sg_baseOffset (seg_of l c)" for c using s(2) by (simp add: of_put)
  then have "inj_on (\<lambda>c. sg_baseOffset (seg_of (put_seg a s l) c)) (reach l)" using inj by presburger
  moreover have "c < length (lg_heap (put_seg a s l))" if "c \<in> reach l" for c using poolD(1) [OF pool that] by simp
  moreover have "lg_Dir (put_seg a s l) = lg_Dir l" by simp
  ultimately show ?thesis unfolding pool_def reach_put_seg by metis
qed

lemma hist_safe_put:
  assumes safe: "hist_safe x k (l, w) lo rs" and a: "a \<in> reach l"
    and s: "seg_part x (lg_Dir l) w' lo (rs @ new) s" "sg_baseOffset s = sg_baseOffset (seg_of l a)"
    and t: "leaves (seg_paths (lg_Dir l) (sg_baseOffset s)) w w'"
    and act: "\<And>c. lg_active l = Some c \<Longrightarrow> active_ok j (lo + length (rs @ new)) (if c = a then s else seg_of l c)"
    and room: "lo + length (rs @ new) + j < 2 ^ 64"
  shows "hist_safe x j (put_seg a s l, w') lo (rs @ new)"
proof -
  obtain c where S: "codec_ok x" "mmap_ok x" "config_ok (lg_Config l)" "pool x l w lo rs" "no_files_above (lg_Dir l) w (lo + length rs)"
    "lg_active l = Some c" using hist_safeE [OF safe] by metis
  have "no_files_above (lg_Dir l) w' (lo + length (rs @ new))"
    using poolD(4) [OF S(4) a] s(2) by (intro no_files_above_leaves [OF S(5) t]) simp_all
  moreover have "seg_of (put_seg a s l) c = (if c = a then s else seg_of l c)" using seg_of_put_seg poolD(1) [OF S(4) a] by simp
  ultimately show ?thesis using S(1-3,6) pool_put [OF S(4) a s t] room act [OF S(6)] by (auto simp: hist_safe_def)
qed


section \<open>Reading\<close>

lemma Log_find_sound:
  "Log_find l off as s = Some a \<Longrightarrow> s = Some a \<or> a \<in> set as \<and> sg_baseOffset (seg_of l a) \<le> off \<and> off < sg_nextOffset (seg_of l a)"
  by (induction as arbitrary: s) (fastforce split: if_splits)+

lemma Log_Read_hist:
  assumes r: "Log_Read x off l w = (res, l', w')" and safe: "hist_safe x k (l, w) lo rs"
  shows "hist_safe x k (l', w') lo rs \<and>
    (\<forall>r. res = Inr r \<longrightarrow> lo \<le> unat off \<and> unat off < lo + length rs \<and> r = rs ! (unat off - lo))"
proof (cases "Log_find l off (lg_segments l) None")
  case None
  then show ?thesis using r safe by (auto simp: Log_Read_def)
next
  case (Some a)
  let ?s = "seg_of l a"
  obtain c where S: "codec_ok x" "pool x l w lo rs" "lo + length rs + k < 2 ^ 64" "lg_active l = Some c"
    "active_ok k (lo + length rs) (seg_of l c)" using hist_safeE [OF safe] by metis
  have a: "a \<in> reach l" "sg_baseOffset ?s \<le> off" "off < sg_nextOffset ?s" using Log_find_sound [OF Some] by (auto simp: reach_def)
  note P = poolD [OF S(2) a(1)]
  obtain s' where s': "segment_Read x off ?s w = (res, s', w')" "l' = put_seg a s' l"
    using r Some leD [of "sg_nextOffset ?s" off] a(3) by (auto simp: Log_Read_def split: prod.splits if_splits)
  show ?thesis
  proof (cases "dead ?s")
    case True
    then have "s' = ?s" "w' = w" "\<exists>e. res = Inl e" using segment_Read_dead [of ?s x off w] s'(1) by auto
    then show ?thesis using safe s'(2) put_seg_same by auto
  next
    case False
    let ?i = "unat off - unat (sg_baseOffset ?s)" and ?rs = "take (unat (sg_nextOffset ?s) - unat (sg_baseOffset ?s)) (drop (unat (sg_baseOffset ?s) - lo) rs)"
    have o: "unat (sg_baseOffset ?s) \<le> unat off" "unat off < unat (sg_nextOffset ?s)" "unat (sg_nextOffset ?s) \<le> lo + length rs"
      using a(2,3) P(2) by (simp_all add: u64_le_iff u64_less_iff seg_part_def)
    have safe_s: "seg_safe x (lg_Dir l) ?s w ?rs" using P(2) False by (simp add: seg_part_def)
    have i: "?i < length ?rs" "unat off = unat (sg_baseOffset ?s) + ?i" using o P(3) by auto
    note R = segment_Read_safe [OF s'(1) safe_s S(1) i]
    have "seg_part x (lg_Dir l) w' lo (rs @ []) s'"
      using P(2,5) R segment_Read_home [OF s'(1)] by (simp add: seg_part_def)
    then have "hist_safe x k (put_seg a s' l, w') lo (rs @ [])"
      using R S(3-5) segment_Read_home [OF s'(1)] P(5) by (intro hist_safe_put [OF safe a(1)]) (auto simp: active_ok_def)
    moreover have "?rs ! ?i = rs ! (unat off - lo)" using i o P(3) by simp
    ultimately show ?thesis using R o P(3) s'(2) by auto
  qed
qed

section \<open>Truncating and closing\<close>

lemma hist_safe_retired:
  assumes safe: "hist_safe x k (l, w) lo rs" and a: "a \<in> reach l" and r: "retired (lg_Dir l) (seg_of l a) w s w'"
  shows "hist_safe x k (put_seg a s l, w') lo rs"
proof -
  obtain c where S: "pool x l w lo rs" "lo + length rs + k < 2 ^ 64" "lg_active l = Some c" "active_ok k (lo + length rs) (seg_of l c)"
    using hist_safeE [OF safe] by metis
  have R: "leaves (seg_paths (lg_Dir l) (sg_baseOffset s)) w w'" "at_home (lg_Dir l) s" "sg_baseOffset s = sg_baseOffset (seg_of l a)"
    "sg_nextOffset s = sg_nextOffset (seg_of l a)" "dead s \<or> s = seg_of l a \<and> fget w' (st_path (sg_store s)) = fget w (st_path (sg_store s))"
    using r by (auto simp: retired_def)
  have "seg_part x (lg_Dir l) w' lo (rs @ []) s"
    using R(5)
  proof
    assume s: "s = seg_of l a \<and> fget w' (st_path (sg_store s)) = fget w (st_path (sg_store s))"
    then have "fget w' (lg_Dir l, store_file (sg_baseOffset s)) = fget w (lg_Dir l, store_file (sg_baseOffset s))"
      using R(2) by (elim conjE) (simp add: at_home_def)
    then show ?thesis using poolD(2) [OF S(1) a] s by (auto simp: seg_part_def intro: seg_safe_cong)
  qed (use poolD(2) [OF S(1) a] R(2-4) in \<open>simp add: seg_part_def\<close>)
  moreover have "active_ok k (lo + length (rs @ [])) (if c' = a then s else seg_of l c')" if "lg_active l = Some c'" for c'
    using R(4,5) S(3,4) that by (cases "c' = a"; elim disjE) (simp_all add: active_ok_def)
  ultimately have "hist_safe x k (put_seg a s l, w') lo (rs @ [])"
    using S(2) by (intro hist_safe_put [OF safe a _ R(3,1)]) simp_all
  then show ?thesis by simp
qed

lemma hist_safe_home: "hist_safe x k (l, w) lo rs \<Longrightarrow> a \<in> reach l \<Longrightarrow> at_home (lg_Dir l) (seg_of l a)"
  by (metis hist_safeE poolD(5))

lemma truncate_loop_hist:
  assumes "truncate_loop x lowest as kept l w = (r, l', w')" "set as \<subseteq> reach l" "hist_safe x k (l, w) lo rs"
  shows "hist_safe x k (l', w') lo rs \<and> lg_segments l' = lg_segments l \<and> (\<forall>kept'. r = Inr kept' \<longrightarrow> set kept' \<subseteq> set kept \<union> set as)"
  using assms
proof (induction as arbitrary: kept l w)
  case (Cons a as)
  show ?case
  proof (cases "sg_nextOffset (seg_of l a) \<le> lowest + 1")
    case False
    then show ?thesis using Cons.IH [of "kept @ [a]" l w] Cons.prems by auto
  next
    case True
    obtain e s w1 where 1: "segment_Remove x (seg_of l a) w = (e, s, w1)" by (metis prod.exhaust)
    have a: "a \<in> reach l" using Cons.prems(2) by simp
    have R: "hist_safe x k (put_seg a s l, w1) lo rs"
      using hist_safe_retired [OF Cons.prems(3) a] segment_Remove_retired [OF 1 hist_safe_home [OF Cons.prems(3) a]] by blast
    show ?thesis
    proof (cases e)
      case None
      then have "truncate_loop x lowest as kept (put_seg a s l) w1 = (r, l', w')" using Cons.prems(1) True 1 by simp
      from Cons.IH [OF this _ R] Cons.prems(2) show ?thesis by auto
    next
      case (Some e')
      then show ?thesis using Cons.prems(1) True 1 R by auto
    qed
  qed
qed auto

lemma hist_safe_fewer:
  assumes "hist_safe x k (l, w) lo rs" "set as \<subseteq> set (lg_segments l)"
  shows "hist_safe x k (l\<lparr>lg_segments := as\<rparr>, w) lo rs"
proof -
  let ?l = "l\<lparr>lg_segments := as\<rparr>"
  have sub: "reach ?l \<subseteq> reach l" using assms(2) by (auto simp: reach_def)
  have of: "seg_of ?l = seg_of l" by (simp add: seg_of_def fun_eq_iff)
  have "pool x l w lo rs" using assms(1) by (simp add: hist_safe_def)
  then have "pool x ?l w lo rs" unfolding pool_def of using sub inj_on_subset by (simp add: subset_iff) blast
  then show ?thesis using assms(1) by (simp add: hist_safe_def of)
qed

lemma Log_Truncate_hist:
  assumes "Log_Truncate x lowest l w = (e, l', w')" "hist_safe x k (l, w) lo rs"
  shows "hist_safe x k (l', w') lo rs"
proof -
  obtain r l1 w1 where 1: "truncate_loop x lowest (lg_segments l) [] l w = (r, l1, w1)" by (metis prod.exhaust)
  then have T: "hist_safe x k (l1, w1) lo rs" "lg_segments l1 = lg_segments l" "\<And>kept. r = Inr kept \<Longrightarrow> set kept \<subseteq> set (lg_segments l)"
    using truncate_loop_hist [OF 1 _ assms(2)] by (auto simp: reach_def)
  show ?thesis
  proof (cases r)
    case (Inr kept)
    then show ?thesis using assms(1) 1 T hist_safe_fewer [OF T(1), of kept] by (simp add: Log_Truncate_def)
  qed (use assms(1) 1 T(1) in \<open>simp add: Log_Truncate_def\<close>)
qed

lemma close_segments_hist:
  assumes "close_segments x as l w = (e, l', w')" "set as \<subseteq> reach l" "hist_safe x k (l, w) lo rs"
  shows "hist_safe x k (l', w') lo rs"
  using assms
proof (induction as arbitrary: l w)
  case (Cons a as)
  obtain e' s w1 where 1: "segment_Close x (seg_of l a) w = (e', s, w1)" by (metis prod.exhaust)
  have a: "a \<in> reach l" using Cons.prems(2) by simp
  have R: "hist_safe x k (put_seg a s l, w1) lo rs"
    using hist_safe_retired [OF Cons.prems(3) a] segment_Close_retired [OF 1 hist_safe_home [OF Cons.prems(3) a]] by blast
  then show ?case using Cons.IH [OF _ _ R] Cons.prems(1,2) 1 by (cases e') auto
qed simp

lemma Log_Close_hist: "Log_Close x l w = (e, l', w') \<Longrightarrow> hist_safe x k (l, w) lo rs \<Longrightarrow> hist_safe x k (l', w') lo rs"
  unfolding Log_Close_def by (erule close_segments_hist) (auto simp: reach_def hist_safe_def)


section \<open>Appending\<close>

lemma hist_safe_leaves:
  assumes safe: "hist_safe x k (l, w) lo rs" and t: "leaves (seg_paths (lg_Dir l) b) w w'" and b: "unat b = lo + length rs"
    and below: "\<And>a. a \<in> reach l \<Longrightarrow> sg_baseOffset (seg_of l a) < b"
  shows "hist_safe x k (l, w') lo rs"
proof -
  obtain a where S: "pool x l w lo rs" "no_files_above (lg_Dir l) w (lo + length rs)" using hist_safeE [OF safe] by metis
  have "seg_part x (lg_Dir l) w' lo rs (seg_of l a)" if "a \<in> reach l" for a
    using seg_part_other [OF poolD(2) [OF S(1) that] t, of "[]"] below [OF that] by simp
  then have "pool x l w' lo rs" using S(1) unfolding pool_def by blast
  moreover have "no_files_above (lg_Dir l) w' (lo + length rs)" by (rule no_files_above_leaves [OF S(2) t]) (simp_all add: b)
  ultimately show ?thesis using safe by (simp add: hist_safe_def)
qed

lemma Log_newSegment_hist:
  assumes n: "Log_newSegment x b l w = (e, l', w')" and safe: "hist_safe x k (l, w) lo rs" and b: "unat b = lo + length rs"
    and below: "\<And>a. a \<in> reach l \<Longrightarrow> sg_baseOffset (seg_of l a) < b"
    and f: "\<And>p. p \<in> seg_paths (lg_Dir l) b \<Longrightarrow> fget w p = None" and k: "k * 2 ^ 32 < 2 ^ 63"
  shows "hist_safe x k (l', w') lo rs"
proof -
  obtain q w2 where q: "newSegment x (lg_Dir l) b (lg_Config l) w = (q, w2)" by fastforce
  have safe2: "hist_safe x k (l, w2) lo rs" by (rule hist_safe_leaves [OF safe newSegment_leaves [OF q] b below])
  show ?thesis
  proof (cases q)
    case (Inl e')
    then show ?thesis using n q safe2 by (simp add: Log_newSegment_def)
  next
    case (Inr s)
    obtain S: "codec_ok x" "mmap_ok x" "config_ok (lg_Config l)" "pool x l w2 lo rs" "no_files_above (lg_Dir l) w2 (lo + length rs)"
      "lo + length rs + k < 2 ^ 64" using hist_safeE [OF safe2] by metis
    let ?p = "length (lg_heap l)"
    define l2 where "l2 = l\<lparr>lg_heap := lg_heap l @ [s], lg_segments := lg_segments l @ [?p], lg_active := Some ?p\<rparr>"
    have run: "w' = w2" "l' = l2" using n q Inr by (simp_all add: Log_newSegment_def l2_def)
    have N: "seg_safe x (lg_Dir l) s w2 []" "sg_baseOffset s = b" "sg_nextOffset s = b" "st_size (sg_store s) = 0" "at_home (lg_Dir l) s"
      using newSegment_safe [OF q [unfolded Inr] S(3,2)] f newSegment_home [OF q [unfolded Inr]] by (simp_all add: seg_paths_def)
    have of_new: "seg_of l2 ?p = s" "\<And>a. a \<in> reach l \<Longrightarrow> seg_of l2 a = seg_of l a"
      using poolD(1) [OF S(4)] by (auto simp: seg_of_def l2_def nth_append)
    have sub: "reach l2 \<subseteq> insert ?p (reach l)" by (auto simp: reach_def l2_def)
    have "seg_part x (lg_Dir l) w2 lo rs s" using N b by (simp add: seg_part_def)
    then have parts: "a < Suc ?p \<and> seg_part x (lg_Dir l) w2 lo rs (seg_of l2 a)" if "a \<in> reach l2" for a
      using sub that of_new poolD(1,2) [OF S(4)] by (auto simp: less_Suc_eq)
    have "inj_on (\<lambda>a. sg_baseOffset (seg_of l2 a)) (insert ?p (reach l))"
    proof -
      have "inj_on (\<lambda>a. sg_baseOffset (seg_of l2 a)) (reach l)"
        using S(4) of_new(2) unfolding pool_def by (auto simp: inj_on_def)
      moreover have "sg_baseOffset (seg_of l2 a) \<noteq> b" if "a \<in> reach l" for a using below [OF that] of_new(2) [OF that] by simp
      ultimately show ?thesis using of_new(1) N(2) unfolding inj_on_insert by (metis (no_types, lifting) DiffD1 imageE)
    qed
    then have "inj_on (\<lambda>a. sg_baseOffset (seg_of l2 a)) (reach l2)" using sub by (rule inj_on_subset)
    with parts have "pool x l2 w2 lo rs" by (simp add: pool_def l2_def)
    moreover have "active_ok k (lo + length rs) (seg_of l2 ?p)" using N b k of_new(1) by (simp add: active_ok_def)
    ultimately show ?thesis using S(1-3,5,6) unfolding run by (simp add: hist_safe_def l2_def)
  qed
qed

text \<open>
  An append that is acknowledged has added its record at the next offset; one that fails has added it or
  nothing.
\<close>

lemma active_Append_hist:
  assumes a: "segment_Append x (Some r) (seg_of l a) w = (res, s, w1)" and act: "lg_active l = Some a"
    and safe: "hist_safe x (Suc k) (l, w) lo rs"
  defines "r' \<equiv> r\<lparr>r_Offset := of_nat (lo + length rs)\<rparr>"
  shows "case res of
      Inl e \<Rightarrow> hist_safe x k (put_seg a s l, w1) lo rs
    | Inr off \<Rightarrow> off = of_nat (lo + length rs) \<and> hist_safe x k (put_seg a s l, w1) lo (rs @ [r']) \<and>
        no_files_above (lg_Dir l) w1 (lo + length rs)"
proof -
  let ?s = "seg_of l a"
  obtain S: "codec_ok x" "pool x l w lo rs" "no_files_above (lg_Dir l) w (lo + length rs)" "lo + length rs + Suc k < 2 ^ 64"
    "a \<in> reach l" "active_ok (Suc k) (lo + length rs) ?s" using hist_safeE [OF safe] act by (metis option.inject)
  note P = poolD [OF S(2,5)]
  note H = segment_Append_home [OF a P(5)]
  have nx: "unat (sg_nextOffset ?s) = lo + length rs" using S(6) by (simp add: active_ok_def)
  then have nx': "sg_nextOffset ?s = of_nat (lo + length rs)" using S(4) by (intro u64_of_nat_eq) simp_all
  have put: "hist_safe x k (put_seg a s l, w1) lo (rs @ new)"
    if "length new \<le> 1" "seg_part x (lg_Dir l) w1 lo (rs @ new) s" "active_ok k (lo + length (rs @ new)) s" for new
    using that H S(4) act by (intro hist_safe_put [OF safe S(5)]) auto
  show ?thesis
  proof (cases "dead ?s")
    case True
    then obtain e where e: "res = Inl e" "sg_nextOffset s = sg_nextOffset ?s" "dead s" using H by auto
    have "seg_part x (lg_Dir l) w1 lo (rs @ []) s" using P(2) H e by (simp add: seg_part_def)
    moreover have "active_ok k (lo + length (rs @ [])) s" using e nx by (simp add: active_ok_def)
    ultimately show ?thesis using put [of "[]"] e(1) by simp
  next
    case False
    let ?rs = "drop (unat (sg_baseOffset ?s) - lo) rs"
    have len: "unat (sg_nextOffset ?s) - unat (sg_baseOffset ?s) = length ?rs" using nx P(3,4) by simp
    have safe_s: "seg_safe x (lg_Dir l) ?s w ?rs" using P(2) False len by (simp add: seg_part_def)
    have room: "unat (st_size (sg_store ?s)) + Suc k * 2 ^ 32 < 2 ^ 63" using S(6) False by (simp add: active_ok_def)
    have A: "unat (st_size (sg_store s)) \<le> unat (st_size (sg_store ?s)) + 2 ^ 32"
      "case res of Inr o' \<Rightarrow> o' = sg_nextOffset ?s \<and> seg_safe x (lg_Dir l) s w1 (?rs @ [r']) \<and> unat (sg_nextOffset s) = unat (sg_nextOffset ?s) + 1
       | Inl e \<Rightarrow> seg_safe x (lg_Dir l) s w1 ?rs \<and> sg_nextOffset s = sg_nextOffset ?s"
      using segment_Append_safe [OF a safe_s S(1)] room nx S(4) unfolding r'_def nx' [symmetric] by simp_all
    have fresh: "no_files_above (lg_Dir l) w1 (lo + length rs)"
      using H P(4) by (intro no_files_above_leaves [OF S(3)]) auto
    have size: "unat (st_size (sg_store s)) + k * 2 ^ 32 < 2 ^ 63" using A(1) room by simp
    show ?thesis
    proof (cases res)
      case (Inl e)
      have "seg_part x (lg_Dir l) w1 lo (rs @ []) s" using P(2) H A(2) Inl len by (simp add: seg_part_def)
      moreover have "active_ok k (lo + length (rs @ [])) s" using A(2) Inl nx size by (simp add: active_ok_def)
      ultimately show ?thesis using put [of "[]"] Inl by simp
    next
      case (Inr off)
      have nx2: "unat (sg_nextOffset s) = lo + length (rs @ [r'])" using A(2) Inr nx by simp
      have base: "sg_baseOffset s = sg_baseOffset ?s" using H by simp
      have part: "take (unat (sg_nextOffset s) - unat (sg_baseOffset s)) (drop (unat (sg_baseOffset s) - lo) (rs @ [r'])) = ?rs @ [r']"
        using P(3,4) nx2 by (intro take_all [THEN trans]) (simp_all add: base)
      have "seg_part x (lg_Dir l) w1 lo (rs @ [r']) s"
        unfolding seg_part_def part using P(2,3,4) H A(2) Inr nx2 by (simp add: seg_part_def u64_le_iff)
      moreover have "active_ok k (lo + length (rs @ [r'])) s" using nx2 size by (simp add: active_ok_def)
      ultimately show ?thesis using put [of "[r']"] Inr A(2) nx' fresh by simp
    qed
  qed
qed


lemma Log_Append_hist:
  assumes ap: "Log_Append x (Some r) l w = (res, l', w')" and safe: "hist_safe x (Suc k) (l, w) lo rs"
  defines "r' \<equiv> r\<lparr>r_Offset := of_nat (lo + length rs)\<rparr>"
  shows "\<exists>new. (new = [] \<or> new = [r']) \<and> hist_safe x k (l', w') lo (rs @ new) \<and>
    (\<forall>off. res = Inr off \<longrightarrow> off = of_nat (lo + length rs) \<and> new = [r'])"
proof -
  obtain a where S: "pool x l w lo rs" "lo + length rs + Suc k < 2 ^ 64" "lg_active l = Some a" "a \<in> reach l"
    "active_ok (Suc k) (lo + length rs) (seg_of l a)" using hist_safeE [OF safe] by metis
  obtain res1 s w1 where 1: "segment_Append x (Some r) (seg_of l a) w = (res1, s, w1)" by (metis prod.exhaust)
  note A = active_Append_hist [OF 1 S(3) safe, folded r'_def]
  show ?thesis
  proof (cases res1)
    case (Inl e)
    then have "res = Inl e" "l' = put_seg a s l" "w' = w1" using ap 1 S(3) by (simp_all add: Log_Append_def)
    then show ?thesis using A Inl by (intro exI [of _ "[]"]) simp
  next
    case (Inr off)
    have A: "off = of_nat (lo + length rs)" "hist_safe x k (put_seg a s l, w1) lo (rs @ [r'])" "no_files_above (lg_Dir l) w1 (lo + length rs)"
      using A Inr by simp_all
    show ?thesis
    proof (cases "segment_IsMaxed s")
      case False
      then have "res = Inr off" "l' = put_seg a s l" "w' = w1" using ap 1 S(3) Inr by (simp_all add: Log_Append_def)
      then show ?thesis using A by (intro exI [of _ "[r']"]) simp
    next
      case True
      obtain e l2 w2 where n: "Log_newSegment x (off + 1) (put_seg a s l) w1 = (e, l2, w2)" by (metis prod.exhaust)
      have off: "unat off = lo + length rs" "unat (off + 1) = lo + length rs + 1"
        using A(1) S(2) u64_of_nat [of "lo + length rs"] by (simp_all add: unat_u64_Suc)
      have base: "sg_baseOffset s = sg_baseOffset (seg_of l a)" "dead s \<longleftrightarrow> dead (seg_of l a)" "dead s \<Longrightarrow> \<exists>e. res1 = Inl e"
        using segment_Append_home [OF 1 poolD(5) [OF S(1,4)]] by auto
      have "sg_baseOffset (seg_of (put_seg a s l) c) < off + 1" if "c \<in> reach (put_seg a s l)" for c
        using poolD(4) [OF S(1), of c] that off(2) base(1) poolD(1) [OF S(1,4)]
        by (cases "c = a") (simp_all add: seg_of_put_seg u64_less_iff)
      moreover have "fget w1 p = None" if "p \<in> seg_paths (lg_Dir (put_seg a s l)) (off + 1)" for p
        using A(3) that less_add_one [of "lo + length rs"] unfolding no_files_above_def off(2) [symmetric] put_seg_simps(1) by blast
      moreover have "k * 2 ^ 32 < 2 ^ 63" using S(5) base(2,3) Inr by (auto simp: active_ok_def)
      ultimately have "hist_safe x k (l2, w2) lo (rs @ [r'])" using off(2) by (intro Log_newSegment_hist [OF n A(2)]) simp_all
      moreover have "l' = l2" "w' = w2" "\<forall>o'. res = Inr o' \<longrightarrow> o' = off"
        using ap 1 S(3) Inr True n by (auto simp: Log_Append_def split: option.splits)
      ultimately show ?thesis using A(1) by (intro exI [of _ "[r']"]) simp
    qed
  qed
qed

section \<open>A log that nothing has happened to yet\<close>

lemma take_drop_concat:
  assumes "i < length rss"
  shows "take (length (rss ! i)) (drop (length (concat (take i rss))) (concat rss)) = rss ! i"
proof -
  have "concat rss = concat (take i rss) @ rss ! i @ concat (drop (Suc i) rss)"
    using assms by (metis concat.simps(2) concat_append id_take_nth_drop)
  then show ?thesis by simp
qed

text \<open>The parts of the invariant hold for a log without faults, whatever faults are pending.\<close>

lemma log_seg_part:
  assumes rep: "log_rep x l w rss" and i: "i < length (segs l)" and w': "fget w' = fget w"
  shows "seg_part x (lg_Dir l) w' (log_low l) (concat rss) (segs l ! i)"
proof -
  note inv = log_repD(1) [OF rep]
  note D = log_invD [OF inv]
  note b = chain_base [OF inv i] and n = chain_next [OF inv i]
  have "length (concat (take (Suc i) rss)) \<le> length (concat rss)" by (metis append_take_drop_id concat_append le_add1 length_append)
  moreover have "length (concat (take (Suc i) rss)) = length (concat (take i rss)) + length (rss ! i)"
    using i D(6) by (simp add: concat_take_Suc)
  moreover have "seg_safe x (lg_Dir l) (segs l ! i) w' (rss ! i)"
    using seg_safe_cong [OF seg_rep_safe [OF D(10) [OF i]]] w' by simp
  moreover have "at_home (lg_Dir l) (segs l ! i)" using D(10) [OF i] by (simp add: seg_rep_def at_home_def)
  ultimately show ?thesis using b n take_drop_concat [of i rss] i D(6) by (simp add: seg_part_def u64_le_iff)
qed

lemma log_no_files_above:
  assumes rep: "log_rep x l w rss" and w': "fget w' = fget w"
  shows "no_files_above (lg_Dir l) w' (log_low l + length (concat rss))"
  unfolding no_files_above_def
proof (intro allI impI)
  fix b p assume b: "log_low l + length (concat rss) < unat b" and p: "p \<in> seg_paths (lg_Dir l) b"
  obtain ns where ns: "names w (lg_Dir l) = Some ns" "set ns = seg_files (bases l)"
    using log_invD(4) [OF log_repD(1) [OF rep]] by (auto simp: dir_ok_def)
  have "unat b' \<le> log_low l + length (concat rss)" if b': "b' \<in> set (bases l)" for b'
  proof -
    obtain i where i: "i < length (segs l)" "b' = sg_baseOffset (segs l ! i)" using b' by (auto simp: bases_def in_set_conv_nth)
    from log_seg_part [OF rep i(1) refl] show ?thesis unfolding seg_part_def u64_le_iff i(2) by linarith
  qed
  then have "b \<notin> set (bases l)" using b by (auto dest: leD)
  then have "snd p \<notin> set ns" "fst p = lg_Dir l" using p ns(2) by (auto simp: seg_paths_def)
  then show "fget w' p = None" using fget_names [of w "fst p" "snd p"] ns(1) w' by (metis option.inject prod.collapse)
qed

lemma log_active_ok:
  assumes rep: "log_rep x l w rss" and k: "k \<le> 2 ^ 29"
  shows "active_ok k (log_low l + length (concat rss)) (last (segs l))"
proof -
  note inv = log_repD(1) [OF rep]
  note D = log_invD [OF inv]
  have "sg_config (last (segs l)) = lg_Config l" using D(7,11) by (simp add: last_conv_nth)
  then have "st_size (sg_store (last (segs l))) < MaxStoreBytes (lg_Config l)"
    using log_repD(2) [OF rep] by (simp add: segment_IsMaxed_def u64_le_iff u64_less_iff)
  moreover have "unat (MaxStoreBytes (lg_Config l)) < 2 ^ 62" using D(2) by (simp add: config_ok_def)
  ultimately have "unat (st_size (sg_store (last (segs l)))) + k * 2 ^ 32 < 2 ^ 63" using k by (simp add: u64_less_iff)
  then show ?thesis using chain_last_next [OF inv] by (simp add: active_ok_def)
qed

lemma log_contract_hist:
  assumes c: "log_contract x (l, w) lo rs" and k: "lo + length rs + k < 2 ^ 64" "k \<le> 2 ^ 29"
    and w': "fget w' = fget w"
  shows "hist_safe x k (l, w') lo rs"
proof -
  obtain rss where rep: "log_rep x l w rss" and lo: "lo = log_low l" "rs = concat rss" and x: "codec_ok x" "mmap_ok x"
    by (rule log_contractE [OF c])
  note inv = log_repD(1) [OF rep]
  note D = log_invD [OF inv]
  let ?a = "lg_segments l ! (length (segs l) - 1)"
  have last: "last (segs l) = segs l ! (length (segs l) - 1)" "length (segs l) - 1 < length (segs l)" using D(7) by (simp_all add: last_conv_nth)
  have act: "lg_active l = Some ?a" using D(3,9) by (auto simp: ptrs_ok_def last_conv_nth)
  have reach: "reach l = set (lg_segments l)" using act last(2) D(9) by (auto simp: reach_def)
  have "pool x l w' lo rs" unfolding pool_def reach
  proof (intro conjI ballI)
    fix a assume "a \<in> set (lg_segments l)"
    then obtain i where "i < length (segs l)" "a = lg_segments l ! i" using D(9) by (auto simp: in_set_conv_nth)
    then show "a < length (lg_heap l)" "seg_part x (lg_Dir l) w' lo rs (seg_of l a)"
      using D(3) log_seg_part [OF rep _ w', of i] D(9) lo by (auto simp: ptrs_ok_def segs_def)
  next
    have "distinct (map (\<lambda>a. sg_baseOffset (seg_of l a)) (lg_segments l))"
      using bases_distinct [OF inv] by (simp add: bases_def segs_def comp_def)
    then show "inj_on (\<lambda>a. sg_baseOffset (seg_of l a)) (set (lg_segments l))" by (simp add: distinct_map)
  qed
  moreover have "seg_of l ?a = last (segs l)" using last D(9) by (simp add: segs_def)
  ultimately show ?thesis using x D(2) k(1) act log_no_files_above [OF rep w'] log_active_ok [OF rep k(2)] lo
    by (simp add: hist_safe_def)
qed

section \<open>Histories with faults\<close>

datatype log_op = DoAppend api_Record | DoRead u64 | DoTruncate u64 | DoClose
datatype answer = Appended_as "goerr + u64" | Read_as "goerr + api_Record" | Done_as "goerr option"

fun run_op :: "ext \<Rightarrow> log_op \<Rightarrow> Log \<Rightarrow> world \<Rightarrow> answer \<times> Log \<times> world" where
  "run_op x (DoAppend r) l w = (case Log_Append x (Some r) l w of (res, l', w') \<Rightarrow> (Appended_as res, l', w'))"
| "run_op x (DoRead off) l w = (case Log_Read x off l w of (res, l', w') \<Rightarrow> (Read_as res, l', w'))"
| "run_op x (DoTruncate lowest) l w = (case Log_Truncate x lowest l w of (res, l', w') \<Rightarrow> (Done_as res, l', w'))"
| "run_op x DoClose l w = (case Log_Close x l w of (res, l', w') \<Rightarrow> (Done_as res, l', w'))"

text \<open>
  An operation that would touch the mapping of a segment that was unmapped before: an append to such a
  segment, a read from it, closing or removing it again. What follows such an access is not defined
  (\<open>mem_slice\<close>), so a history ends before it.
\<close>

fun undefined_access :: "log_op \<Rightarrow> Log \<Rightarrow> bool" where
  "undefined_access (DoAppend r) l \<longleftrightarrow> (case lg_active l of None \<Rightarrow> False | Some a \<Rightarrow> dead (seg_of l a))"
| "undefined_access (DoRead off) l \<longleftrightarrow>
     (case Log_find l off (lg_segments l) None of None \<Rightarrow> False | Some a \<Rightarrow> dead (seg_of l a))"
| "undefined_access (DoTruncate lowest) l \<longleftrightarrow>
     list_ex (\<lambda>a. sg_nextOffset (seg_of l a) \<le> lowest + 1 \<and> dead (seg_of l a)) (lg_segments l)"
| "undefined_access DoClose l \<longleftrightarrow> list_ex (\<lambda>a. dead (seg_of l a)) (lg_segments l)"

fun run_ops :: "ext \<Rightarrow> log_op list \<Rightarrow> Log \<Rightarrow> world \<Rightarrow> answer list \<times> Log \<times> world" where
  "run_ops x [] l w = ([], l, w)"
| "run_ops x (op # ops) l w =
     (if undefined_access op l then ([], l, w)
      else case run_op x op l w of (a, l1, w1) \<Rightarrow>
        (case run_ops x ops l1 w1 of (as, l2, w2) \<Rightarrow> (a # as, l2, w2)))"

text \<open>
  An answer agrees with the records \<open>rs\<close> from offset \<open>lo\<close> on: an acknowledged record is there with its
  offset, a record that was read is the one there, and a failure says nothing.
\<close>

fun agrees :: "nat \<Rightarrow> api_Record list \<Rightarrow> log_op \<Rightarrow> answer \<Rightarrow> bool" where
  "agrees lo rs (DoAppend r) (Appended_as res) \<longleftrightarrow> (case res of Inl e \<Rightarrow> True
     | Inr off \<Rightarrow> lo \<le> unat off \<and> unat off < lo + length rs \<and> rs ! (unat off - lo) = r\<lparr>r_Offset := off\<rparr>)"
| "agrees lo rs (DoRead off) (Read_as res) \<longleftrightarrow> (case res of Inl e \<Rightarrow> True
     | Inr r \<Rightarrow> lo \<le> unat off \<and> unat off < lo + length rs \<and> rs ! (unat off - lo) = r)"
| "agrees lo rs (DoTruncate lowest) (Done_as e) \<longleftrightarrow> True"
| "agrees lo rs DoClose (Done_as e) \<longleftrightarrow> True"
| "agrees lo rs _ _ \<longleftrightarrow> False"

fun acked :: "answer list \<Rightarrow> u64 list" where
  "acked (Appended_as (Inr off) # as) = off # acked as"
| "acked (_ # as) = acked as"
| "acked [] = []"

lemma agrees_append: "agrees lo rs op a \<Longrightarrow> agrees lo (rs @ rs2) op a"
  by (induction lo rs op a rule: agrees.induct) (auto simp: nth_append split: sum.splits)

text \<open>The records that the operations added, stamped with their offsets.\<close>

definition added :: "log_op list \<Rightarrow> api_Record list \<Rightarrow> bool" where
  "added ops new \<longleftrightarrow> (\<forall>q \<in> set new. \<exists>r off. DoAppend r \<in> set ops \<and> q = r\<lparr>r_Offset := off\<rparr>)"

lemma added_Cons: "added [op] as \<Longrightarrow> added ops bs \<Longrightarrow> added (op # ops) (as @ bs)"
  unfolding added_def by fastforce

lemma added_simps [simp]: "added ops []" "added [DoAppend r] [r\<lparr>r_Offset := off\<rparr>]"
  unfolding added_def by auto

lemma run_op_hist:
  assumes run: "run_op x op l w = (a, l', w')" and safe: "hist_safe x (Suc k) (l, w) lo rs"
  shows "\<exists>new. hist_safe x k (l', w') lo (rs @ new) \<and> agrees lo (rs @ new) op a \<and> added [op] new \<and>
    (\<forall>off \<in> set (acked [a]). unat off = lo + length rs \<and> new \<noteq> [])"
proof -
  have less: "hist_safe x k (l1, w1) lo rs" if "hist_safe x (Suc k) (l1, w1) lo rs" for l1 w1
    using that by (auto simp: hist_safe_def active_ok_def)
  show ?thesis
  proof (cases op)
    case (DoAppend r)
    let ?r = "r\<lparr>r_Offset := of_nat (lo + length rs)\<rparr>"
    obtain res where res: "Log_Append x (Some r) l w = (res, l', w')" "a = Appended_as res" using run DoAppend by (auto split: prod.splits)
    obtain new where new: "new = [] \<or> new = [?r]" "hist_safe x k (l', w') lo (rs @ new)"
      "\<And>off. res = Inr off \<Longrightarrow> off = of_nat (lo + length rs) \<and> new = [?r]" using Log_Append_hist [OF res(1) safe] by blast
    have "lo + length rs < 2 ^ 64" using safe by (simp add: hist_safe_def)
    then have u: "unat (of_nat (lo + length rs) :: u64) = lo + length rs" by (rule u64_of_nat)
    have "agrees lo (rs @ new) op a" using new(3) u by (cases res) (simp_all add: res(2) DoAppend del: of_nat_add)
    moreover have "\<forall>off \<in> set (acked [a]). unat off = lo + length rs \<and> new \<noteq> []"
      using new(3) u by (cases res) (simp_all add: res(2) del: of_nat_add)
    moreover have "added [op] new" using new(1) DoAppend by auto
    ultimately show ?thesis using new(2) by blast
  next
    case (DoRead off)
    obtain res where res: "Log_Read x off l w = (res, l', w')" "a = Read_as res" using run DoRead by (auto split: prod.splits)
    with Log_Read_hist [OF res(1) safe] show ?thesis using DoRead less by (intro exI [of _ "[]"]) (auto split: sum.splits)
  next
    case (DoTruncate lowest)
    obtain res where res: "Log_Truncate x lowest l w = (res, l', w')" "a = Done_as res" using run DoTruncate by (auto split: prod.splits)
    with Log_Truncate_hist [OF res(1) safe] show ?thesis using DoTruncate less by (intro exI [of _ "[]"]) simp
  next
    case DoClose
    obtain res where res: "Log_Close x l w = (res, l', w')" "a = Done_as res" using run DoClose by (auto split: prod.splits)
    with Log_Close_hist [OF res(1) safe] show ?thesis using DoClose less by (intro exI [of _ "[]"]) simp
  qed
qed

lemma run_ops_hist:
  assumes "hist_safe x k (l, w) lo rs" "length ops \<le> k" "run_ops x ops l w = (as, l', w')"
  shows "\<exists>new. list_all2 (agrees lo (rs @ new)) (take (length as) ops) as \<and> sorted_wrt (<) (acked as) \<and>
    (\<forall>off \<in> set (acked as). lo + length rs \<le> unat off) \<and> added ops new \<and>
    (length as < length ops \<longrightarrow> undefined_access (ops ! length as) l')"
  using assms
proof (induction ops arbitrary: k l w rs as)
  case (Cons op ops)
  show ?case
  proof (cases "undefined_access op l")
    case True
    then show ?thesis using Cons.prems(3) by (intro exI [of _ "[]"]) auto
  next
    case False
    obtain j where k: "k = Suc j" "length ops \<le> j" using Cons.prems(2) by (cases k) auto
    obtain a l1 w1 where 1: "run_op x op l w = (a, l1, w1)" by (metis prod.exhaust)
    obtain as1 where 2: "run_ops x ops l1 w1 = (as1, l', w')" "as = a # as1" using Cons.prems(3) 1 False by (auto split: prod.splits)
    obtain n1 where A: "hist_safe x j (l1, w1) lo (rs @ n1)" "agrees lo (rs @ n1) op a" "added [op] n1"
      "\<forall>off \<in> set (acked [a]). unat off = lo + length rs \<and> n1 \<noteq> []"
      using run_op_hist [OF 1 Cons.prems(1) [unfolded k(1)]] by blast
    obtain new where new: "list_all2 (agrees lo ((rs @ n1) @ new)) (take (length as1) ops) as1" "sorted_wrt (<) (acked as1)"
      "\<forall>off \<in> set (acked as1). lo + length (rs @ n1) \<le> unat off" "added ops new"
      "length as1 < length ops \<longrightarrow> undefined_access (ops ! length as1) l'" using Cons.IH [OF A(1) k(2) 2(1)] by blast
    have "acked as = acked [a] @ acked as1" by (cases a; cases "case a of Appended_as r \<Rightarrow> r | _ \<Rightarrow> Inl EOF") (auto simp: 2(2))
    moreover have "off < off'" if "off \<in> set (acked [a])" "off' \<in> set (acked as1)" for off off'
    proof -
      have "unat off = lo + length rs" "n1 \<noteq> []" using A(4) that(1) by auto
      moreover have "lo + length (rs @ n1) \<le> unat off'" using new(3) that(2) by blast
      ultimately show ?thesis by (cases n1) (simp_all add: u64_less_iff)
    qed
    moreover have "sorted_wrt (<) (acked [a])" by (cases a; cases "case a of Appended_as r \<Rightarrow> r | _ \<Rightarrow> Inl EOF") auto
    moreover have "\<forall>off \<in> set (acked [a]) \<union> set (acked as1). lo + length rs \<le> unat off" using A(4) new(3) by fastforce
    ultimately have "sorted_wrt (<) (acked as) \<and> (\<forall>off \<in> set (acked as). lo + length rs \<le> unat off)"
      using new(2) by (simp add: sorted_wrt_append)
    then show ?thesis using new(1,5) agrees_append [OF A(2), of new] added_Cons [OF A(3) new(4)] 2(2)
      by (intro exI [of _ "n1 @ new"]) simp
  qed
qed (auto intro!: exI [of _ "[]"])

section \<open>Histories without truncations\<close>

text \<open>Appends and reads unmap nothing, whatever fails, so none of them ends a history.\<close>

definition alive :: "Log \<Rightarrow> bool" where
  "alive l \<longleftrightarrow> (\<forall>a \<in> reach l. a < length (lg_heap l) \<and> \<not> dead (seg_of l a))"

fun unmaps :: "log_op \<Rightarrow> bool" where
  "unmaps (DoTruncate lowest) = True" | "unmaps DoClose = True" | "unmaps _ = False"

lemma alive_put: "alive l \<Longrightarrow> \<not> dead s \<Longrightarrow> alive (put_seg a s l)"
  unfolding alive_def reach_put_seg
  by (cases "a < length (lg_heap l)") (auto simp: seg_of_put_seg, simp_all add: put_seg_def list_update_beyond)

lemma alive_newSegment:
  assumes n: "Log_newSegment x b l w = (e, l', w')" and l: "alive l"
  shows "alive l'"
proof (cases "newSegment x (lg_Dir l) b (lg_Config l) w")
  case (Pair r w1)
  then show ?thesis using n l newSegment_home [of x "lg_Dir l" b "lg_Config l" w]
    by (cases r) (auto simp: Log_newSegment_def alive_def reach_def seg_of_def nth_append less_Suc_eq)
qed

lemma alive_run_op:
  assumes run: "run_op x op l w = (a, l', w')" and op: "\<not> unmaps op" and l: "alive l" and safe: "hist_safe x k (l, w) lo rs"
  shows "\<not> undefined_access op l \<and> alive l'"
proof -
  obtain b where b: "pool x l w lo rs" "lg_active l = Some b" "b \<in> reach l" using hist_safeE [OF safe] by metis
  show ?thesis
  proof (cases op)
    case (DoAppend r)
    obtain res s w1 where 1: "segment_Append x (Some r) (seg_of l b) w = (res, s, w1)" by (metis prod.exhaust)
    have "\<not> dead s" using segment_Append_home [OF 1 poolD(5) [OF b(1,3)]] l b(3) by (auto simp: alive_def)
    then have p: "alive (put_seg b s l)" using l by (rule alive_put [rotated])
    have "alive l'" using run DoAppend 1 b(2) p
      by (auto simp: Log_Append_def split: sum.splits prod.splits if_splits option.splits dest: alive_newSegment)
    then show ?thesis using DoAppend b l by (simp add: alive_def)
  next
    case (DoRead off)
    show ?thesis
    proof (cases "Log_find l off (lg_segments l) None")
      case None
      then show ?thesis using run DoRead l by (auto simp: Log_Read_def)
    next
      case (Some c)
      have c: "c \<in> reach l" using Log_find_sound [OF Some] by (auto simp: reach_def)
      obtain res s w1 where 1: "segment_Read x off (seg_of l c) w = (res, s, w1)" by (metis prod.exhaust)
      have "\<not> dead (seg_of l c)" using l c by (simp add: alive_def)
      moreover from this have "\<not> dead s" using segment_Read_home [OF 1 poolD(5) [OF b(1) c]] by simp
      ultimately show ?thesis using run DoRead Some 1 alive_put [OF l] l by (auto simp: Log_Read_def split: if_splits prod.splits)
    qed
  qed (use op in simp_all)
qed

lemma run_ops_complete:
  assumes "hist_safe x k (l, w) lo rs" "length ops \<le> k" "run_ops x ops l w = (as, l', w')" "alive l" "\<forall>op \<in> set ops. \<not> unmaps op"
  shows "length as = length ops"
  using assms
proof (induction ops arbitrary: k l w rs as)
  case (Cons op ops)
  obtain j where k: "k = Suc j" "length ops \<le> j" using Cons.prems(2) by (cases k) auto
  obtain a l1 w1 where 1: "run_op x op l w = (a, l1, w1)" by (metis prod.exhaust)
  have al: "\<not> undefined_access op l" "alive l1" using alive_run_op [OF 1 _ Cons.prems(4,1)] Cons.prems(5) by auto
  obtain as1 where 2: "run_ops x ops l1 w1 = (as1, l', w')" "as = a # as1" using Cons.prems(3) 1 al(1) by (auto split: prod.splits)
  obtain n1 where "hist_safe x j (l1, w1) lo (rs @ n1)" using run_op_hist [OF 1 Cons.prems(1) [unfolded k(1)]] by blast
  from Cons.IH [OF this k(2) 2(1) al(2)] Cons.prems(5) 2(2) show ?case by simp
qed simp

lemma log_contract_alive: "log_contract x (l, w) lo rs \<Longrightarrow> alive l"
proof -
  assume "log_contract x (l, w) lo rs"
  then obtain rss where rep: "log_rep x l w rss" by (rule log_contractE)
  note D = log_invD [OF log_repD(1) [OF rep]]
  have mapped: "\<not> dead (segs l ! i)" if "i < length (segs l)" for i
    using seg_repE [OF D(10) [OF that]] by (metis index_rep_def)
  have "reach l = set (lg_segments l)" using D(3,7) by (auto simp: reach_def ptrs_ok_def segs_def)
  then show "alive l" using D(3) mapped by (auto simp: alive_def ptrs_ok_def segs_def in_set_conv_nth)
qed

end
