(* ===== verification/Lost_Writes.thy ===== *)
theory Lost_Writes
  imports CommitLog Recovery
begin

text \<open>
  Closing a log when the last write of a store fails (src/internal/log/segment.go: \<^verbatim>\<open>segment.Close\<close>,
  \<^verbatim>\<open>newSegment\<close>). The index is closed first and keeps its entries; what the store had in its
  write buffer is gone. When the log is opened again the next offset comes from the index alone, so
  new records are written where the entries of the lost ones point. The lemmas follow one segment
  through this.
\<close>

section \<open>A record that stays in the buffer\<close>

lemma bufio_Write_buffered:
  assumes "bw_err b = None" "length (bw_buf b) + length p \<le> bufio_size"
  shows "bufio_Write f p b w = ((length p, None), b\<lparr>bw_buf := bw_buf b @ p\<rparr>, w)"
proof -
  have "\<not> bufio_size - length (bw_buf b) < length p" using assms(2) by linarith
  then show ?thesis using assms(1) by (simp add: bufio_Write_def bufio_Write_loop.simps [of f p 0 b w])
qed

lemma store_Append_buffered:
  assumes "store_rep s w []" "length (frame p) \<le> bufio_size"
  shows "\<exists>s'. store_Append p s w = (Inr (of_nat (length (frame p)), 0), s', w) \<and> st_File s' = st_File s \<and>
    bw_buf (st_buf s') = frame p \<and> bw_err (st_buf s') = None \<and> unat (st_size s') = length (frame p)"
proof -
  have s: "bw_err (st_buf s) = None" "bw_buf (st_buf s) = []" "st_size s = 0"
    using assms(1) by (auto simp: store_rep_def unat_eq_0)
  have "length p + 8 < 2 ^ 64" using assms(2) by (simp add: bufio_size_def)
  then have u: "unat (of_nat (length p + 8) :: u64) = length p + 8" by (rule u64_of_nat)
  let ?b = "(st_buf s)\<lparr>bw_buf := PutUint64 (of_nat (length p))\<rparr>"
  have 1: "bufio_Write (st_File s) (PutUint64 (of_nat (length p))) (st_buf s) w = ((8, None), ?b, w)"
    using bufio_Write_buffered [of "st_buf s" "PutUint64 (of_nat (length p))"] s by (simp add: bufio_size_def)
  have 2: "bufio_Write (st_File s) p ?b w = ((length p, None), ?b\<lparr>bw_buf := frame p\<rparr>, w)"
    using bufio_Write_buffered [of ?b p] s assms(2) by (simp add: frame_def)
  show ?thesis using 1 2 s u by (simp add: store_Append_def Let_def recordLenBytes_def del: of_nat_add)
qed

section \<open>Closing\<close>

text \<open>
  The five system calls that close the index are granted (msync, munmap, fsync, ftruncate, close), then
  the write of the store fails.
\<close>

definition flush_fault :: "goerr \<Rightarrow> fault list" where
  "flush_fault e = [None, None, None, None, None, Some (e, 0)]"

lemma faults_update_frame [simp]:
  "fget (faults_update g w) = fget w" "fs (faults_update g w) = fs w" "names (faults_update g w) = names w"
  by (simp_all add: fget_def names_def fun_eq_iff)

lemma index_Close_flush_fault:
  assumes rep: "index_rep c i w es" and x: "mmap_ok x"
  shows "\<exists>i' w'. index_Close x i (w\<lparr>faults := flush_fault e\<rparr>) = (None, i', w') \<and> faults w' = [Some (e, 0)] \<and>
    index_disk (index_Name i) w' es \<and> (\<forall>p. p \<noteq> index_Name i \<longrightarrow> fget w' p = fget w p) \<and> names w' = names w"
proof -
  let ?p = "index_Name i" and ?m = "ix_mmap i"
  obtain bs where r: "\<not> fclosed (ix_file i)" "ix_mapped i" "fget w ?p = Some bs" "length bs = length ?m"
    "unat (ix_size i) = 12 * length es" "length ?m < 2 ^ 32" "12 * length es \<le> length ?m" "take (12 * length es) ?m = concat (map ent es)"
    using rep by (auto simp: index_rep_def config_ok_def index_Name_def)
  have d: "fs w (fst ?p) \<noteq> None" using r(3) by (rule fget_dir)
  have x': "mm_Sync x ?m bs = Inr ?m" "mm_UnsafeUnmap x ?m = None" using x r(4) by (simp_all add: mmap_ok_def)
  define w1 where "w1 = fput ?p ?m (w\<lparr>faults := drop 1 (flush_fault e)\<rparr>)"
  define w2 where "w2 = fput ?p (concat (map ent es)) (w1\<lparr>faults := drop 4 (flush_fault e)\<rparr>)"
  have w1: "fget w1 ?p = Some ?m" "\<And>p. p \<noteq> ?p \<Longrightarrow> fget w1 p = fget w p" "names w1 = names w" "faults w1 = drop 1 (flush_fault e)"
    using d r(3) by (simp_all add: w1_def names_fput fun_eq_iff)
  have w2: "fget w2 ?p = Some (concat (map ent es))" "\<And>p. p \<noteq> ?p \<Longrightarrow> fget w2 p = fget w p" "names w2 = names w"
    "faults w2 = drop 4 (flush_fault e)"
    using w1 fget_dir [OF w1(1)] by (simp_all add: w2_def names_fput fun_eq_iff)
  have "mmap_Sync x ?p ?m (w\<lparr>faults := flush_fault e\<rparr>) = (None, w1)"
    using r(3) x'(1) by (simp add: mmap_Sync_def take_fault_def flush_fault_def file_bytes_def w1_def)
  moreover have "mmap_UnsafeUnmap x ?m w1 = (None, w1\<lparr>faults := drop 2 (flush_fault e)\<rparr>)"
    using x'(2) w1(4) by (simp add: mmap_UnsafeUnmap_def take_fault_def flush_fault_def)
  moreover have "os_Sync (ix_file i) (w1\<lparr>faults := drop 2 (flush_fault e)\<rparr>) = (None, w1\<lparr>faults := drop 3 (flush_fault e)\<rparr>)"
    using r(1) by (simp add: os_Sync_def take_fault_def flush_fault_def)
  moreover have "\<not> sint (ix_size i) < 0" using r(5-7) by (intro sint_u64_nonneg) simp
  then have "os_FTruncate (ix_file i) (ix_size i) (w1\<lparr>faults := drop 3 (flush_fault e)\<rparr>) = (None, w2)"
    using r(1,5,7,8) w1(1) by (simp add: os_FTruncate_def os_Truncate_def take_fault_def flush_fault_def w2_def index_Name_def resize_def)
  moreover have "os_Close (ix_file i) w2 = (None, (ix_file i)\<lparr>fclosed := True\<rparr>, w2\<lparr>faults := [Some (e, 0)]\<rparr>)"
    using r(1) w2(4) by (simp add: os_Close_def take_fault_def flush_fault_def)
  ultimately have "index_Close x i (w\<lparr>faults := flush_fault e\<rparr>) =
      (None, i\<lparr>ix_mapped := False, ix_file := (ix_file i)\<lparr>fclosed := True\<rparr>\<rparr>, w2\<lparr>faults := [Some (e, 0)]\<rparr>)"
    using r(2) by (simp add: index_Close_def index_Name_def Let_def)
  then show ?thesis using w2 by (simp add: index_disk_def)
qed

lemma store_Close_flush_fault:
  assumes "faults w = [Some (e, 0)]" "\<not> fclosed (st_File s)" "bw_err (st_buf s) = None" "bw_buf (st_buf s) \<noteq> []"
    and "fget w (st_path s) = Some c"
  shows "\<exists>s' w'. store_Close s w = (Some e, s', w') \<and> quiet w' \<and> fget w' = fget w \<and> names w' = names w"
proof -
  have "fs w (fst (st_path s)) \<noteq> None" using assms(5) by (rule fget_dir)
  then show ?thesis using assms
    by (simp add: store_Close_def bufio_Flush_def os_Write_def take_fault_def Let_def quiet_def names_fput fun_eq_iff)
qed

lemma segment_Close_flush_fault:
  assumes ix: "index_rep c (sg_index s) w es" and x: "mmap_ok x"
    and st: "\<not> fclosed (st_File (sg_store s))" "bw_err (st_buf (sg_store s)) = None" "bw_buf (st_buf (sg_store s)) \<noteq> []"
      "fget w (st_path (sg_store s)) = Some cs" "st_path (sg_store s) \<noteq> index_Name (sg_index s)"
  shows "\<exists>s' w'. segment_Close x s (w\<lparr>faults := flush_fault e\<rparr>) = (Some e, s', w') \<and> quiet w' \<and> names w' = names w \<and>
    index_disk (index_Name (sg_index s)) w' es \<and> fget w' (st_path (sg_store s)) = Some cs"
proof -
  obtain i w1 where 1: "index_Close x (sg_index s) (w\<lparr>faults := flush_fault e\<rparr>) = (None, i, w1)" "faults w1 = [Some (e, 0)]"
    "index_disk (index_Name (sg_index s)) w1 es" "\<forall>p. p \<noteq> index_Name (sg_index s) \<longrightarrow> fget w1 p = fget w p" "names w1 = names w"
    using index_Close_flush_fault [OF ix x] by blast
  have "fget w1 (st_path (sg_store s)) = Some cs" using 1(4) st(4,5) by metis
  from store_Close_flush_fault [OF 1(2) st(1-3) this] obtain st' w2 where
    "store_Close (sg_store s) w1 = (Some e, st', w2)" "quiet w2" "fget w2 = fget w1" "names w2 = names w1" by blast
  then show ?thesis using 1 \<open>fget w1 (st_path (sg_store s)) = Some cs\<close> by (simp add: segment_Close_def index_disk_def)
qed

section \<open>Opening the segment again\<close>

lemma newSegment_lost:
  assumes c: "config_ok c" "12 * length es \<le> unat (MaxIndexBytes c)" and x: "mmap_ok x" and q: "quiet w"
    and f: "fget w (dir, store_file b) = Some []" "index_disk (dir, index_file b) w es" "es \<noteq> []"
  shows "\<exists>s w'. newSegment x dir b c w = (Inr s, w') \<and> store_rep (sg_store s) w' [] \<and> index_rep c (sg_index s) w' es \<and>
    sg_baseOffset s = b \<and> sg_nextOffset s = b + ucast (fst (last es)) + 1 \<and> sg_config s = c"
proof -
  let ?p = "(dir, store_file b)" and ?q = "(dir, index_file b)"
  have pq: "?p \<noteq> ?q" by (auto simp: store_file_def index_file_def)
  obtain d where d: "fs w dir = Some d" using fget_dir [OF f(1)] by auto
  let ?w1 = "w\<lparr>fpos := (fpos w)(?p := 0)\<rparr>"
  let ?w2 = "?w1\<lparr>fpos := (fpos ?w1)(?q := 0)\<rparr>"
  obtain ib where ib: "fget w ?q = Some ib" using f(2) by (auto simp: index_disk_def)
  have o1: "os_OpenFile ?p w = (Inr \<lparr>fname = ?p, fclosed = False\<rparr>, ?w1)" using q f(1) d by (simp add: os_OpenFile_def Let_def)
  have o2: "os_OpenFile ?q ?w1 = (Inr \<lparr>fname = ?q, fclosed = False\<rparr>, ?w2)" using q ib d by (simp add: os_OpenFile_def Let_def)
  obtain st where st: "newStore \<lparr>fname = ?p, fclosed = False\<rparr> ?w1 = (Inr st, ?w1)" "st_File st = \<lparr>fname = ?p, fclosed = False\<rparr>"
    "store_rep st ?w1 []" using newStore_rep [of ?w1 "\<lparr>fname = ?p, fclosed = False\<rparr>" "[]"] q f(1) by auto
  obtain i w3 where i: "newIndex x \<lparr>fname = ?q, fclosed = False\<rparr> c ?w2 = (Inr i, w3)" "index_rep c i w3 es" "touches {?q} ?w2 w3"
    using newIndex_rep [of c x ?w2 "\<lparr>fname = ?q, fclosed = False\<rparr>" es] c x q f(2) by (auto simp: index_disk_def)
  have "store_rep st w3 []" using st(2,3) i(3) pq by (auto intro!: store_rep_cong [OF st(3)] touches_quiet [OF i(3)] simp: touches_fget [OF i(3)])
  then show ?thesis using o1 o2 st(1) i(1,2) index_Read_last [OF i(2) f(3)] by (simp add: newSegment_def split: prod.split)
qed

section \<open>The log\<close>

text \<open>A log of one segment: its operations are those of the segment.\<close>

definition single :: "Log \<Rightarrow> segment \<Rightarrow> bool" where
  "single l s \<longleftrightarrow> lg_segments l = [0] \<and> lg_active l = Some 0 \<and> lg_heap l = [s]"

lemma single_put: "single l s \<Longrightarrow> single (put_seg 0 s' l) s'"
  by (simp add: single_def put_seg_def)

lemma single_Append:
  assumes "single l s" "segment_Append x (Some r) s w = (Inr off, s', w')" "\<not> segment_IsMaxed s'"
  shows "Log_Append x (Some r) l w = (Inr off, put_seg 0 s' l, w')"
  using assms by (simp add: Log_Append_def single_def seg_of_def)

lemma single_Read:
  assumes "single l s" "sg_baseOffset s \<le> off" "off < sg_nextOffset s"
  shows "Log_Read x off l w = (case segment_Read x off s w of (r, s', w') \<Rightarrow> (r, put_seg 0 s' l, w'))"
proof -
  have "\<not> sg_nextOffset s \<le> off" using assms(3) by (simp add: not_le)
  then show ?thesis using assms by (simp add: Log_Read_def single_def seg_of_def)
qed

lemma single_Close:
  "single l s \<Longrightarrow> segment_Close x s w = (Some e, s', w') \<Longrightarrow> Log_Close x l w = (Some e, put_seg 0 s' l, w')"
  by (simp add: Log_Close_def single_def seg_of_def)

lemma NewLog_single_empty:
  assumes "config_ok c" "mmap_ok x" "quiet w" "names w dir = Some []"
  shows "\<exists>l s w'. NewLog x dir c w = (None, l, w') \<and> single l s \<and> seg_rep x dir s w' [] \<and> sg_baseOffset s = InitialOffset c \<and>
    sg_config s = c \<and> names w' dir = Some [store_file (InitialOffset c), index_file (InitialOffset c)]"
proof -
  have f: "fget w (dir, n) = None" for n using fget_names [of w dir n] assms(4) by auto
  let ?b = "InitialOffset c"
  obtain s w' where s: "newSegment x dir ?b c w = (Inr s, w')" "seg_rep x dir s w' []" "sg_baseOffset s = ?b" "sg_config s = c"
    and n: "\<forall>d. names w' d = (if d = dir then Some ([] @ [store_file ?b, index_file ?b]) else names w d)"
    using newSegment_fresh [OF assms f f] by blast
  let ?l = "\<lparr>lg_Dir = dir, lg_Config = c, lg_active = Some 0, lg_segments = [0], lg_heap = [s]\<rparr>"
  have "NewLog x dir c w = (None, ?l, w')"
    using assms(3,4) s(1) config_defaults_id [OF assms(1)] by (simp add: NewLog_def Log_setup_def os_ReadDir_quiet Log_newSegment_def)
  moreover have "single ?l s" by (simp add: single_def)
  moreover have "names w' dir = Some [store_file ?b, index_file ?b]" using n by simp
  ultimately show ?thesis using s(2-4) by blast
qed

lemma NewLog_single_lost:
  assumes c: "config_ok c" "12 * length es \<le> unat (MaxIndexBytes c)" "mmap_ok x" and q: "quiet w"
    and n: "names w dir = Some [store_file b, index_file b]"
    and f: "fget w (dir, store_file b) = Some []" "index_disk (dir, index_file b) w es" "es \<noteq> []"
  shows "\<exists>l s w'. NewLog x dir c w = (None, l, w') \<and> single l s \<and> store_rep (sg_store s) w' [] \<and> index_rep c (sg_index s) w' es \<and>
    sg_baseOffset s = b \<and> sg_nextOffset s = b + ucast (fst (last es)) + 1 \<and> sg_config s = c"
proof -
  obtain s w' where s: "newSegment x dir b c w = (Inr s, w')" "store_rep (sg_store s) w' []" "index_rep c (sg_index s) w' es"
    "sg_baseOffset s = b" "sg_nextOffset s = b + ucast (fst (last es)) + 1" "sg_config s = c"
    using newSegment_lost [OF c q f] by blast
  have "sort (map base_of_name (sort [store_file b, index_file b])) = [b, b]"
    using sort_bases [of "[store_file b, index_file b]" "[b]"] by (simp add: seg_files_def store_file_def index_file_def insert_commute)
  then show ?thesis using s q n config_defaults_id [OF c(1)]
    by (simp add: NewLog_def Log_setup_def os_ReadDir_quiet Log_newSegment_def single_def)
qed

section \<open>The lost record is replaced\<close>

text \<open>Appending one record to a segment, with the parts of its representation kept apart.\<close>

lemma segment_Append_parts:
  assumes m: "marshal x (r\<lparr>r_Offset := sg_nextOffset s\<rparr>) = Inr p" and st: "store_Append p (sg_store s) w = (Inr (n, pos), st, w')"
    and ix: "index_rep (sg_config s) (sg_index s) v es" "12 * length es + 24 \<le> unat (MaxIndexBytes (sg_config s))"
    and nx: "unat (sg_nextOffset s) = unat (sg_baseOffset s) + length es" and size: "st_size st < MaxStoreBytes (sg_config s)"
  shows "\<exists>i. segment_Append x (Some r) s w =
      (Inr (sg_nextOffset s), s\<lparr>sg_store := st, sg_index := i, sg_nextOffset := sg_nextOffset s + 1\<rparr>, w') \<and>
    index_rep (sg_config s) i v (es @ [(of_nat (length es), pos)]) \<and> index_Name i = index_Name (sg_index s) \<and>
    \<not> segment_IsMaxed (s\<lparr>sg_store := st, sg_index := i, sg_nextOffset := sg_nextOffset s + 1\<rparr>)"
proof -
  have "sg_nextOffset s - sg_baseOffset s = of_nat (length es)"
    using nx u64_bound [of "sg_nextOffset s"] by (intro u64_of_nat_eq) (simp_all add: unat_u64_sub)
  then have rel: "ucast (sg_nextOffset s - sg_baseOffset s) = (of_nat (length es) :: u32)" by (simp add: ucast_u64_u32_of_nat)
  obtain i where i: "index_Write (of_nat (length es)) pos (sg_index s) = (None, i)"
    "index_rep (sg_config s) i v (es @ [(of_nat (length es), pos)])" "ix_file i = ix_file (sg_index s)"
    using index_Write_rep [OF ix(1), of "of_nat (length es)" pos] ix(2) by auto
  have "unat (ix_size i) = 12 * length es + 12" "length (ix_mmap i) = unat (MaxIndexBytes (sg_config s))" "unat (MaxIndexBytes (sg_config s)) < 2 ^ 32"
    using i(2) by (auto simp: index_rep_def config_ok_def)
  then have "\<not> MaxIndexBytes (sg_config s) \<le> ix_size i" "\<not> index_isMaxed i"
    using ix(2) by (simp_all add: u64_le_iff u64_less_iff index_isMaxed_def entWidth_eq unat_u64_add)
  then show ?thesis using m st rel i size by (auto simp: segment_Append_def Let_def index_Name_def segment_IsMaxed_def not_le)
qed

lemma closed_without_record:
  assumes x: "mmap_ok x" and c: "config_ok c" "48 \<le> unat (MaxIndexBytes c)" and w: "quiet w" "names w dir = Some []"
    and p1: "marshal x (r1\<lparr>r_Offset := InitialOffset c\<rparr>) = Inr p1" "length (frame p1) \<le> bufio_size" "length (frame p1) < unat (MaxStoreBytes c)"
  defines "lo \<equiv> InitialOffset c"
  shows "\<exists>l0 w0 l1 w1 l2 w2. NewLog x dir c w = (None, l0, w0) \<and> Log_Append x (Some r1) l0 w0 = (Inr lo, l1, w1) \<and>
    Log_Close x l1 (w1\<lparr>faults := flush_fault e\<rparr>) = (Some e, l2, w2) \<and> quiet w2 \<and>
    names w2 dir = Some [store_file lo, index_file lo] \<and> fget w2 (dir, store_file lo) = Some [] \<and> index_disk (dir, index_file lo) w2 [(0, 0)]"
proof -
  obtain l0 s0 w0 where 0: "NewLog x dir c w = (None, l0, w0)" "single l0 s0" "seg_rep x dir s0 w0 []" "sg_baseOffset s0 = lo" "sg_config s0 = c"
    "names w0 dir = Some [store_file lo, index_file lo]"
    using NewLog_single_empty [OF c(1) x w] unfolding lo_def by blast
  have s0: "store_rep (sg_store s0) w0 []" "index_rep c (sg_index s0) w0 []" "sg_nextOffset s0 = lo"
    "st_path (sg_store s0) = (dir, store_file lo)" "index_Name (sg_index s0) = (dir, index_file lo)"
    using 0(3,4,5) by (auto simp: seg_rep_def encodes_def entries_def u64_eq_iff)
  obtain st where st: "store_Append p1 (sg_store s0) w0 = (Inr (of_nat (length (frame p1)), 0), st, w0)" "st_File st = st_File (sg_store s0)"
    "bw_buf (st_buf st) = frame p1" "bw_err (st_buf st) = None" "unat (st_size st) = length (frame p1)"
    using store_Append_buffered [OF s0(1) p1(2)] by blast
  obtain i where i: "segment_Append x (Some r1) s0 w0 = (Inr lo, s0\<lparr>sg_store := st, sg_index := i, sg_nextOffset := lo + 1\<rparr>, w0)"
    "index_rep c i w0 [(0, 0)]" "index_Name i = (dir, index_file lo)" "\<not> segment_IsMaxed (s0\<lparr>sg_store := st, sg_index := i, sg_nextOffset := lo + 1\<rparr>)"
    using segment_Append_parts [OF _ st(1), of x r1 w0 "[]"] p1(1,3) s0 c(2) 0(4,5) st(5) by (auto simp: lo_def u64_less_iff)
  let ?s1 = "s0\<lparr>sg_store := st, sg_index := i, sg_nextOffset := lo + 1\<rparr>" and ?l1 = "put_seg 0 (s0\<lparr>sg_store := st, sg_index := i, sg_nextOffset := lo + 1\<rparr>) l0"
  have 1: "Log_Append x (Some r1) l0 w0 = (Inr lo, ?l1, w0)" "single ?l1 ?s1"
    using single_Append [OF 0(2) i(1,4)] single_put [OF 0(2)] by blast+
  have f0: "fget w0 (dir, store_file lo) = Some []" "\<not> fclosed (st_File (sg_store s0))" using s0(1,4) by (auto simp: store_rep_def)
  have ne: "frame p1 \<noteq> []" "store_file lo \<noteq> index_file lo" by (auto simp: frame_def PutUint64_def store_file_def index_file_def)
  obtain s2 w2 where 2: "segment_Close x ?s1 (w0\<lparr>faults := flush_fault e\<rparr>) = (Some e, s2, w2)" "quiet w2" "names w2 = names w0"
    "index_disk (dir, index_file lo) w2 [(0, 0)]" "fget w2 (dir, store_file lo) = Some []"
    using segment_Close_flush_fault [of c ?s1 w0 "[(0, 0)]" x "[]" e] i(2,3) x st(2-4) f0 s0(4) ne by auto
  show ?thesis using 0(1,6) 1(1) single_Close [OF 1(2) 2(1)] 2(2-5) by (metis (no_types, lifting))
qed

text \<open>The next record is stored where the entry of the lost one points, so it answers for both offsets.\<close>

lemma reopened_without_record:
  assumes x: "codec_ok x" "mmap_ok x" and c: "config_ok c" "48 \<le> unat (MaxIndexBytes c)" and lo: "unat lo + 2 < 2 ^ 64"
    and w2: "quiet w2" "names w2 dir = Some [store_file lo, index_file lo]" "fget w2 (dir, store_file lo) = Some []"
      "index_disk (dir, index_file lo) w2 [(0, 0)]"
    and p2: "marshal x (r2\<lparr>r_Offset := lo + 1\<rparr>) = Inr p2" "length (frame p2) < unat (MaxStoreBytes c)"
  shows "\<exists>l3 w3 l4 w4 l5 w5. NewLog x dir c w2 = (None, l3, w3) \<and> Log_Append x (Some r2) l3 w3 = (Inr (lo + 1), l4, w4) \<and>
    Log_Read x lo l4 w4 = (Inr (r2\<lparr>r_Offset := lo + 1\<rparr>), l5, w5)"
proof -
  obtain l3 s3 w3 where 3: "NewLog x dir c w2 = (None, l3, w3)" "single l3 s3" "store_rep (sg_store s3) w3 []" "index_rep c (sg_index s3) w3 [(0, 0)]"
    "sg_baseOffset s3 = lo" "sg_nextOffset s3 = lo + 1" "sg_config s3 = c"
    using NewLog_single_lost [OF c(1) _ x(2) w2] c(2) by auto
  have nx: "unat (lo + 1) = unat lo + 1" using lo by (simp add: unat_u64_Suc)
  have "length (frame p2) < 2 ^ 63" using p2(2) c(1) by (auto simp: config_ok_def)
  then obtain st4 w4 where 4: "store_Append p2 (sg_store s3) w3 = (Inr (of_nat (length (frame p2)), 0), st4, w4)" "store_rep st4 w4 (frame p2)"
    using store_Append_rep [OF 3(3), of p2] by auto
  have "st_size st4 < MaxStoreBytes c" using 4(2) p2(2) by (simp add: store_rep_def u64_less_iff)
  then obtain i4 where i4: "segment_Append x (Some r2) s3 w3 = (Inr (lo + 1), s3\<lparr>sg_store := st4, sg_index := i4, sg_nextOffset := lo + 1 + 1\<rparr>, w4)"
    "index_rep c i4 w3 [(0, 0), (1, 0)]" "\<not> segment_IsMaxed (s3\<lparr>sg_store := st4, sg_index := i4, sg_nextOffset := lo + 1 + 1\<rparr>)"
    using segment_Append_parts [OF _ 4(1), of x r2 w3 "[(0, 0)]"] p2(1) 3(4-7) c(2) nx by auto
  let ?s4 = "s3\<lparr>sg_store := st4, sg_index := i4, sg_nextOffset := lo + 1 + 1\<rparr>"
  have A: "Log_Append x (Some r2) l3 w3 = (Inr (lo + 1), put_seg 0 ?s4 l3, w4)" "single (put_seg 0 ?s4 l3) ?s4"
    using single_Append [OF 3(2) i4(1,3)] single_put [OF 3(2)] by blast+
  have "frame_at (frame p2) 0 p2" using frame_at_end [of "[]" p2] by simp
  moreover have "length p2 \<le> maxAlloc" using codec_okD(2) [OF x(1) p2(1)] by (simp add: maxAlloc_def)
  ultimately obtain st5 w5 where 5: "store_Read 0 st4 w4 = (Inr p2, st5, w5)" using store_Read_rep [OF 4(2), of 0 p2] by auto
  have "index_Read 0 i4 = Inr (0, 0)" using index_Read_rep [OF i4(2), of 0] by simp
  then have R: "segment_Read x lo ?s4 w4 = (Inr (r2\<lparr>r_Offset := lo + 1\<rparr>), ?s4\<lparr>sg_store := st5\<rparr>, w5)"
    using 5 3(5) codec_okD(1) [OF x(1) p2(1)] by (simp add: segment_Read_def)
  have "unat (lo + 1 + 1) = unat lo + 2" using lo nx unat_u64_Suc [of "lo + 1"] by simp
  then have "Log_Read x lo (put_seg 0 ?s4 l3) w4 = (Inr (r2\<lparr>r_Offset := lo + 1\<rparr>), put_seg 0 (?s4\<lparr>sg_store := st5\<rparr>) (put_seg 0 ?s4 l3), w5)"
    using single_Read [OF A(2), of lo x w4] R 3(5) by (simp add: u64_less_iff)
  then show ?thesis using 3(1) A(1) by blast
qed

end
