(* ===== verification/Lifecycle_Properties.thy ===== *)
theory Lifecycle_Properties
  imports Cluster_Properties Crash Reader Fault_Histories Lost_Writes
begin

text \<open>
  Properties of a log, a state machine and a service over the life of a process: reading the whole
  log, what a restart and an unclean stop do to the records, to a replica and to its snapshots, and
  how the loops that wait for the network end.
\<close>

section \<open>Reading the whole log\<close>

text \<open>
  C18. Reading the whole log. Whatever the sizes of the buffers, the successive reads from the reader of a
  log return the frames of its records in order, without gap or repetition across the segments;
  the end of file comes exactly after the last of them, and enough reads reach it.
\<close>

theorem reader_whole_log:
  assumes "log_contract x (l, w) lo rs" and "\<forall>n \<in> set ns. 0 < n"
  shows "\<exists>ps data err rds l' w'. encodes x rs ps \<and> reads ns (Log_Reader l) l w = ((data, err), rds, l', w') \<and>
    log_contract x (l', w') lo rs \<and> prefix data (frames ps) \<and> (err = None \<or> err = Some EOF \<and> data = frames ps) \<and>
    (length (frames ps) < length ns \<longrightarrow> err = Some EOF)"
  by (rule Reader_reads [OF assms])

lemma recs3_encodes: "encodes demo recs3 ps \<Longrightarrow> length (frames ps) = 90"
  by (auto simp: encodes_def recs3_def list_all2_Cons1 demo_def demo_marshal_def rec_of_def frames_def)

theorem reader_whole_log_witness:
  "\<exists>ps data rds l' w'. encodes demo recs3 ps \<and>
    reads (replicate 91 7) (Log_Reader (fst log3)) (fst log3) (snd log3) = ((data, Some EOF), rds, l', w') \<and>
    data = frames ps"
proof -
  have "\<forall>n \<in> set (replicate 91 (7 :: nat)). 0 < n" by simp
  from reader_whole_log [OF log3_contract this] obtain ps data err rds l' w' where
    r: "encodes demo recs3 ps" "reads (replicate 91 7) (Log_Reader (fst log3)) (fst log3) (snd log3) = ((data, err), rds, l', w')"
    "err = None \<or> err = Some EOF \<and> data = frames ps" "length (frames ps) < 91 \<longrightarrow> err = Some EOF"
    by (metis length_replicate)
  then show ?thesis using recs3_encodes [OF r(1)] by auto
qed

section \<open>Restarts\<close>

text \<open>
  C25. A restart duplicates the records of a replica. Raft rebuilds a state machine by applying the
  committed entries of its log again when a server restarts, but this state machine keeps its
  records on disk. After the entries \<open>es\<close> were applied to an empty log, a clean restart and the same
  entries again, every record is in the log twice, while a replica that was not restarted holds it
  once: from then on they answer reads differently.
\<close>

theorem replay_duplicates:
  assumes "log_contract (dx_ext dx) (l, w) lo []" and "cmds_ok dx lo es []"
    and "cmds_ok dx lo es (snd (spec_run dx lo es []))"
  shows "\<exists>resps l1 w1 l2 w2 l3 w3 resps' l4 w4 rs rs'. fsm_run dx es l w = (Inr resps, l1, w1) \<and>
    log_contract (dx_ext dx) (l1, w1) lo rs \<and> map r_Value rs = cmd_values dx es \<and>
    Log_Close (dx_ext dx) l1 w1 = (None, l2, w2) \<and> NewLog (dx_ext dx) (lg_Dir l1) (lg_Config l1) w2 = (None, l3, w3) \<and>
    fsm_run dx es l3 w3 = (Inr resps', l4, w4) \<and>
    log_contract (dx_ext dx) (l4, w4) lo rs' \<and> map r_Value rs' = cmd_values dx es @ cmd_values dx es"
proof -
  let ?rs = "snd (spec_run dx lo es [])"
  obtain l1 w1 where 1: "fsm_run dx es l w = (Inr (fst (spec_run dx lo es [])), l1, w1)"
    "log_contract (dx_ext dx) (l1, w1) lo ?rs" using fsm_run_spec [OF assms(1,2)] by blast
  obtain l2 w2 l3 w3 where 2: "Log_Close (dx_ext dx) l1 w1 = (None, l2, w2)"
    "NewLog (dx_ext dx) (lg_Dir l1) (lg_Config l1) w2 = (None, l3, w3)" "log_contract (dx_ext dx) (l3, w3) lo ?rs"
    using Log_close_reopen_contract [OF 1(2)] by blast
  obtain l4 w4 where 3: "fsm_run dx es l3 w3 = (Inr (fst (spec_run dx lo es ?rs)), l4, w4)"
    "log_contract (dx_ext dx) (l4, w4) lo (snd (spec_run dx lo es ?rs))" using fsm_run_spec [OF 2(3) assms(3)] by blast
  have "map r_Value ?rs = cmd_values dx es" "map r_Value (snd (spec_run dx lo es ?rs)) = cmd_values dx es @ cmd_values dx es"
    using spec_run_values by simp_all
  with 1 2 3 show ?thesis by blast
qed

theorem replay_duplicates_witness:
  "\<exists>resps l1 w1 l2 w2 l3 w3 resps' l4 w4 rs'. fsm_run ddx [cmd_of 1, cmd_of 2] (fst log0) (snd log0) = (Inr resps, l1, w1) \<and>
    Log_Close demo l1 w1 = (None, l2, w2) \<and> NewLog demo (lg_Dir l1) (lg_Config l1) w2 = (None, l3, w3) \<and>
    fsm_run ddx [cmd_of 1, cmd_of 2] l3 w3 = (Inr resps', l4, w4) \<and>
    log_contract demo (l4, w4) 16 rs' \<and> map r_Value rs' = [[7], [7, 7], [7], [7, 7]]"
proof -
  have ok: "cmds_ok ddx 16 [cmd_of 1, cmd_of 2] []"
    "cmds_ok ddx 16 [cmd_of 1, cmd_of 2] (snd (spec_run ddx 16 [cmd_of 1, cmd_of 2] []))"
    by (simp_all add: cmd_of_simps)
  have v: "cmd_value ddx (cmd_of n) = [replicate n 7]" for n
  proof -
    obtain b where b: "rl_Data (cmd_of n) = AppendRequestType # b" by (simp add: cmd_of_def)
    show ?thesis using cmd_of_request [OF b] b by (simp add: cmd_value_def rec_of_def)
  qed
  have "cmd_values ddx [cmd_of 1, cmd_of 2] = [[7], [7, 7]]"
    by (simp add: cmd_values_def v numeral_2_eq_2)
  then show ?thesis using replay_duplicates [of ddx "fst log0" "snd log0" 16, OF _ ok] log0_contract by fastforce
qed

text \<open>
  C31. The first snapshot after a restart. A log that was just opened again has the read positions of its
  files at the start, so a snapshot that is taken before anything is appended holds the frames of all
  records; a sink that works receives them all. But \<^verbatim>\<open>Restore\<close> cannot read back what was written
  unless it is empty.
\<close>

theorem snapshot_after_restart:
  assumes "log_contract x (l0, w0) lo rs" and "sink_ok sk got"
    and "Log_Close x l0 w0 = (None, l1, w1)" and "NewLog x (lg_Dir l0) (lg_Config l0) w1 = (None, l, w)"
  shows "\<exists>ps w' k'. encodes x rs ps \<and> got k' = got k @ frames ps \<and>
    snapshot_Persist sk (fsm_Snapshot l) l w k = (fst (sk_Close sk k'), w', snd (sk_Close sk k')) \<and>
    (rs \<noteq> [] \<longrightarrow> (\<forall>l'' w''. fst (fsm_Restore x (Stream (frames ps) EOF) l'' w'') \<noteq> None))"
proof -
  obtain ps w' k' where p: "encodes x rs ps" "got k' = got k @ frames ps"
    "snapshot_Persist sk (fsm_Snapshot l) l w k = (fst (sk_Close sk k'), w', snd (sk_Close sk k'))"
    using Persist_after_restart [OF assms] by blast
  have "frames ps \<noteq> []" if "rs \<noteq> []"
    using p(1) that by (cases ps) (auto simp: encodes_def frames_def frame_def PutUint64_def)
  then show ?thesis using p fsm_Restore_iff by blast
qed

theorem snapshot_after_restart_witness:
  "\<exists>l1 w1 l w ps w'. Log_Close demo (fst log3) (snd log3) = (None, l1, w1) \<and>
    NewLog demo (lg_Dir (fst log3)) (lg_Config (fst log3)) w1 = (None, l, w) \<and> encodes demo recs3 ps \<and>
    snapshot_Persist sink_demo (fsm_Snapshot l) l w [] = (None, w', frames ps)"
proof -
  obtain l1 w1 l w where o: "Log_Close demo (fst log3) (snd log3) = (None, l1, w1)"
    "NewLog demo (lg_Dir (fst log3)) (lg_Config (fst log3)) w1 = (None, l, w)"
    using Log_close_reopen_contract [OF log3_contract] by blast
  have "sink_ok sink_demo (\<lambda>k. k)" by (simp add: sink_ok_def sink_demo_def)
  from snapshot_after_restart [OF log3_contract this o, of "[]"] obtain ps w' where
    "encodes demo recs3 ps" "snapshot_Persist sink_demo (fsm_Snapshot l) l w [] = (None, w', frames ps)"
    by (auto simp: sink_demo_def)
  with o show ?thesis by blast
qed

text \<open>
  C26. An unclean stop makes a log unusable. When the process is killed, the index files keep the length
  they were mapped with, since only closing an index cuts it to its entries. The next start takes
  them for full: it succeeds, but every append fails, and every offset after the first one of the
  active segment is refused, although records with such offsets had been acknowledged.
\<close>

theorem crash_unusable:
  assumes "log_contract x (l, w) lo rs"
  shows "\<exists>l' w'. NewLog x (lg_Dir l) (lg_Config l) (crashed l w) = (None, l', w') \<and>
    (\<forall>r w2. \<exists>e l'' w''. Log_Append x r l' w2 = (Inl e, l'', w'')) \<and>
    (\<forall>off w2. sg_baseOffset (last (segs l)) < off \<longrightarrow> Log_Read x off l' w2 = (Inl (ErrOffsetOutOfRange off), l', w2))"
  by (rule log_after_crash [OF assms])

theorem crash_unusable_witness:
  "\<exists>l' w' e. NewLog demo (lg_Dir (fst log3)) (lg_Config (fst log3)) (crashed (fst log3) (snd log3)) = (None, l', w') \<and>
    fst (Log_Append demo (Some (rec_of 4)) l' w') = Inl e"
  using crash_unusable [OF log3_contract] by (metis fst_conv)



text \<open>
  C28. A close that fails loses a record, and the next one takes its place. When the write of the store fails
  while a log is closed, \<^verbatim>\<open>Close\<close> returns the error, but the index has already kept the entry of the
  acknowledged record that was in the write buffer. Opening the log again reports nothing, since the
  next offset comes from the index alone; the next record is acknowledged at the following offset,
  and from then on a read at the offset of the lost record returns that next record.
\<close>

theorem lost_record_replaced:
  assumes "codec_ok x" "mmap_ok x" and "config_ok c" "48 \<le> unat (MaxIndexBytes c)" and "quiet w" "names w dir = Some []"
    and "lo = InitialOffset c" "unat lo + 2 < 2 ^ 64"
    and "marshal x (r1\<lparr>r_Offset := lo\<rparr>) = Inr p1" "length (frame p1) \<le> bufio_size" "length (frame p1) < unat (MaxStoreBytes c)"
    and "marshal x (r2\<lparr>r_Offset := lo + 1\<rparr>) = Inr p2" "length (frame p2) < unat (MaxStoreBytes c)"
  shows "\<exists>l0 w0 l1 w1 l2 w2 l3 w3 l4 w4 l5 w5. NewLog x dir c w = (None, l0, w0) \<and>
    Log_Append x (Some r1) l0 w0 = (Inr lo, l1, w1) \<and>
    Log_Close x l1 (w1\<lparr>faults := flush_fault e\<rparr>) = (Some e, l2, w2) \<and> quiet w2 \<and>
    NewLog x dir c w2 = (None, l3, w3) \<and> Log_Append x (Some r2) l3 w3 = (Inr (lo + 1), l4, w4) \<and>
    Log_Read x lo l4 w4 = (Inr (r2\<lparr>r_Offset := lo + 1\<rparr>), l5, w5)"
proof -
  obtain l0 w0 l1 w1 l2 w2 where
    1: "NewLog x dir c w = (None, l0, w0)" "Log_Append x (Some r1) l0 w0 = (Inr lo, l1, w1)"
      "Log_Close x l1 (w1\<lparr>faults := flush_fault e\<rparr>) = (Some e, l2, w2)" and
    2: "quiet w2" "names w2 dir = Some [store_file lo, index_file lo]" "fget w2 (dir, store_file lo) = Some []"
      "index_disk (dir, index_file lo) w2 [(0, 0)]"
    using closed_without_record [OF assms(2-6), of r1 p1 e] assms(7,9-11) by auto
  obtain l3 w3 l4 w4 l5 w5 where "NewLog x dir c w2 = (None, l3, w3)" "Log_Append x (Some r2) l3 w3 = (Inr (lo + 1), l4, w4)"
    "Log_Read x lo l4 w4 = (Inr (r2\<lparr>r_Offset := lo + 1\<rparr>), l5, w5)"
    using reopened_without_record [OF assms(1-4,8) 2 assms(12,13)] by auto
  with 1 2(1) show ?thesis by blast
qed

theorem lost_record_replaced_witness:
  "\<exists>l0 w0 l1 w1 l2 w2 l3 w3 l4 w4 l5 w5. NewLog demo ''data'' c_roomy w_empty = (None, l0, w0) \<and>
    Log_Append demo (Some (rec_of 1)) l0 w0 = (Inr 16, l1, w1) \<and>
    Log_Close demo l1 (w1\<lparr>faults := flush_fault (Extern ''no space left on device'')\<rparr>) =
      (Some (Extern ''no space left on device''), l2, w2) \<and>
    NewLog demo ''data'' c_roomy w2 = (None, l3, w3) \<and> Log_Append demo (Some (rec_of 2)) l3 w3 = (Inr 17, l4, w4) \<and>
    Log_Read demo 16 l4 w4 = (Inr ((rec_of 2)\<lparr>r_Offset := 17\<rparr>), l5, w5)"
proof -
  have c: "config_ok c_roomy" "48 \<le> unat (MaxIndexBytes c_roomy)" "16 = InitialOffset c_roomy" "unat (MaxStoreBytes c_roomy) = 1024"
    by (simp_all add: config_ok_def c_roomy_def c_small_def)
  obtain p1 where p1: "marshal demo ((rec_of 1)\<lparr>r_Offset := 16\<rparr>) = Inr p1" "length p1 = 21"
    by (simp add: demo_def demo_marshal_def rec_of_def)
  obtain p2 where p2: "marshal demo ((rec_of 2)\<lparr>r_Offset := 17\<rparr>) = Inr p2" "length p2 = 22"
    by (simp add: demo_def demo_marshal_def rec_of_def)
  show ?thesis
    using lost_record_replaced [OF demo_codec_ok demo_mmap_ok c(1,2) w_empty_ok c(3), of "rec_of 1" p1 "rec_of 2" p2
      "Extern ''no space left on device''"] p1 p2 c(4)
    by (simp add: bufio_size_def frame_def) blast
qed

section \<open>Loops that wait\<close>

lemma ConsumeStream_ends:
  assumes "tk_done t"
  shows "\<exists>e sent s'. ConsumeStream cfg c req (ts @ t # ts') s = (Returned e, sent, s') \<and> length sent \<le> length ts"
proof (induction ts arbitrary: req s)
  case Nil
  then show ?case using assms by simp
next
  case (Cons u ts)
  show ?case
  proof (cases "Consume cfg c req (tk_others u s)")
    case (Pair res s1)
    from Cons.IH [of req s1] Cons.IH [of "req\<lparr>creq_Offset := creq_Offset req + 1\<rparr>" s1] Pair
    show ?thesis by (cases res; cases "tk_send u") auto
  qed
qed

lemma ProduceStream_ends:
  "\<exists>e sent s'. ProduceStream cfg c (es @ (Inl err, snd_err) # es') s = (Returned (Some e), sent, s') \<and> length sent \<le> length es"
proof (induction es arbitrary: s)
  case (Cons e es)
  obtain recv send where e: "e = (recv, send)" by fastforce
  show ?case
  proof (cases recv)
    case (Inr req)
    obtain res s1 where p: "Produce cfg c req s = (res, s1)" by fastforce
    from Cons.IH [of s1] Inr e p show ?thesis by (cases res; cases send) auto
  qed (simp add: e)
qed simp

text \<open>
  C23. The handlers return. \<^verbatim>\<open>ConsumeStream\<close> returns at the latest when its context is done and
  \<^verbatim>\<open>ProduceStream\<close> when receiving fails, whatever the client sends, the log holds and the libraries
  answer, and neither sends more messages than there were iterations before; \<^verbatim>\<open>WaitForLeader\<close> returns
  at the latest when its timer fires, with an error exactly when no tick before saw a leader.
\<close>

theorem streams_end:
  assumes "tk_done t"
  shows "(\<exists>e sent s'. ConsumeStream cfg c req (ts @ t # ts') s = (Returned e, sent, s') \<and> length sent \<le> length ts) \<and>
    (\<exists>e sent s'. ProduceStream cfg c (es @ (Inl err, snd_err) # es') s = (Returned (Some e), sent, s') \<and> length sent \<le> length es) \<and>
    WaitForLeader rf (map Tick rs @ Timeout # evs) =
      Some (if \<exists>r \<in> set rs. rf_Leader rf r \<noteq> '''' then None else Some (Errorf ''timed out''))"
proof (intro conjI)
  show "WaitForLeader rf (map Tick rs @ Timeout # evs) =
      Some (if \<exists>r \<in> set rs. rf_Leader rf r \<noteq> '''' then None else Some (Errorf ''timed out''))"
    by (induction rs) auto
qed (rule ConsumeStream_ends [OF assms], rule ProduceStream_ends)

theorem streams_end_witness:
  "\<exists>e sent s'. ConsumeStream scfg (ctx_of ''root'') \<lparr>creq_Offset = 17\<rparr> [quiet_tick, quiet_tick\<lparr>tk_done := True\<rparr>]
      (fst log3, snd log3) = (Returned e, sent, s') \<and> length sent \<le> 1"
proof -
  have "tk_done (quiet_tick\<lparr>tk_done := True\<rparr>)" by simp
  from conjunct1 [OF streams_end [OF this, where ts = "[quiet_tick]" and ts' = "[]" and cfg = scfg and c = "ctx_of ''root''"
      and req = "\<lparr>creq_Offset = 17\<rparr>" and s = "(fst log3, snd log3)"]]
  show ?thesis by (simp del: ConsumeStream.simps)
qed

section \<open>When system calls fail\<close>

text \<open>
  C11. No wrong answers. Whatever system calls fail and wherever, on files and directories or when an index is
  mapped, synced or unmapped, the answers to a sequence of appends, reads, truncations and closings
  agree with one sequence of records, that of the log followed by records that were given to
  the appends: a read that succeeds returns the record at its offset, every acknowledged append is
  the record at its offset, and acknowledged offsets increase and lie above those of the log before.
  A failed append may or may not have added its record. The sequence is followed up to its first
  access to an index that a truncation or a closing has unmapped, whose effect Go does not define; a
  sequence without truncations and closings is followed to its end.
\<close>

theorem faults_no_wrong_reads:
  assumes "log_contract x (l, w) lo rs" and "length ops \<le> 2 ^ 29" and "lo + length rs + length ops < 2 ^ 64"
    and "run_ops x ops l (w\<lparr>faults := fl\<rparr>) = (as, l', w')"
  shows "(\<exists>new. list_all2 (agrees lo (rs @ new)) (take (length as) ops) as \<and> added ops new \<and>
      sorted_wrt (<) (acked as) \<and> (\<forall>off \<in> set (acked as). lo + length rs \<le> unat off)) \<and>
    (length as < length ops \<longrightarrow> undefined_access (ops ! length as) l') \<and>
    ((\<forall>op \<in> set ops. \<not> unmaps op) \<longrightarrow> length as = length ops)"
proof -
  have safe: "hist_safe x (length ops) (l, w\<lparr>faults := fl\<rparr>) lo rs"
    using assms(2,3) by (intro log_contract_hist [OF assms(1)]) (simp_all add: fget_def fun_eq_iff)
  show ?thesis
    using run_ops_hist [OF safe order_refl assms(4)]
      run_ops_complete [OF safe order_refl assms(4) log_contract_alive [OF assms(1)]] by blast
qed

theorem faults_no_wrong_reads_witness:
  "(\<exists>as l' w' new. run_ops demo [DoAppend (rec_of 4), DoRead 17, DoRead 19, DoAppend (rec_of 5)] (fst log3)
      ((snd log3)\<lparr>faults := [None, Some (Extern ''input/output error'', 5)]\<rparr>) = (as, l', w') \<and>
    list_all2 (agrees 16 (recs3 @ new)) [DoAppend (rec_of 4), DoRead 17, DoRead 19, DoAppend (rec_of 5)] as) \<and>
   (\<exists>as l' w' new. run_ops demo [DoTruncate 17, DoRead 18, DoClose] (fst log3)
      ((snd log3)\<lparr>faults := [Some (Extern ''cannot allocate memory'', 0)]\<rparr>) = (as, l', w') \<and>
    list_all2 (agrees 16 (recs3 @ new)) (take (length as) [DoTruncate 17, DoRead 18, DoClose]) as)"
proof -
  let ?ops = "[DoAppend (rec_of 4), DoRead 17, DoRead 19, DoAppend (rec_of 5)]"
  obtain as l' w' where r: "run_ops demo ?ops (fst log3)
      ((snd log3)\<lparr>faults := [None, Some (Extern ''input/output error'', 5)]\<rparr>) = (as, l', w')" by (metis prod.exhaust)
  have "length ?ops \<le> 2 ^ 29" "16 + length recs3 + length ?ops < 2 ^ 64" by (simp_all add: recs3_def)
  note 1 = faults_no_wrong_reads [OF log3_contract this r]
  then have "length as = length ?ops" by simp
  with 1 obtain new where "list_all2 (agrees 16 (recs3 @ new)) ?ops as" by auto
  moreover
  let ?ops' = "[DoTruncate 17, DoRead 18, DoClose]"
  obtain bs m' v' where r': "run_ops demo ?ops' (fst log3)
      ((snd log3)\<lparr>faults := [Some (Extern ''cannot allocate memory'', 0)]\<rparr>) = (bs, m', v')" by (metis prod.exhaust)
  have "length ?ops' \<le> 2 ^ 29" "16 + length recs3 + length ?ops' < 2 ^ 64" by (simp_all add: recs3_def)
  from faults_no_wrong_reads [OF log3_contract this r'] obtain new' where
    "list_all2 (agrees 16 (recs3 @ new')) (take (length bs) ?ops') bs" by blast
  ultimately show ?thesis using r r' by blast
qed

end
