(* ===== verification/StreamLayer.thy ===== *)
theory StreamLayer
  imports Fsm
begin

text \<open>
  The stream layer of Raft (src/internal/log/distributed.go, \<^verbatim>\<open>StreamLayer\<close>) and the function by which
  the agent recognises its connections (src/internal/agent/agent.go, \<^verbatim>\<open>setupLog\<close>). Raft and gRPC share
  one port: a connection of Raft starts with the byte \<^verbatim>\<open>RaftRPC\<close>. A connection is a pair of byte
  streams; what the network does (whether dialling, accepting and writing succeed) is given by
  parameters. TLS is applied on top and appears as a constructor with its configuration \<open>'t\<close>.
\<close>

section \<open>Connections\<close>

record raw_conn =
  rw_in :: stream
  rw_out :: bytes

datatype 't conn = Plain raw_conn | TLSClient 't raw_conn | TLSServer 't raw_conn

fun raw :: "'t conn \<Rightarrow> raw_conn" where
  "raw (Plain c) = c"
| "raw (TLSClient t c) = c"
| "raw (TLSServer t c) = c"

text \<open>Writing appends to the outgoing stream unless the network fails; reading one byte waits for it.\<close>

definition conn_Write :: "bytes \<Rightarrow> goerr option \<Rightarrow> raw_conn \<Rightarrow> goerr option \<times> raw_conn" where
  "conn_Write b fault c = (case fault of Some e \<Rightarrow> (Some e, c) | None \<Rightarrow> (None, c\<lparr>rw_out := rw_out c @ b\<rparr>))"

fun read_byte :: "stream \<Rightarrow> (goerr + u8) \<times> stream" where
  "read_byte (Stream [] err) = (Inl err, Stream [] err)"
| "read_byte (Stream (b # bs) err) = (Inr b, Stream bs err)"

section \<open>The stream layer\<close>

record ('a, 't) StreamLayer =
  sl_ln :: 'a
  sl_serverTLSConfig :: "'t option"
  sl_peerTLSConfig :: "'t option"

definition NewStreamLayer :: "'a \<Rightarrow> 't option \<Rightarrow> 't option \<Rightarrow> ('a, 't) StreamLayer" where
  "NewStreamLayer ln serverTLSConfig peerTLSConfig =
     \<lparr>sl_ln = ln, sl_serverTLSConfig = serverTLSConfig, sl_peerTLSConfig = peerTLSConfig\<rparr>"

definition RaftRPC :: u8 where
  "RaftRPC = 1"

text \<open>\<open>dial\<close> is the dialler with its timeout, \<open>fault\<close> the error of the write, if it fails.\<close>

definition StreamLayer_Dial ::
  "(string \<Rightarrow> goerr + raw_conn) \<Rightarrow> goerr option \<Rightarrow> string \<Rightarrow> ('a, 't) StreamLayer \<Rightarrow> goerr + 't conn" where
  "StreamLayer_Dial dial fault addr s = (case dial addr of
     Inl e \<Rightarrow> Inl e
   | Inr c \<Rightarrow> (case conn_Write [RaftRPC] fault c of
       (Some e, _) \<Rightarrow> Inl e
     | (None, c') \<Rightarrow> Inr (case sl_peerTLSConfig s of None \<Rightarrow> Plain c' | Some t \<Rightarrow> TLSClient t c')))"

definition StreamLayer_Accept ::
  "('a \<Rightarrow> (goerr + raw_conn) \<times> 'a) \<Rightarrow> ('a, 't) StreamLayer \<Rightarrow> (goerr + 't conn) \<times> ('a, 't) StreamLayer" where
  "StreamLayer_Accept accept s0 = (case accept (sl_ln s0) of (res, ln) \<Rightarrow>
     (let s = s0\<lparr>sl_ln := ln\<rparr>
      in case res of
           Inl e \<Rightarrow> (Inl e, s)
         | Inr c \<Rightarrow> (case read_byte (rw_in c) of
             (Inl e, _) \<Rightarrow> (Inl e, s)
           | (Inr b, rest) \<Rightarrow>
               (if [RaftRPC] \<noteq> [b] then (Inl (Errorf ''not a raft rpc''), s)
                else (let c' = c\<lparr>rw_in := rest\<rparr>
                      in case sl_serverTLSConfig s of
                           Some t \<Rightarrow> (Inr (TLSServer t c'), s)
                         | None \<Rightarrow> (Inr (Plain c'), s))))))"

definition StreamLayer_Close :: "('a \<Rightarrow> goerr option \<times> 'a) \<Rightarrow> ('a, 't) StreamLayer \<Rightarrow> goerr option \<times> ('a, 't) StreamLayer" where
  "StreamLayer_Close close s = (case close (sl_ln s) of (err, ln) \<Rightarrow> (err, s\<lparr>sl_ln := ln\<rparr>))"

definition StreamLayer_Addr :: "('a \<Rightarrow> string) \<Rightarrow> ('a, 't) StreamLayer \<Rightarrow> string" where
  "StreamLayer_Addr addr s = addr (sl_ln s)"

section \<open>Sharing the port\<close>

text \<open>The matcher that the agent registers for Raft; a failed read does not match.\<close>

definition raft_match :: "stream \<Rightarrow> bool" where
  "raft_match r = (case fst (read_byte r) of Inl _ \<Rightarrow> False | Inr b \<Rightarrow> [b] = [RaftRPC])"

datatype service_kind = RaftService | GRPCService

text \<open>
  The multiplexer tries the matchers in the order of their registration, on a copy of what has
  arrived: the listener that gets the connection reads it from the beginning. The agent registers
  Raft first and then a matcher that takes everything.
\<close>

definition mux_dispatch :: "raw_conn \<Rightarrow> service_kind" where
  "mux_dispatch c = (if raft_match (rw_in c) then RaftService else GRPCService)"

section \<open>Both ends agree\<close>

lemma mux_dispatch_iff:
  "mux_dispatch c = RaftService \<longleftrightarrow> (\<exists>bs err. rw_in c = Stream (RaftRPC # bs) err)"
  by (cases "rw_in c" rule: read_byte.cases) (auto simp: mux_dispatch_def raft_match_def)

lemma StreamLayer_Dial_ok:
  "dial addr = Inr c \<Longrightarrow> \<exists>conn. StreamLayer_Dial dial None addr s = Inr conn \<and>
     raw conn = c\<lparr>rw_out := rw_out c @ [RaftRPC]\<rparr> \<and>
     conn = (case sl_peerTLSConfig s of None \<Rightarrow> Plain (raw conn) | Some t \<Rightarrow> TLSClient t (raw conn))"
  by (auto simp: StreamLayer_Dial_def conn_Write_def split: option.splits)

lemma StreamLayer_Accept_raft:
  assumes "accept (sl_ln s) = (Inr c, ln)" "rw_in c = Stream (RaftRPC # bs) err"
  shows "\<exists>conn. StreamLayer_Accept accept s = (Inr conn, s\<lparr>sl_ln := ln\<rparr>) \<and> raw conn = c\<lparr>rw_in := Stream bs err\<rparr> \<and>
    conn = (case sl_serverTLSConfig s of None \<Rightarrow> Plain (raw conn) | Some t \<Rightarrow> TLSServer t (raw conn))"
  using assms by (auto simp: StreamLayer_Accept_def Let_def split: option.splits)

end
