(* ===== verification/Net.thy ===== *)
theory Net
  imports GoOS
begin

text \<open>
  What the program uses of Go's package \<^verbatim>\<open>net\<close> to take addresses apart: \<^verbatim>\<open>net.SplitHostPort\<close>.
\<close>

definition index_byte :: "char \<Rightarrow> string \<Rightarrow> nat option" where
  "index_byte c s = (if c \<in> set s then Some (length (takeWhile (\<lambda>b. b \<noteq> c) s)) else None)"

definition last_index :: "char \<Rightarrow> string \<Rightarrow> nat option" where
  "last_index c s = (if c \<in> set s then Some (length s - 1 - length (takeWhile (\<lambda>b. b \<noteq> c) (rev s))) else None)"

definition addr_err :: "string \<Rightarrow> string \<Rightarrow> goerr" where
  "addr_err addr why = Errorf (''address '' @ addr @ '': '' @ why)"

definition missingPort :: string where "missingPort = ''missing port in address''"

definition tooManyColons :: string where "tooManyColons = ''too many colons in address''"

definition SplitHostPort :: "string \<Rightarrow> goerr + string \<times> string" where
  "SplitHostPort s = (case last_index CHR '':'' s of
     None \<Rightarrow> Inl (addr_err s missingPort)
   | Some i \<Rightarrow>
       (case (if s ! 0 = CHR ''['' then
                (case index_byte CHR '']'' s of
                   None \<Rightarrow> Inl (addr_err s ''missing ']' in address'')
                 | Some e \<Rightarrow>
                     (if e + 1 = length s then Inl (addr_err s missingPort)
                      else if e + 1 = i then Inr (take (e - 1) (drop 1 s), 1, e + 1)
                      else if s ! (e + 1) = CHR '':'' then Inl (addr_err s tooManyColons)
                      else Inl (addr_err s missingPort)))
              else if CHR '':'' \<in> set (take i s) then Inl (addr_err s tooManyColons)
              else Inr (take i s, 0, 0)) of
          Inl err \<Rightarrow> Inl err
        | Inr (host, j, k) \<Rightarrow>
            (if CHR ''['' \<in> set (drop j s) then Inl (addr_err s ''unexpected '[' in address'')
             else if CHR '']'' \<in> set (drop k s) then Inl (addr_err s ''unexpected ']' in address'')
             else Inr (host, drop (i + 1) s))))"

definition plain_addr :: "string \<Rightarrow> bool" where
  "plain_addr s \<longleftrightarrow> CHR '':'' \<notin> set s \<and> CHR ''['' \<notin> set s \<and> CHR '']'' \<notin> set s"

lemma takeWhile_miss: "c \<notin> set xs \<Longrightarrow> takeWhile (\<lambda>b. b \<noteq> c) (xs @ c # ys) = xs"
  by (induction xs) auto

lemma index_byte_append: "c \<notin> set xs \<Longrightarrow> index_byte c (xs @ c # ys) = Some (length xs)"
  by (simp add: index_byte_def takeWhile_miss)

lemma last_index_append: "c \<notin> set ys \<Longrightarrow> last_index c (xs @ c # ys) = Some (length xs)"
  using takeWhile_miss [of c "rev ys" "rev xs"] by (simp add: last_index_def)

lemma last_index_none [simp]: "c \<notin> set s \<Longrightarrow> last_index c s = None"
  by (simp add: last_index_def)

text \<open>A host name or an IPv4 address, and an address in brackets.\<close>

lemma SplitHostPort_plain:
  assumes "plain_addr host" "plain_addr port"
  shows "SplitHostPort (host @ CHR '':'' # port) = Inr (host, port)"
proof -
  have "(host @ CHR '':'' # port) ! 0 \<noteq> CHR ''[''" using assms(1) by (cases host) (auto simp: plain_addr_def)
  then show ?thesis
    using assms last_index_append [of "CHR '':''" port host] by (auto simp: SplitHostPort_def plain_addr_def)
qed

lemma SplitHostPort_brackets:
  assumes "CHR ''['' \<notin> set host" "CHR '']'' \<notin> set host" "plain_addr port"
  shows "SplitHostPort (CHR ''['' # host @ CHR '']'' # CHR '':'' # port) = Inr (host, port)"
proof -
  let ?s = "CHR ''['' # host @ CHR '']'' # CHR '':'' # port"
  have "last_index CHR '':'' ?s = Some (length host + 2)"
    using last_index_append [of "CHR '':''" port "CHR ''['' # host @ [CHR '']'']"] assms(3) by (simp add: plain_addr_def)
  moreover have "index_byte CHR '']'' ?s = Some (length host + 1)"
    using index_byte_append [of "CHR '']''" "CHR ''['' # host" "CHR '':'' # port"] assms(2) by simp
  ultimately show ?thesis using assms by (simp add: SplitHostPort_def plain_addr_def)
qed

text \<open>Without the brackets, an address that has colons of its own is not understood.\<close>

lemma SplitHostPort_colons:
  assumes "CHR '':'' \<in> set host" "CHR ''['' \<notin> set host" "plain_addr port"
  shows "SplitHostPort (host @ CHR '':'' # port) = Inl (addr_err (host @ CHR '':'' # port) tooManyColons)"
proof -
  have "(host @ CHR '':'' # port) ! 0 \<noteq> CHR ''[''" using assms(1,2) by (cases host) auto
  then show ?thesis
    using assms last_index_append [of "CHR '':''" port host] by (simp add: SplitHostPort_def plain_addr_def)
qed

lemma dec_plain: "plain_addr (dec n)"
  using dec_digits [of _ n] by (force simp: plain_addr_def is_dec_def)

end
