(* ===== verification/Agent.thy ===== *)
theory Agent
  imports Membership Server StreamLayer Net
begin

text \<open>
  The agent (src/internal/agent/agent.go): it sets up the logger, the multiplexed listener, the
  distributed log, the gRPC server and the membership of a node, in this order, and shuts them down
  again. The libraries that it calls are in the record \<open>agentlib\<close>; the goroutines that serve
  connections are not part of the state.
\<close>

section \<open>Configuration\<close>

record 't agent_Config =
  ac_ServerTLSConfig :: "'t option"
  ac_PeerTLSConfig :: "'t option"
  ac_DataDir :: string
  ac_BindAddr :: string
  ac_RPCPort :: int
  ac_NodeName :: string
  ac_Bootstrap :: bool
  ac_StartJoinAddrs :: "string list option"
  ac_ACLModelFile :: string
  ac_ACLPolicyFile :: string

definition RPCAddr :: "'t agent_Config \<Rightarrow> goerr + string" where
  "RPCAddr c = (case SplitHostPort (ac_BindAddr c) of
     Inl e \<Rightarrow> Inl e
   | Inr (host, _) \<Rightarrow> Inr (host @ '':'' @ dec_int (ac_RPCPort c)))"

section \<open>The distributed log behind the service\<close>

text \<open>The distributed log is both the \<^verbatim>\<open>CommitLog\<close> and the \<^verbatim>\<open>GetServerer\<close> of the server.\<close>

definition dlog_server ::
  "dext \<Rightarrow> 'r raftlib \<Rightarrow> Authorizer \<Rightarrow> ('r DistributedLog \<times> world) server_Config" where
  "dlog_server dx rf au =
     \<lparr>sc_CommitLog = \<lparr>cl_Append = (\<lambda>r (d, w). DistributedLog_Append dx rf r d w),
                      cl_Read = (\<lambda>off (d, w). DistributedLog_Read (dx_ext dx) off d w)\<rparr>,
      sc_Authorizer = au,
      sc_GetServerer = (\<lambda>(d, w). case DistributedLog_GetServers rf d of (res, d') \<Rightarrow> (res, d', w))\<rparr>"

section \<open>State and libraries\<close>

text \<open>
  A field is \<open>None\<close> until its setup has run. \<open>ag_mux\<close> is the address that the multiplexer listens on,
  \<open>ag_creds\<close> the TLS configuration that the gRPC server was created with, and \<open>ag_stopped\<close> says that the
  server was stopped.
\<close>

record ('r, 'q, 't) Agent =
  ag_Config :: "'t agent_Config"
  ag_mux :: "string option"
  ag_stream :: "(service_kind, 't) StreamLayer option"
  ag_log :: "'r DistributedLog option"
  ag_creds :: "'t option"
  ag_server :: "('r DistributedLog \<times> world) grpcServer option"
  ag_stopped :: bool
  ag_membership :: "'q Membership option"
  ag_shutdown :: bool

text \<open>
  \<open>al_ticks\<close> are the states of Raft at the ticks while the agent waits for a leader; after them the
  timer of three seconds fires.
\<close>

record ('r, 'q) agentlib =
  al_NewDevelopment :: "goerr option"
  al_Listen :: "string \<Rightarrow> goerr option"
  al_NewEnforcer :: "string \<Rightarrow> string \<Rightarrow> goerr + enforcer"
  al_view_Register :: "goerr option"
  al_dext :: dext
  al_raft :: "'r raftlib"
  al_serf :: "'q serflib"
  al_ticks :: "'r list"

section \<open>Setting up\<close>

type_synonym ('r, 'q, 't) setup_fn = "('r, 'q, 't) Agent \<Rightarrow> world \<Rightarrow> goerr option \<times> ('r, 'q, 't) Agent \<times> world"

definition setupLogger :: "('r, 'q) agentlib \<Rightarrow> ('r, 'q, 't) setup_fn" where
  "setupLogger al a w = (al_NewDevelopment al, a, w)"

definition setupMux :: "('r, 'q) agentlib \<Rightarrow> ('r, 'q, 't) setup_fn" where
  "setupMux al a w = (case net_ResolveTCPAddr (al_serf al) (ac_BindAddr (ag_Config a)) of
     Inl e \<Rightarrow> (Some e, a, w)
   | Inr (ip, _) \<Rightarrow>
       (let rpcAddr = ip @ '':'' @ dec_int (ac_RPCPort (ag_Config a))
        in case al_Listen al rpcAddr of
             Some e \<Rightarrow> (Some e, a, w)
           | None \<Rightarrow> (None, a\<lparr>ag_mux := Some rpcAddr\<rparr>, w)))"

text \<open>The log gets the zero configuration but for what the agent sets; see \<open>config_defaults\<close>.\<close>

definition log_Config :: "'t agent_Config \<Rightarrow> string \<Rightarrow> dlog_Config" where
  "log_Config c rpcAddr =
     \<lparr>dc_Segment = \<lparr>MaxStoreBytes = 0, MaxIndexBytes = 0, InitialOffset = 0\<rparr>,
      dc_Raft = \<lparr>rc_LocalID = ac_NodeName c, rc_HeartbeatTimeout = 0, rc_ElectionTimeout = 0,
                 rc_LeaderLeaseTimeout = 0, rc_CommitTimeout = 0\<rparr>,
      dc_BindAddr = rpcAddr, dc_Bootstrap = ac_Bootstrap c\<rparr>"

fun raft_after :: "'r raftlib \<Rightarrow> 'r list \<Rightarrow> 'r \<Rightarrow> 'r" where
  "raft_after rf [] r = r"
| "raft_after rf (t # ts) r = (if rf_Leader rf t \<noteq> '''' then t else raft_after rf ts t)"

definition Agent_setupLog :: "('r, 'q) agentlib \<Rightarrow> ('r, 'q, 't) setup_fn" where
  "Agent_setupLog al a0 w0 =
     (let c = ag_Config a0;
          a = a0\<lparr>ag_stream := Some (NewStreamLayer RaftService (ac_ServerTLSConfig c) (ac_PeerTLSConfig c))\<rparr>
      in case RPCAddr c of
           Inl e \<Rightarrow> (Some e, a, w0)
         | Inr rpcAddr \<Rightarrow>
             (case NewDistributedLog (dx_ext (al_dext al)) (al_raft al) (ac_DataDir c) (log_Config c rpcAddr) w0 of
                (Inl e, w) \<Rightarrow> (Some e, a, w)
              | (Inr d, w) \<Rightarrow>
                  (if ac_Bootstrap c then
                     (case WaitForLeader (al_raft al) (map Tick (al_ticks al) @ [Timeout]) of
                        Some err \<Rightarrow> (err, a\<lparr>ag_log := Some (d\<lparr>dl_raft := raft_after (al_raft al) (al_ticks al) (dl_raft d)\<rparr>)\<rparr>, w)
                      | None \<Rightarrow> (Some (Errorf ''timed out''), a\<lparr>ag_log := Some d\<rparr>, w))
                   else (None, a\<lparr>ag_log := Some d\<rparr>, w))))"

definition setupServer :: "('r, 'q) agentlib \<Rightarrow> ('r, 'q, 't) setup_fn" where
  "setupServer al a w = (case Auth_New (al_NewEnforcer al) (ac_ACLModelFile (ag_Config a)) (ac_ACLPolicyFile (ag_Config a)) of
     Inl e \<Rightarrow> (Some e, a, w)
   | Inr authorizer \<Rightarrow>
       (case NewGRPCServer (al_view_Register al) (dlog_server (al_dext al) (al_raft al) authorizer) of
          Inl e \<Rightarrow> (Some e, a, w)
        | Inr srv \<Rightarrow> (None, a\<lparr>ag_server := Some srv, ag_creds := ac_ServerTLSConfig (ag_Config a)\<rparr>, w)))"

definition setupMembership :: "('r, 'q) agentlib \<Rightarrow> ('r, 'q, 't) setup_fn" where
  "setupMembership al a w =
     (let c = ag_Config a
      in case RPCAddr c of
           Inl e \<Rightarrow> (Some e, a, w)
         | Inr rpcAddr \<Rightarrow>
             (case NewMembership (al_serf al)
                \<lparr>mc_NodeName = ac_NodeName c, mc_BindAddr = ac_BindAddr c, mc_Tags = [''rpc_addr'' \<mapsto> rpcAddr],
                 mc_StartJoinAddrs = ac_StartJoinAddrs c\<rparr> of
                Inl e \<Rightarrow> (Some e, a, w)
              | Inr m \<Rightarrow> (None, a\<lparr>ag_membership := Some m\<rparr>, w)))"

fun run_setup :: "('r, 'q, 't) setup_fn list \<Rightarrow> ('r, 'q, 't) setup_fn" where
  "run_setup [] a w = (None, a, w)"
| "run_setup (fn # fns) a w0 = (case fn a w0 of
     (Some e, a', w) \<Rightarrow> (Some e, a', w)
   | (None, a', w) \<Rightarrow> run_setup fns a' w)"

definition NewAgent ::
  "('r, 'q) agentlib \<Rightarrow> 't agent_Config \<Rightarrow> world \<Rightarrow> (goerr + ('r, 'q, 't) Agent) \<times> world" where
  "NewAgent al config w0 =
     (case run_setup [setupLogger al, setupMux al, Agent_setupLog al, setupServer al, setupMembership al]
        \<lparr>ag_Config = config, ag_mux = None, ag_stream = None, ag_log = None, ag_creds = None, ag_server = None,
         ag_stopped = False, ag_membership = None, ag_shutdown = False\<rparr> w0 of
        (Some e, _, w) \<Rightarrow> (Inl e, w)
      | (None, a, w) \<Rightarrow> (Inr a, w))"

section \<open>Shutting down\<close>

text \<open>
  A method called on a component that is not there yet dereferences a nil pointer. \<open>w\<close> is the world in
  which the log lives.
\<close>

definition Shutdown :: "('r, 'q) agentlib \<Rightarrow> ('r, 'q, 't) Agent \<Rightarrow> world \<Rightarrow> goerr option \<times> ('r, 'q, 't) Agent \<times> world" where
  "Shutdown al a0 w0 =
     (if ag_shutdown a0 then (None, a0, w0)
      else let a = a0\<lparr>ag_shutdown := True\<rparr> in
        (case ag_membership a of
           None \<Rightarrow> (Some (Panic ''nil pointer dereference''), a, w0)
         | Some m \<Rightarrow> (case Membership_Leave (al_serf al) m of
             (Some e, m') \<Rightarrow> (Some e, a\<lparr>ag_membership := Some m'\<rparr>, w0)
           | (None, m') \<Rightarrow>
               (let a1 = a\<lparr>ag_membership := Some m'\<rparr>
                in case ag_server a1 of
                     None \<Rightarrow> (Some (Panic ''nil pointer dereference''), a1, w0)
                   | Some srv \<Rightarrow>
                       (let a2 = a1\<lparr>ag_stopped := True\<rparr>
                        in case ag_log a2 of
                             None \<Rightarrow> (Some (Panic ''nil pointer dereference''), a2, w0)
                           | Some d \<Rightarrow> (case DistributedLog_Close (dx_ext (al_dext al)) (al_raft al) d w0 of
                               (err, d', w) \<Rightarrow> (err, a2\<lparr>ag_log := Some d'\<rparr>, w)))))))"

text \<open>\<^verbatim>\<open>serve\<close> shuts the agent down when the multiplexer stops with an error.\<close>

definition serve :: "('r, 'q) agentlib \<Rightarrow> goerr option \<Rightarrow> ('r, 'q, 't) Agent \<Rightarrow> world \<Rightarrow> goerr option \<times> ('r, 'q, 't) Agent \<times> world" where
  "serve al mux_Serve a w = (case mux_Serve of
     Some e \<Rightarrow> (case Shutdown al a w of (_, a', w') \<Rightarrow> (Some e, a', w'))
   | None \<Rightarrow> (None, a, w))"


section \<open>Addresses\<close>

lemma RPCAddr_plain:
  assumes "ac_BindAddr c = host @ '':'' @ port" "plain_addr host" "plain_addr port"
  shows "RPCAddr c = Inr (host @ '':'' @ dec_int (ac_RPCPort c))"
  using SplitHostPort_plain [OF assms(2,3)] assms(1) by (simp add: RPCAddr_def)

lemma RPCAddr_brackets:
  assumes "ac_BindAddr c = ''['' @ host @ '']:'' @ port" "CHR ''['' \<notin> set host" "CHR '']'' \<notin> set host" "plain_addr port"
  shows "RPCAddr c = Inr (host @ '':'' @ dec_int (ac_RPCPort c))"
  using SplitHostPort_brackets [OF assms(2-4)] assms(1) by (simp add: RPCAddr_def)

lemma dec_int_plain: "plain_addr (dec_int n)"
  using dec_plain by (simp add: dec_int_def plain_addr_def)

section \<open>The service over the distributed log\<close>

interpretation dls: service "\<lambda>r (d, w). DistributedLog_Append dx rf r d w"
  "\<lambda>off (d, w). DistributedLog_Read (dx_ext dx) off d w" "dlog_contract dx rf lead" log_stamp "dlog_fits dx"
  "dlog_server dx rf au" for dx rf lead au
  by unfold_locales (simp add: dlog_server_def)

section \<open>Waiting for a leader\<close>

lemma WaitForLeader_returns:
  "WaitForLeader rf (map Tick ts @ [Timeout]) =
     Some (if \<exists>t \<in> set ts. rf_Leader rf t \<noteq> '''' then None else Some (Errorf ''timed out''))"
  by (induction ts) auto

section \<open>A running agent\<close>

text \<open>What the agent has put together: every component is there and the names and addresses agree.\<close>

definition wired :: "('r, 'q) agentlib \<Rightarrow> ('r, 'q, 't) Agent \<Rightarrow> bool" where
  "wired al a \<longleftrightarrow> (\<exists>addr d srv m au. RPCAddr (ag_Config a) = Inr addr \<and>
     ag_log a = Some d \<and> dl_config d = log_Config (ag_Config a) addr \<and>
     Auth_New (al_NewEnforcer al) (ac_ACLModelFile (ag_Config a)) (ac_ACLPolicyFile (ag_Config a)) = Inr au \<and>
     ag_server a = Some srv \<and> gs_Config srv = dlog_server (al_dext al) (al_raft al) au \<and>
     ag_creds a = ac_ServerTLSConfig (ag_Config a) \<and>
     ag_membership a = Some m \<and> mc_NodeName (ms_Config m) = rc_LocalID (dc_Raft (dl_config d)) \<and>
     mc_Tags (ms_Config m) = [''rpc_addr'' \<mapsto> dc_BindAddr (dl_config d)] \<and> \<not> ag_shutdown a)"

lemma NewDistributedLog_config:
  "NewDistributedLog x rf dir c w = (Inr d, w') \<Longrightarrow> dl_config d = c"
  by (auto simp: NewDistributedLog_def split: prod.splits sum.splits)

lemma run_setup_Cons:
  "run_setup (fn # fns) a w = (None, a', w') \<longleftrightarrow>
     (\<exists>a1 w1. fn a w = (None, a1, w1) \<and> run_setup fns a1 w1 = (None, a', w'))"
  by (auto split: prod.splits option.splits)

lemma setup_steps:
  "setupLogger al a w = (None, a', w') \<Longrightarrow> a' = a"
  "setupMux al a w = (None, a', w') \<Longrightarrow> \<exists>addr. a' = a\<lparr>ag_mux := addr\<rparr>"
  "Agent_setupLog al a w = (None, a', w') \<Longrightarrow> \<exists>addr st d. RPCAddr (ag_Config a) = Inr addr \<and>
     dl_config d = log_Config (ag_Config a) addr \<and> a' = a\<lparr>ag_stream := st, ag_log := Some d\<rparr>"
  "setupServer al a w = (None, a', w') \<Longrightarrow> \<exists>au srv. gs_Config srv = dlog_server (al_dext al) (al_raft al) au \<and>
     Auth_New (al_NewEnforcer al) (ac_ACLModelFile (ag_Config a)) (ac_ACLPolicyFile (ag_Config a)) = Inr au \<and>
     a' = a\<lparr>ag_server := Some srv, ag_creds := ac_ServerTLSConfig (ag_Config a)\<rparr>"
  "setupMembership al a w = (None, a', w') \<Longrightarrow> \<exists>addr m. RPCAddr (ag_Config a) = Inr addr \<and>
     mc_NodeName (ms_Config m) = ac_NodeName (ag_Config a) \<and> mc_Tags (ms_Config m) = [''rpc_addr'' \<mapsto> addr] \<and>
     a' = a\<lparr>ag_membership := Some m\<rparr>"
proof -
  show "setupLogger al a w = (None, a', w') \<Longrightarrow> a' = a" by (simp add: setupLogger_def)
  show "setupMux al a w = (None, a', w') \<Longrightarrow> \<exists>addr. a' = a\<lparr>ag_mux := addr\<rparr>"
    by (auto simp: setupMux_def Let_def split: sum.splits option.splits)
  show "\<exists>addr st d. RPCAddr (ag_Config a) = Inr addr \<and> dl_config d = log_Config (ag_Config a) addr \<and>
      a' = a\<lparr>ag_stream := st, ag_log := Some d\<rparr>" if "Agent_setupLog al a w = (None, a', w')"
    using that by (auto simp: Agent_setupLog_def Let_def WaitForLeader_returns dest: NewDistributedLog_config
        split: sum.splits prod.splits if_splits) (metis DistributedLog.select_convs(1) DistributedLog.surjective DistributedLog.update_convs(3) NewDistributedLog_config)+
  show "\<exists>au srv. gs_Config srv = dlog_server (al_dext al) (al_raft al) au \<and>
     Auth_New (al_NewEnforcer al) (ac_ACLModelFile (ag_Config a)) (ac_ACLPolicyFile (ag_Config a)) = Inr au \<and>
     a' = a\<lparr>ag_server := Some srv, ag_creds := ac_ServerTLSConfig (ag_Config a)\<rparr>" if "setupServer al a w = (None, a', w')"
    using that by (auto simp: setupServer_def NewGRPCServer_def newgrpcServer_def split: sum.splits option.splits)
      (rule exI, rule conjI [rotated], rule refl, simp)
  show "\<exists>addr m. RPCAddr (ag_Config a) = Inr addr \<and>
     mc_NodeName (ms_Config m) = ac_NodeName (ag_Config a) \<and> mc_Tags (ms_Config m) = [''rpc_addr'' \<mapsto> addr] \<and>
     a' = a\<lparr>ag_membership := Some m\<rparr>" if "setupMembership al a w = (None, a', w')"
    using that by (auto simp: setupMembership_def NewMembership_def Let_def split: sum.splits)
      (rule exI, rule conjI [rotated], rule conjI [rotated], rule refl, simp_all)
qed

lemma NewAgent_wired:
  assumes "NewAgent al config w = (Inr a, w')"
  shows "wired al a \<and> ag_Config a = config"
proof -
  define a0 :: "('a, 'b, 'c) Agent" where "a0 = \<lparr>ag_Config = config, ag_mux = None, ag_stream = None, ag_log = None,
    ag_creds = None, ag_server = None, ag_stopped = False, ag_membership = None, ag_shutdown = False\<rparr>"
  have "run_setup [setupLogger al, setupMux al, Agent_setupLog al, setupServer al, setupMembership al] a0 w = (None, a, w')"
    using assms by (auto simp: NewAgent_def a0_def split: prod.splits option.splits)
  then obtain a1 w1 a2 w2 a3 w3 a4 w4 where s: "setupLogger al a0 w = (None, a1, w1)"
    "setupMux al a1 w1 = (None, a2, w2)" "Agent_setupLog al a2 w2 = (None, a3, w3)"
    "setupServer al a3 w3 = (None, a4, w4)" "\<exists>a5 w5. setupMembership al a4 w4 = (None, a5, w5) \<and> a = a5"
    unfolding run_setup_Cons by auto
  obtain mux where 2: "a2 = a0\<lparr>ag_mux := mux\<rparr>" using setup_steps(1) [OF s(1)] setup_steps(2) [OF s(2)] by blast
  obtain addr st d where 3: "RPCAddr (ag_Config a2) = Inr addr" "dl_config d = log_Config (ag_Config a2) addr"
    "a3 = a2\<lparr>ag_stream := st, ag_log := Some d\<rparr>" using setup_steps(3) [OF s(3)] by blast
  obtain au srv where 4: "gs_Config srv = dlog_server (al_dext al) (al_raft al) au"
    "Auth_New (al_NewEnforcer al) (ac_ACLModelFile (ag_Config a3)) (ac_ACLPolicyFile (ag_Config a3)) = Inr au"
    "a4 = a3\<lparr>ag_server := Some srv, ag_creds := ac_ServerTLSConfig (ag_Config a3)\<rparr>"
    using setup_steps(4) [OF s(4)] by blast
  obtain addr' m where 5: "RPCAddr (ag_Config a4) = Inr addr'" "mc_NodeName (ms_Config m) = ac_NodeName (ag_Config a4)"
    "mc_Tags (ms_Config m) = [''rpc_addr'' \<mapsto> addr']" "a = a4\<lparr>ag_membership := Some m\<rparr>"
    using s(5) setup_steps(5) [of al a4 w4] by blast
  have "addr' = addr" using 3(1,3) 4(3) 5(1) by simp
  then show ?thesis using 2 3 4 5 unfolding wired_def
    by (intro conjI exI [of _ addr] exI [of _ d] exI [of _ srv] exI [of _ m] exI [of _ au])
       (simp_all add: a0_def log_Config_def)
qed

section \<open>Shutting down and starting again\<close>

text \<open>
  A shutdown that succeeds has closed the log: opening the directory again finds the same records.
\<close>

lemma config_defaults_idem: "config_defaults (config_defaults c) = config_defaults c"
  by (simp add: config_defaults_def Let_def)

lemma setupLog_reopen:
  assumes c: "log_contract x (l, w) lo rs" and dir: "lg_Dir l = path_Join [dataDir, ''log'']"
    and cf: "lg_Config l = config_defaults (dc_Segment c)"
  shows "\<exists>l1 w1 l2 w2. Log_Close x l w = (None, l1, w1) \<and> DistributedLog_setupLog x dataDir c w1 = (Inr l2, w2) \<and>
    log_contract x (l2, w2) lo rs"
proof -
  obtain rss where rep: "log_rep x l w rss" and "codec_ok x" and x: "mmap_ok x" by (rule log_contractE [OF c])
  obtain l1 w1 l2 w2 where 1: "Log_Close x l w = (None, l1, w1)"
    "NewLog x (lg_Dir l) (lg_Config l) w1 = (None, l2, w2)" "log_contract x (l2, w2) lo rs"
    using Log_close_reopen_contract [OF c] by blast
  obtain bs where "log_disk x (lg_Dir l) (lg_Config l) bs w1 rss" using Log_Close_rep [OF rep x] 1(1) by auto
  then have "quiet w1" "fs w1 (lg_Dir l) \<noteq> None" by (auto simp: log_disk_def names_def)
  then have mk: "os_MkdirAll (lg_Dir l) w1 = (None, w1)" by (auto simp: os_MkdirAll_def take_fault_def quiet_def)
  moreover have "NewLog x (lg_Dir l) (dc_Segment c) w1 = (None, l2, w2)"
    using 1(2) unfolding cf by (simp add: NewLog_def config_defaults_idem)
  ultimately show ?thesis using 1 by (simp add: DistributedLog_setupLog_def dir)
qed

lemma Shutdown_ok:
  assumes "ag_log a = Some d" "ag_server a = Some srv" "ag_membership a = Some m" "\<not> ag_shutdown a"
    and "Membership_Leave (al_serf al) m = (None, m')" "rf_Shutdown (al_raft al) (dl_raft d) = (None, r)"
    and "Log_Close (dx_ext (al_dext al)) (dl_log d) w = (None, l, w')"
  shows "Shutdown al a w = (None, a\<lparr>ag_shutdown := True, ag_membership := Some m', ag_stopped := True,
    ag_log := Some (d\<lparr>dl_raft := r, dl_log := l\<rparr>)\<rparr>, w')"
  using assms by (simp add: Shutdown_def Let_def DistributedLog_Close_def)

lemma Shutdown_twice:
  "Shutdown al a w = (err, a', w') \<Longrightarrow> Shutdown al a' w'' = (None, a', w'')"
  by (auto simp: Shutdown_def Let_def split: if_splits option.splits prod.splits)

end
