(* ===== verification/Configuration.thy ===== *)
theory Configuration
  imports GoOS
begin

text \<open>
  The configuration package (src/internal/config): where the files with certificates and policies are
  found (files.go), and how a TLS configuration is put together from them (tls.go). The cryptographic
  library is a parameter, over certificates \<open>'c\<close> and certificate pools \<open>'p\<close>.
\<close>

section \<open>Files\<close>

text \<open>An environment variable that is not set reads as the empty string.\<close>

type_synonym environ = "string \<Rightarrow> string option"

definition os_Getenv :: "environ \<Rightarrow> string \<Rightarrow> string" where
  "os_Getenv env v = (case env v of None \<Rightarrow> [] | Some s \<Rightarrow> s)"

definition os_UserHomeDir :: "environ \<Rightarrow> goerr + string" where
  "os_UserHomeDir env = (let h = os_Getenv env ''HOME''
     in if h = [] then Inl (Errorf ''$HOME is not defined'') else Inr h)"

definition configFile :: "environ \<Rightarrow> string \<Rightarrow> goerr + string" where
  "configFile env filename =
     (let dir = os_Getenv env ''CONFIG_DIR''
      in if dir \<noteq> [] then Inr (path_Join [dir, filename])
         else (case os_UserHomeDir env of
                 Inl e \<Rightarrow> Inl (Panic ''$HOME is not defined'')
               | Inr homeDir \<Rightarrow> Inr (path_Join [homeDir, ''projects'', ''.proglog'', filename])))"

text \<open>The variables of the package, initialised when the program starts.\<close>

definition config_files :: "environ \<Rightarrow> (string \<times> (goerr + string)) list" where
  "config_files env = map (\<lambda>(v, f). (v, configFile env f))
     [(''CAFile'', ''ca.pem''), (''ServerCertFile'', ''server.pem''), (''ServerKeyFile'', ''server-key.pem''),
      (''RootClientCertFile'', ''root-client.pem''), (''RootClientKeyFile'', ''root-client-key.pem''),
      (''NobodyClientCertFile'', ''nobody-client.pem''), (''NobodyClientKeyFile'', ''nobody-client-key.pem''),
      (''ACLModelFile'', ''model.conf''), (''ACLPolicyFile'', ''policy.csv'')]"

section \<open>TLS\<close>

record TLSConfig =
  tc_CertFile :: string
  tc_KeyFile :: string
  tc_CAFile :: string
  tc_ServerAddress :: string
  tc_Server :: bool

datatype client_auth = NoClientCert | RequireAndVerifyClientCert

record ('c, 'p) tls_Config =
  tls_Certificates :: "'c list"
  tls_ClientCAs :: "'p option"
  tls_ClientAuth :: client_auth
  tls_RootCAs :: "'p option"
  tls_ServerName :: string

text \<open>
  The calls: loading a key pair, reading a file, and parsing certificates into a new pool, which fails
  when there are none.
\<close>

record ('c, 'p) tlslib =
  tl_LoadX509KeyPair :: "string \<Rightarrow> string \<Rightarrow> goerr + 'c"
  tl_ReadFile :: "string \<Rightarrow> goerr + bytes"
  tl_AppendCertsFromPEM :: "bytes \<Rightarrow> 'p option"

definition tls_zero :: "('c, 'p) tls_Config" where
  "tls_zero = \<lparr>tls_Certificates = [], tls_ClientCAs = None, tls_ClientAuth = NoClientCert, tls_RootCAs = None,
               tls_ServerName = []\<rparr>"

text \<open>\<^verbatim>\<open>%q\<close> of a string of printable characters: quotes and backslashes are escaped.\<close>

definition go_quote :: "string \<Rightarrow> string" where
  "go_quote s = CHR 0x22 # concat (map (\<lambda>c. if c = CHR 0x22 \<or> c = CHR 0x5C then [CHR 0x5C, c] else [c]) s) @ [CHR 0x22]"

definition SetupTLSConfig :: "('c, 'p) tlslib \<Rightarrow> TLSConfig \<Rightarrow> goerr + ('c, 'p) tls_Config" where
  "SetupTLSConfig tb cfg =
     (case (if tc_CertFile cfg \<noteq> [] \<and> tc_KeyFile cfg \<noteq> [] then
              (case tl_LoadX509KeyPair tb (tc_CertFile cfg) (tc_KeyFile cfg) of
                 Inl e \<Rightarrow> Inl e
               | Inr cert \<Rightarrow> Inr (tls_zero\<lparr>tls_Certificates := [cert]\<rparr>))
            else Inr tls_zero) of
        Inl e \<Rightarrow> Inl e
      | Inr tlsCnf \<Rightarrow>
          (if tc_CAFile cfg \<noteq> [] then
             (case tl_ReadFile tb (tc_CAFile cfg) of
                Inl e \<Rightarrow> Inl e
              | Inr caContents \<Rightarrow> (case tl_AppendCertsFromPEM tb caContents of
                  None \<Rightarrow> Inl (Errorf (''failed to parse root certificate: '' @ go_quote (tc_CAFile cfg)))
                | Some ca \<Rightarrow>
                    Inr ((if tc_Server cfg
                          then tlsCnf\<lparr>tls_ClientCAs := Some ca, tls_ClientAuth := RequireAndVerifyClientCert\<rparr>
                          else tlsCnf\<lparr>tls_RootCAs := Some ca\<rparr>)\<lparr>tls_ServerName := tc_ServerAddress cfg\<rparr>)))
           else Inr tlsCnf))"

section \<open>What a configuration demands of clients\<close>

text \<open>A server configuration demands verified client certificates exactly when it names an authority.\<close>

lemma SetupTLSConfig_ClientAuth:
  assumes "SetupTLSConfig tb cfg = Inr t"
  shows "tls_ClientAuth t = RequireAndVerifyClientCert \<longleftrightarrow> tc_Server cfg \<and> tc_CAFile cfg \<noteq> []"
  using assms by (auto simp: SetupTLSConfig_def tls_zero_def split: if_splits sum.splits option.splits)

lemma SetupTLSConfig_pools:
  assumes "SetupTLSConfig tb cfg = Inr t"
  shows "tls_ClientCAs t \<noteq> None \<longleftrightarrow> tc_Server cfg \<and> tc_CAFile cfg \<noteq> []"
    and "tls_RootCAs t \<noteq> None \<longleftrightarrow> \<not> tc_Server cfg \<and> tc_CAFile cfg \<noteq> []"
    and "tls_Certificates t = [] \<longleftrightarrow> tc_CertFile cfg = [] \<or> tc_KeyFile cfg = []"
  using assms by (auto simp: SetupTLSConfig_def tls_zero_def split: if_splits sum.splits option.splits)

end
