(* ===== verification/Cli.thy ===== *)
theory Cli
  imports Agent Configuration
begin

text \<open>
  The command \<^verbatim>\<open>proglog\<close> (src/cmd/proglog/main.go): its flags, the configuration that it reads through
  viper, and the life of the agent. The command-line and configuration libraries are parameters:
  \<open>viper\<close> holds the values that the library returns for a key once the configuration file is read.
\<close>

section \<open>Flags\<close>

datatype flag_value = FString string | FInt int | FBool bool | FSlice "string list option"

text \<open>
  A failing \<^verbatim>\<open>os.Hostname\<close> ends the process through \<^verbatim>\<open>log.Fatal\<close>; binding the flags to viper may fail.
\<close>

definition setupFlags ::
  "goerr + string \<Rightarrow> string \<Rightarrow> goerr option \<Rightarrow> goerr + (string \<times> flag_value) list" where
  "setupFlags os_Hostname os_TempDir bindPFlags = (case os_Hostname of
     Inl e \<Rightarrow> Inl e
   | Inr hostname \<Rightarrow>
       (let flags =
          [(''config-file'', FString []),
           (''data-dir'', FString (path_Join [os_TempDir, ''proglog''])),
           (''node-name'', FString hostname),
           (''bind-addr'', FString ''127.0.0.1:8401''),
           (''rpc-port'', FInt 8400),
           (''start-join-addrs'', FSlice None),
           (''bootstrap'', FBool False),
           (''acl-model-file'', FString []),
           (''acl-policy-file'', FString []),
           (''server-tls-cert-file'', FString []),
           (''server-tls-key-file'', FString []),
           (''server-tls-ca-file'', FString []),
           (''peer-tls-cert-file'', FString []),
           (''peer-tls-key-file'', FString []),
           (''peer-tls-ca-file'', FString [])]
        in case bindPFlags of Some e \<Rightarrow> Inl e | None \<Rightarrow> Inr flags))"

section \<open>Configuration\<close>

datatype read_config = ReadOK | ConfigFileNotFoundError | OtherReadError goerr

record viper =
  vp_ReadInConfig :: "string \<Rightarrow> read_config"
  vp_GetString :: "string \<Rightarrow> string"
  vp_GetInt :: "string \<Rightarrow> int"
  vp_GetStringSlice :: "string \<Rightarrow> string list option"
  vp_GetBool :: "string \<Rightarrow> bool"

text \<open>
  The state of the command: the configuration of the agent and the two TLS configurations it is made
  from. A command starts with the zero value.
\<close>

record 't cfg =
  cfg_Config :: "'t agent_Config"
  cfg_ServerTLSConfig :: TLSConfig
  cfg_PeerTLSConfig :: TLSConfig

record 't cli = cli_cfg :: "'t cfg"

definition new_cli :: "'t cli" where
  "new_cli =
     (let tls = \<lparr>tc_CertFile = [], tc_KeyFile = [], tc_CAFile = [], tc_ServerAddress = [], tc_Server = False\<rparr>
      in \<lparr>cli_cfg = \<lparr>cfg_Config = \<lparr>ac_ServerTLSConfig = None, ac_PeerTLSConfig = None, ac_DataDir = [], ac_BindAddr = [],
                                ac_RPCPort = 0, ac_NodeName = [], ac_Bootstrap = False, ac_StartJoinAddrs = None,
                                ac_ACLModelFile = [], ac_ACLPolicyFile = []\<rparr>,
                     cfg_ServerTLSConfig = tls, cfg_PeerTLSConfig = tls\<rparr>\<rparr>)"

definition read_settings :: "viper \<Rightarrow> 't cfg \<Rightarrow> 't cfg" where
  "read_settings v g = g
     \<lparr>cfg_Config := (cfg_Config g)
        \<lparr>ac_DataDir := vp_GetString v ''data-dir'', ac_NodeName := vp_GetString v ''node-name'',
         ac_BindAddr := vp_GetString v ''bind-addr'', ac_RPCPort := vp_GetInt v ''rpc-port'',
         ac_StartJoinAddrs := vp_GetStringSlice v ''start-join-addrs'',
         ac_Bootstrap := vp_GetBool v ''bootstrap'',
         ac_ACLModelFile := vp_GetString v ''acl-mode-file'',
         ac_ACLPolicyFile := vp_GetString v ''acl-policy-file''\<rparr>,
      cfg_ServerTLSConfig := (cfg_ServerTLSConfig g)
        \<lparr>tc_CertFile := vp_GetString v ''server-tls-cert-file'', tc_KeyFile := vp_GetString v ''server-tls-key-file'',
         tc_CAFile := vp_GetString v ''server-tls-ca-file''\<rparr>,
      cfg_PeerTLSConfig := (cfg_PeerTLSConfig g)
        \<lparr>tc_CertFile := vp_GetString v ''peer-tls-cert-file'', tc_KeyFile := vp_GetString v ''peer-tls-key-file'',
         tc_CAFile := vp_GetString v ''peer-tls-ca-file''\<rparr>\<rparr>"

text \<open>A TLS configuration is set up when both its certificate and its key are given.\<close>

definition setup_server_tls ::
  "('c, 'p) tlslib \<Rightarrow> ('c, 'p) tls_Config cfg \<Rightarrow> goerr option \<times> ('c, 'p) tls_Config cfg" where
  "setup_server_tls tb g =
     (if tc_CertFile (cfg_ServerTLSConfig g) \<noteq> [] \<and> tc_KeyFile (cfg_ServerTLSConfig g) \<noteq> [] then
        (let g = g\<lparr>cfg_ServerTLSConfig := (cfg_ServerTLSConfig g)\<lparr>tc_Server := True\<rparr>\<rparr>
         in case SetupTLSConfig tb (cfg_ServerTLSConfig g) of
              Inl e \<Rightarrow> (Some e, g\<lparr>cfg_Config := (cfg_Config g)\<lparr>ac_ServerTLSConfig := None\<rparr>\<rparr>)
            | Inr t \<Rightarrow> (None, g\<lparr>cfg_Config := (cfg_Config g)\<lparr>ac_ServerTLSConfig := Some t\<rparr>\<rparr>))
      else (None, g))"

definition setup_peer_tls ::
  "('c, 'p) tlslib \<Rightarrow> ('c, 'p) tls_Config cfg \<Rightarrow> goerr option \<times> ('c, 'p) tls_Config cfg" where
  "setup_peer_tls tb g =
     (if tc_CertFile (cfg_PeerTLSConfig g) \<noteq> [] \<and> tc_KeyFile (cfg_PeerTLSConfig g) \<noteq> [] then
        (case SetupTLSConfig tb (cfg_PeerTLSConfig g) of
           Inl e \<Rightarrow> (Some e, g\<lparr>cfg_Config := (cfg_Config g)\<lparr>ac_PeerTLSConfig := None\<rparr>\<rparr>)
         | Inr t \<Rightarrow> (None, g\<lparr>cfg_Config := (cfg_Config g)\<lparr>ac_PeerTLSConfig := Some t\<rparr>\<rparr>))
      else (None, g))"

definition setupConfig ::
  "('c, 'p) tlslib \<Rightarrow> goerr + string \<Rightarrow> viper \<Rightarrow> ('c, 'p) tls_Config cli \<Rightarrow> goerr option \<times> ('c, 'p) tls_Config cli" where
  "setupConfig tb config_file v c = (case config_file of
     Inl e \<Rightarrow> (Some e, c)
   | Inr f \<Rightarrow> (case vp_ReadInConfig v f of
       OtherReadError e \<Rightarrow> (Some e, c)
     | _ \<Rightarrow> (case setup_server_tls tb (read_settings v (cli_cfg c)) of
         (Some e, g) \<Rightarrow> (Some e, c\<lparr>cli_cfg := g\<rparr>)
       | (None, g) \<Rightarrow> (case setup_peer_tls tb g of (err, g) \<Rightarrow> (err, c\<lparr>cli_cfg := g\<rparr>)))))"

section \<open>Running\<close>

text \<open>
  \<open>life\<close> is what happens to the agent and to the disk between the start and the signal.
\<close>

definition cli_run ::
  "('r, 'q) agentlib \<Rightarrow> 't cli \<Rightarrow> (('r, 'q, 't) Agent \<times> world \<Rightarrow> ('r, 'q, 't) Agent \<times> world) \<Rightarrow> world \<Rightarrow>
     goerr option \<times> world" where
  "cli_run al c life w0 = (case NewAgent al (cfg_Config (cli_cfg c)) w0 of
     (Inl e, w) \<Rightarrow> (Some e, w)
   | (Inr a, w) \<Rightarrow> (case life (a, w) of (a', w') \<Rightarrow> (case Shutdown al a' w' of (err, _, w'') \<Rightarrow> (err, w''))))"

section \<open>What reaches the agent\<close>

lemma setup_server_tls_ok:
  assumes "setup_server_tls tb g = (None, g')" "ac_ServerTLSConfig (cfg_Config g) = None"
  shows "ac_ServerTLSConfig (cfg_Config g') = None \<longleftrightarrow>
      tc_CertFile (cfg_ServerTLSConfig g) = [] \<or> tc_KeyFile (cfg_ServerTLSConfig g) = []"
    and "ac_ServerTLSConfig (cfg_Config g') = Some t \<Longrightarrow>
      SetupTLSConfig tb ((cfg_ServerTLSConfig g)\<lparr>tc_Server := True\<rparr>) = Inr t"
  using assms by (auto simp: setup_server_tls_def Let_def split: if_splits sum.splits)

lemma setup_peer_tls_server:
  "setup_peer_tls tb g = (err, g') \<Longrightarrow> ac_ServerTLSConfig (cfg_Config g') = ac_ServerTLSConfig (cfg_Config g)"
  by (auto simp: setup_peer_tls_def split: if_splits sum.splits)

text \<open>
  A server that is given certificates demands verified client certificates exactly when it is also
  given an authority.
\<close>

lemma setupConfig_server_tls:
  assumes "setupConfig tb cf v new_cli = (None, c)"
  defines "tls \<equiv> ac_ServerTLSConfig (cfg_Config (cli_cfg c))"
  shows "tls = None \<longleftrightarrow> vp_GetString v ''server-tls-cert-file'' = [] \<or> vp_GetString v ''server-tls-key-file'' = []"
    and "tls = Some t \<Longrightarrow> tls_ClientAuth t = RequireAndVerifyClientCert \<longleftrightarrow> vp_GetString v ''server-tls-ca-file'' \<noteq> []"
proof -
  obtain g g' where g: "setup_server_tls tb (read_settings v (cli_cfg new_cli)) = (None, g)" "setup_peer_tls tb g = (None, g')"
    "c = new_cli\<lparr>cli_cfg := g'\<rparr>"
    using assms by (auto simp: setupConfig_def split: sum.splits read_config.splits prod.splits option.splits)
  have tls: "tls = ac_ServerTLSConfig (cfg_Config g)" using g(3) setup_peer_tls_server [OF g(2)] by (simp add: tls_def)
  note ok = setup_server_tls_ok [OF g(1)]
  show "tls = None \<longleftrightarrow> vp_GetString v ''server-tls-cert-file'' = [] \<or> vp_GetString v ''server-tls-key-file'' = []"
    using ok(1) by (simp add: tls read_settings_def new_cli_def Let_def)
  show "tls_ClientAuth t = RequireAndVerifyClientCert \<longleftrightarrow> vp_GetString v ''server-tls-ca-file'' \<noteq> []" if "tls = Some t"
    using SetupTLSConfig_ClientAuth [OF ok(2)] that by (simp add: tls read_settings_def new_cli_def Let_def)
qed

text \<open>The value of the flag for the ACL model is never looked at.\<close>

lemma setupConfig_model_flag:
  "setupConfig tb cf (v\<lparr>vp_GetString := (vp_GetString v)(''acl-model-file'' := s)\<rparr>) c = setupConfig tb cf v c"
proof -
  let ?v = "v\<lparr>vp_GetString := (vp_GetString v)(''acl-model-file'' := s)\<rparr>"
  have "read_settings ?v g = read_settings v g" for g :: "('a, 'b) tls_Config cfg" by (simp add: read_settings_def)
  then show ?thesis unfolding setupConfig_def by (cases cf) (auto split: read_config.split)
qed

end
