(* ===== verification/Startup.thy ===== *)
theory Startup
  imports Agent
begin

text \<open>
  Starting a node on a machine that has no data yet (src/internal/agent/agent.go, \<^verbatim>\<open>New\<close>, and what it
  calls of src/internal/log/distributed.go): the directories are made, both logs are opened, Raft is
  started and bootstraps a cluster of one, and the agent waits until Raft knows a leader. The lemmas
  end with an agent whose distributed log is empty and keeps the contract of a leader.
\<close>

section \<open>A log in a directory that does not exist yet\<close>

lemma fresh_log:
  assumes "quiet w" "fs w dir = None" "config_ok (config_defaults c)" "codec_ok x" "mmap_ok x"
  shows "\<exists>w1 l w2. os_MkdirAll dir w = (None, w1) \<and> NewLog x dir c w1 = (None, l, w2) \<and>
    log_contract x (l, w2) (unat (InitialOffset c)) [] \<and> lg_Dir l = dir \<and> lg_Config l = config_defaults c \<and>
    quiet w2 \<and> same_but dir w w2"
proof -
  define w1 where "w1 = w\<lparr>fs := (fs w)(dir := Some [])\<rparr>"
  have mk: "os_MkdirAll dir w = (None, w1)"
    using assms(1,2) by (simp add: os_MkdirAll_def take_fault_def quiet_def w1_def)
  have q: "quiet w1" "names w1 dir = Some []" using assms(1) by (simp_all add: w1_def quiet_def names_def)
  obtain l w2 where l: "NewLog x dir c w1 = (None, l, w2)" "log_contract x (l, w2) (unat (InitialOffset c)) []"
    "lg_Dir l = dir" "lg_Config l = config_defaults c"
    using NewLog_empty_contract [OF assms(3-5) q] by blast
  have "same_but dir w w2" using NewLog_fs [OF l(1)] by (simp add: same_but_def w1_def)
  then show ?thesis using mk l log_contract_quiet [OF l(2)] by blast
qed

lemma log_contract_last:
  assumes "log_contract x (l, w) lo rs" "0 < lo + length rs"
  shows "LastIndex l = Inr (of_nat (lo + length rs - 1))"
proof -
  obtain rss where rep: "log_rep x l w rss" "lo = log_low l" "rs = concat rss" by (rule log_contractE [OF assms(1)])
  show ?thesis using HighestOffset_rep [OF log_repD(1) [OF rep(1)]] rep(2,3) assms(2) by (simp add: LastIndex_def)
qed

section \<open>Raft on a fresh machine\<close>

text \<open>
  What Raft's constructors do on a machine without Raft state: the stores open, an instance whose log
  store is empty (its last index is 0) starts without existing state, and bootstrapping it with its
  own address succeeds and gives \<open>r1\<close>. None of them touches the directory of the log.
\<close>

definition raft_starts :: "'r raftlib \<Rightarrow> string \<Rightarrow> dlog_Config \<Rightarrow> 'r \<Rightarrow> bool" where
  "raft_starts rf dataDir c r1 \<longleftrightarrow>
     (let dir = path_Join [dataDir, ''log'']; config = raft_settings (rf_DefaultConfig rf) (dc_Raft c)
      in (\<forall>w. quiet w \<longrightarrow> (\<exists>w'. rf_NewBoltStore rf (path_Join [dataDir, ''raft'', ''stable'']) w = (None, w') \<and> undisturbed dir w w')) \<and>
         (\<forall>w. quiet w \<longrightarrow> (\<exists>w'. rf_NewFileSnapshotStore rf (path_Join [dataDir, ''raft'']) 1 w = (None, w') \<and> undisturbed dir w w')) \<and>
         (\<forall>l ls w. quiet w \<longrightarrow> LastIndex ls = Inr 0 \<longrightarrow> (\<exists>r0 w'. rf_NewRaft rf config l ls w = (Inr r0, w') \<and> undisturbed dir w w' \<and>
            rf_HasExistingState rf r0 = Inr False \<and>
            rf_BootstrapCluster rf [(rc_LocalID config, dc_BindAddr c)] r0 = (None, r1))))"

lemma raft_startsE:
  assumes "raft_starts rf dataDir c r1" "quiet w"
  obtains w1 w2 where
    "rf_NewBoltStore rf (path_Join [dataDir, ''raft'', ''stable'']) w = (None, w1)"
    "rf_NewFileSnapshotStore rf (path_Join [dataDir, ''raft'']) 1 w1 = (None, w2)"
    "quiet w2" "fs w2 (path_Join [dataDir, ''log'']) = fs w (path_Join [dataDir, ''log''])"
proof -
  obtain w1 where 1: "rf_NewBoltStore rf (path_Join [dataDir, ''raft'', ''stable'']) w = (None, w1)"
    "undisturbed (path_Join [dataDir, ''log'']) w w1"
    using assms by (auto simp: raft_starts_def Let_def)
  then have "quiet w1" using assms(2) by (simp add: undisturbed_def)
  then obtain w2 where 2: "rf_NewFileSnapshotStore rf (path_Join [dataDir, ''raft'']) 1 w1 = (None, w2)"
    "undisturbed (path_Join [dataDir, ''log'']) w1 w2"
    using assms(1) by (auto simp: raft_starts_def Let_def)
  show thesis by (rule that [OF 1(1) 2(1)]) (use 1(2) 2(2) assms(2) in \<open>simp_all add: undisturbed_def\<close>)
qed

text \<open>A machine on which the data directory of the node has never been used.\<close>

definition fresh_machine :: "string \<Rightarrow> world \<Rightarrow> bool" where
  "fresh_machine dataDir w \<longleftrightarrow> quiet w \<and> fs w (path_Join [dataDir, ''log'']) = None \<and>
     fs w (path_Join [dataDir, ''raft'', ''log'']) = None \<and>
     path_Join [dataDir, ''log''] \<noteq> path_Join [dataDir, ''raft'', ''log'']"

lemma NewDistributedLog_fresh:
  assumes m: "fresh_machine dataDir w"
    and c: "config_ok (config_defaults (dc_Segment c))" "dc_Bootstrap c"
    and x: "codec_ok x" "mmap_ok x" and rf: "raft_starts rf dataDir c r1"
  shows "\<exists>d w'. NewDistributedLog x rf dataDir c w = (Inr d, w') \<and> dl_config d = c \<and> dl_raft d = r1 \<and>
    log_contract x (dl_log d, w') (unat (InitialOffset (dc_Segment c))) []"
proof -
  have w: "quiet w" "fs w (path_Join [dataDir, ''log'']) = None" "fs w (path_Join [dataDir, ''raft'', ''log'']) = None"
    and dirs: "path_Join [dataDir, ''log''] \<noteq> path_Join [dataDir, ''raft'', ''log'']"
    using m by (simp_all add: fresh_machine_def)
  let ?dir = "path_Join [dataDir, ''log'']" and ?raft = "path_Join [dataDir, ''raft'', ''log'']"
  let ?rc = "(dc_Segment c)\<lparr>InitialOffset := 1\<rparr>"
  have ok: "config_ok (config_defaults ?rc)" using c(1) by (simp add: config_ok_def config_defaults_def Let_def split: if_splits)
  obtain w1 l w2 where 1: "os_MkdirAll ?dir w = (None, w1)" "NewLog x ?dir (dc_Segment c) w1 = (None, l, w2)"
    "log_contract x (l, w2) (unat (InitialOffset (dc_Segment c))) []" "lg_Dir l = ?dir" "quiet w2" "same_but ?dir w w2"
    using fresh_log [OF w(1,2) c(1) x] by blast
  have "fs w2 ?raft = None" using 1(6) w(3) dirs by (simp add: same_but_def)
  then obtain w3 ls w4 where 2: "os_MkdirAll ?raft w2 = (None, w3)" "NewLog x ?raft ?rc w3 = (None, ls, w4)"
    "quiet w4" "same_but ?raft w2 w4" "log_contract x (ls, w4) 1 []" using fresh_log [OF 1(5) _ ok x, of ?raft] by auto
  have "LastIndex ls = Inr 0" using log_contract_last [OF 2(5)] by simp
  obtain w5 w6 where 3: "rf_NewBoltStore rf (path_Join [dataDir, ''raft'', ''stable'']) w4 = (None, w5)"
    "rf_NewFileSnapshotStore rf (path_Join [dataDir, ''raft'']) 1 w5 = (None, w6)" "quiet w6" "fs w6 ?dir = fs w4 ?dir"
    by (rule raft_startsE [OF rf 2(3)])
  obtain r0 w7 where 4: "rf_NewRaft rf (raft_settings (rf_DefaultConfig rf) (dc_Raft c)) l ls w6 = (Inr r0, w7)"
    "rf_HasExistingState rf r0 = Inr False" "undisturbed ?dir w6 w7"
    "rf_BootstrapCluster rf [(rc_LocalID (raft_settings (rf_DefaultConfig rf) (dc_Raft c)), dc_BindAddr c)] r0 = (None, r1)"
    using rf 3(3) \<open>LastIndex ls = Inr 0\<close> by (fastforce simp: raft_starts_def Let_def)
  have "setupRaft x rf dataDir c l w2 = (Inr r1, w7)"
    using 2(1,2) 3(1,2) 4 c(2) by (simp add: setupRaft_def newLogStore_def Let_def)
  moreover have "DistributedLog_setupLog x dataDir c w = (Inr l, w2)" using 1(1,2) by (simp add: DistributedLog_setupLog_def)
  moreover have "log_contract x (l, w7) (unat (InitialOffset (dc_Segment c))) []"
    using 1(4) 2(4) 3(3,4) 4(3) dirs by (intro log_contract_frame [OF 1(3)]) (simp_all add: undisturbed_def same_but_def)
  ultimately show ?thesis by (simp add: NewDistributedLog_def)
qed

section \<open>The agent\<close>

lemma raft_after_leader:
  assumes "\<exists>t \<in> set ts. rf_Leader rf t \<noteq> ''''" and "\<forall>t \<in> set ts. rf_Leader rf t \<noteq> '''' \<longrightarrow> lead t"
  shows "lead (raft_after rf ts r)"
  using assms by (induction ts arbitrary: r) auto

text \<open>The calls to the libraries with which a node that was given \<open>c\<close> starts without a fault.\<close>

definition libs_start :: "('r, 'q) agentlib \<Rightarrow> 't agent_Config \<Rightarrow> string \<Rightarrow> Authorizer \<Rightarrow> bool" where
  "libs_start al c addr au \<longleftrightarrow> al_NewDevelopment al = None \<and>
     (\<exists>ip port. net_ResolveTCPAddr (al_serf al) (ac_BindAddr c) = Inr (ip, port)) \<and> (\<forall>a. al_Listen al a = None) \<and>
     RPCAddr c = Inr addr \<and> Auth_New (al_NewEnforcer al) (ac_ACLModelFile c) (ac_ACLPolicyFile c) = Inr au \<and>
     al_view_Register al = None \<and>
     (\<exists>m. NewMembership (al_serf al) \<lparr>mc_NodeName = ac_NodeName c, mc_BindAddr = ac_BindAddr c,
        mc_Tags = [''rpc_addr'' \<mapsto> addr], mc_StartJoinAddrs = ac_StartJoinAddrs c\<rparr> = Inr m)"

lemma config_ok_log_Config [simp]:
  "config_ok (config_defaults (dc_Segment (log_Config c addr)))" "InitialOffset (dc_Segment (log_Config c addr)) = 0"
  "dc_Bootstrap (log_Config c addr) = ac_Bootstrap c"
  by (simp_all add: log_Config_def config_defaults_def config_ok_def Let_def)

lemma NewAgent_fresh:
  assumes libs: "libs_start al c addr au" and b: "ac_Bootstrap c"
    and m: "fresh_machine (ac_DataDir c) w"
    and x: "codec_ok (dx_ext (al_dext al))" "mmap_ok (dx_ext (al_dext al))" "preq_codec_ok (al_dext al)"
    and rf: "raft_starts (al_raft al) (ac_DataDir c) (log_Config c addr) r1" "raft_ok (al_dext al) (al_raft al) lead"
    and ticks: "\<exists>t \<in> set (al_ticks al). rf_Leader (al_raft al) t \<noteq> ''''"
      "\<forall>t \<in> set (al_ticks al). rf_Leader (al_raft al) t \<noteq> '''' \<longrightarrow> lead t"
  shows "\<exists>a w' d srv. NewAgent al c w = (Inr a, w') \<and> ag_log a = Some d \<and> ag_server a = Some srv \<and>
    gs_Config srv = dlog_server (al_dext al) (al_raft al) au \<and> dlog_contract (al_dext al) (al_raft al) lead (d, w') 0 []"
proof -
  obtain d w' where d: "NewDistributedLog (dx_ext (al_dext al)) (al_raft al) (ac_DataDir c) (log_Config c addr) w = (Inr d, w')"
    "log_contract (dx_ext (al_dext al)) (dl_log d, w') 0 []"
    using NewDistributedLog_fresh [OF m config_ok_log_Config(1) _ x(1,2) rf(1)] b by auto
  define d' where "d' = d\<lparr>dl_raft := raft_after (al_raft al) (al_ticks al) (dl_raft d)\<rparr>"
  have "dlog_contract (al_dext al) (al_raft al) lead (d', w') 0 []"
    using d(2) x(3) rf(2) raft_after_leader [OF ticks] by (simp add: dlog_contract_def d'_def)
  moreover obtain m where m: "NewMembership (al_serf al) \<lparr>mc_NodeName = ac_NodeName c, mc_BindAddr = ac_BindAddr c,
      mc_Tags = [''rpc_addr'' \<mapsto> addr], mc_StartJoinAddrs = ac_StartJoinAddrs c\<rparr> = Inr m"
    using libs by (auto simp: libs_start_def)
  moreover have "WaitForLeader (al_raft al) (map Tick (al_ticks al) @ [Timeout]) = Some None"
    using ticks(1) by (simp add: WaitForLeader_returns)
  ultimately show ?thesis using libs d(1) b
    by (auto simp: libs_start_def NewAgent_def setupLogger_def setupMux_def Agent_setupLog_def setupServer_def
        setupMembership_def NewGRPCServer_def newgrpcServer_def Let_def d'_def [symmetric])
qed

end
