(* ===== verification/DemoAgent.thy ===== *)
theory DemoAgent
  imports DemoCluster Cli Startup
begin

text \<open>
  Concrete libraries for the agent: a membership library that knows its members, an access-control
  list, and a network on which everything succeeds. An agent that is started with them on an empty
  machine comes up; the properties of the agent are applied to it.
\<close>

definition serf_demo :: "(member list) serflib" where
  "serf_demo = \<lparr>net_ResolveTCPAddr = (\<lambda>a. Inr (''127.0.0.1'', 8401)),
     serf_Create = (\<lambda>c. Inr [\<lparr>mb_Name = sf_NodeName c, mb_Tags = sf_Tags c\<rparr>]),
     serf_Join = (\<lambda>addrs q. (None, q)), serf_Leave = (\<lambda>q. (None, [])), serf_Members = (\<lambda>q. q),
     serf_LocalMember = (\<lambda>q. q ! 0)\<rparr>"

definition al_demo :: "(raft_demo, member list) agentlib" where
  "al_demo = \<lparr>al_NewDevelopment = None, al_Listen = (\<lambda>a. None), al_NewEnforcer = (\<lambda>m p. Inr (au_enforcer acl)),
     al_view_Register = None, al_dext = ddx, al_raft = rf_demo, al_serf = serf_demo,
     al_ticks = [[(''0'', ''127.0.0.1:8400'')]]\<rparr>"

definition cfg_demo :: "unit agent_Config" where
  "cfg_demo = \<lparr>ac_ServerTLSConfig = None, ac_PeerTLSConfig = None, ac_DataDir = ''data'', ac_BindAddr = ''127.0.0.1:8401'',
     ac_RPCPort = 8400, ac_NodeName = ''0'', ac_Bootstrap = True, ac_StartJoinAddrs = None,
     ac_ACLModelFile = ''model.conf'', ac_ACLPolicyFile = ''policy.csv''\<rparr>"

definition w_new :: world where
  "w_new = \<lparr>fs = (\<lambda>d. None), fpos = (\<lambda>p. 0), faults = []\<rparr>"

lemma path_Join_demo:
  "path_Join [''data'', ''log''] = ''data/log''" "path_Join [''data'', ''raft'', ''log''] = ''data/raft/log''"
  by code_simp+

lemma dec_8400: "dec 8400 = ''8400''"
  by (simp add: dec.simps char_of_def bit_0)

lemma RPCAddr_demo: "RPCAddr cfg_demo = Inr ''127.0.0.1:8400''"
  using RPCAddr_plain [of cfg_demo "''127.0.0.1''" "''8401''"]
  by (simp add: cfg_demo_def plain_addr_def dec_int_def dec_8400)

lemma fresh_machine_demo: "fresh_machine ''data'' w_new"
  by (simp add: fresh_machine_def path_Join_demo) (simp add: w_new_def quiet_def)

lemma raft_starts_demo: "raft_starts rf_demo d c [(rc_LocalID (dc_Raft c), dc_BindAddr c)]"
  by (simp add: raft_starts_def rf_demo_def undisturbed_def raft_settings_def Let_def)

lemma libs_start_demo: "libs_start al_demo cfg_demo ''127.0.0.1:8400'' acl"
  by (simp add: libs_start_def RPCAddr_demo) (simp add: al_demo_def serf_demo_def cfg_demo_def Auth_New_def
    NewMembership_def setupSerf_def Let_def)

lemma al_demo_simps [simp]:
  "al_dext al_demo = ddx" "al_raft al_demo = rf_demo" "al_ticks al_demo = [[(''0'', ''127.0.0.1:8400'')]]"
  by (simp_all add: al_demo_def)

lemma cfg_demo_simps [simp]: "ac_DataDir cfg_demo = ''data''" "ac_Bootstrap cfg_demo"
  by (simp_all add: cfg_demo_def)

end
