(* ===== verification/Http.thy ===== *)
theory Http
  imports CommitLog
begin

text \<open>
  The first version of the service: an in-memory log behind HTTP handlers
  (src/_httpLogServer/server/log.go and http.go). It keeps the same contract as the log on disk, with
  lowest offset 0. The JSON codec and the response writer belong to the standard library: decoding a
  body and encoding a response are parameters, since the wire format of JSON is not modelled.
\<close>

section \<open>The in-memory log\<close>

record http_Record =
  hr_Value :: bytes
  hr_Offset :: u64

record http_Log = hl_records :: "http_Record list"

definition ErrOffsetNotFound :: goerr where
  "ErrOffsetNotFound = Errorf ''offset not found''"

definition http_NewLog :: http_Log where
  "http_NewLog = \<lparr>hl_records = []\<rparr>"

definition http_Append :: "http_Record \<Rightarrow> http_Log \<Rightarrow> (goerr + u64) \<times> http_Log" where
  "http_Append record c =
     (let record' = record\<lparr>hr_Offset := of_nat (length (hl_records c))\<rparr>
      in (Inr (hr_Offset record'), c\<lparr>hl_records := hl_records c @ [record']\<rparr>))"

definition http_Read :: "u64 \<Rightarrow> http_Log \<Rightarrow> (goerr + http_Record) \<times> http_Log" where
  "http_Read offset c =
     (if of_nat (length (hl_records c)) \<le> offset then (Inl ErrOffsetNotFound, c)
      else (Inr (hl_records c ! unat offset), c))"

section \<open>The handlers\<close>

record http_ProduceRequest = hpreq_Record :: http_Record

record http_ProduceResponse = hpres_Offset :: u64

record http_ConsumeRequest = hcreq_Offset :: u64

record http_ConsumeResponse = hcres_Record :: http_Record

datatype http_reply = HttpError nat goerr | HttpOK bytes

definition StatusBadRequest :: nat where "StatusBadRequest = 400"

definition StatusInternalServerError :: nat where "StatusInternalServerError = 500"

definition handleProduce ::
  "(bytes \<Rightarrow> goerr + http_ProduceRequest) \<Rightarrow> (http_ProduceResponse \<Rightarrow> goerr + bytes) \<Rightarrow> bytes \<Rightarrow>
     http_Log \<Rightarrow> http_reply \<times> http_Log" where
  "handleProduce decode encode body s0 = (case decode body of
     Inl e \<Rightarrow> (HttpError StatusBadRequest e, s0)
   | Inr req \<Rightarrow> (case http_Append (hpreq_Record req) s0 of
       (Inl e, s) \<Rightarrow> (HttpError StatusInternalServerError e, s)
     | (Inr off, s) \<Rightarrow> (case encode \<lparr>hpres_Offset = off\<rparr> of
         Inl e \<Rightarrow> (HttpError StatusInternalServerError e, s)
       | Inr out \<Rightarrow> (HttpOK out, s))))"

definition handleConsume ::
  "(bytes \<Rightarrow> goerr + http_ConsumeRequest) \<Rightarrow> (http_ConsumeResponse \<Rightarrow> goerr + bytes) \<Rightarrow> bytes \<Rightarrow>
     http_Log \<Rightarrow> http_reply \<times> http_Log" where
  "handleConsume decode encode body s0 = (case decode body of
     Inl e \<Rightarrow> (HttpError StatusBadRequest e, s0)
   | Inr req \<Rightarrow> (case http_Read (hcreq_Offset req) s0 of
       (Inl e, s) \<Rightarrow> (HttpError StatusInternalServerError e, s)
     | (Inr record, s) \<Rightarrow> (case encode \<lparr>hcres_Record = record\<rparr> of
         Inl e \<Rightarrow> (HttpError StatusInternalServerError e, s)
       | Inr out \<Rightarrow> (HttpOK out, s))))"

text \<open>
  \<^verbatim>\<open>NewHTTPServer\<close> routes requests for the root path by their method; the router answers 404 to other
  paths and 405 to other methods.
\<close>

record http_codec =
  hc_decodeProduce :: "bytes \<Rightarrow> goerr + http_ProduceRequest"
  hc_encodeProduce :: "http_ProduceResponse \<Rightarrow> goerr + bytes"
  hc_decodeConsume :: "bytes \<Rightarrow> goerr + http_ConsumeRequest"
  hc_encodeConsume :: "http_ConsumeResponse \<Rightarrow> goerr + bytes"

definition newHTTPServer :: http_Log where
  "newHTTPServer = http_NewLog"

definition http_serve :: "http_codec \<Rightarrow> string \<Rightarrow> string \<Rightarrow> bytes \<Rightarrow> http_Log \<Rightarrow> http_reply \<times> http_Log" where
  "http_serve hc route verb body s =
     (if route \<noteq> ''/'' then (HttpError 404 (Extern ''404 page not found''), s)
      else if verb = ''GET'' then handleConsume (hc_decodeConsume hc) (hc_encodeConsume hc) body s
      else if verb = ''POST'' then handleProduce (hc_decodeProduce hc) (hc_encodeProduce hc) body s
      else (HttpError 405 (Extern ''method not allowed''), s))"

section \<open>The contract\<close>

definition http_rep :: "http_Log \<Rightarrow> nat \<Rightarrow> http_Record list \<Rightarrow> bool" where
  "http_rep c lo rs \<longleftrightarrow> lo = 0 \<and> rs = hl_records c \<and> length rs < 2 ^ 64"

definition http_stamp :: "nat \<Rightarrow> http_Record \<Rightarrow> http_Record" where
  "http_stamp n r = r\<lparr>hr_Offset := of_nat n\<rparr>"

interpretation hl: commit_log http_Append http_Read http_rep http_stamp "\<lambda>n r. n + 1 < 2 ^ 64" "\<lambda>off. ErrOffsetNotFound"
proof (unfold_locales, goal_cases)
  case (1 s lo rs r)
  then show ?case by (simp add: http_Append_def http_rep_def http_stamp_def Let_def)
next
  case (2 s lo rs off)
  then show ?case by (auto simp: http_Read_def http_rep_def u64_le_iff u64_of_nat)
next
  case (3 s lo rs off)
  then show ?case by (auto simp: http_Read_def http_rep_def u64_le_iff u64_of_nat)
qed simp

section \<open>Requests only extend the log\<close>

definition http_served :: "http_codec \<Rightarrow> (string \<times> string \<times> bytes) list \<Rightarrow> http_Log \<Rightarrow> http_Log" where
  "http_served hc reqs s = fold (\<lambda>(route, verb, body) s. snd (http_serve hc route verb body s)) reqs s"

lemma http_serve_extends:
  "\<exists>more. hl_records (snd (http_serve hc route verb body s)) = hl_records s @ more \<and> length more \<le> 1"
  by (auto simp: http_serve_def handleConsume_def handleProduce_def http_Read_def http_Append_def Let_def
      split: sum.splits prod.splits)

lemma http_served_extends:
  "\<exists>more. hl_records (http_served hc reqs s) = hl_records s @ more \<and> length more \<le> length reqs"
proof (induction reqs arbitrary: s)
  case (Cons q reqs)
  obtain route verb b where q: "q = (route, verb, b)" by (metis prod.exhaust)
  obtain m1 where 1: "hl_records (snd (http_serve hc route verb b s)) = hl_records s @ m1" "length m1 \<le> 1"
    using http_serve_extends by blast
  from Cons.IH obtain m2 where "hl_records (http_served hc reqs (snd (http_serve hc route verb b s))) =
      hl_records (snd (http_serve hc route verb b s)) @ m2" "length m2 \<le> length reqs" by blast
  with 1 show ?case by (intro exI [of _ "m1 @ m2"]) (simp add: http_served_def q)
qed (simp add: http_served_def)

lemma http_post:
  assumes "hc_decodeProduce hc body = Inr \<lparr>hpreq_Record = r\<rparr>"
    and "hc_encodeProduce hc \<lparr>hpres_Offset = of_nat (length (hl_records s))\<rparr> = Inr out"
  shows "http_serve hc ''/'' ''POST'' body s =
    (HttpOK out, s\<lparr>hl_records := hl_records s @ [http_stamp (length (hl_records s)) r]\<rparr>)"
  using assms by (simp add: http_serve_def handleProduce_def http_Append_def http_stamp_def Let_def)

lemma http_get:
  assumes "hc_decodeConsume hc body = Inr \<lparr>hcreq_Offset = of_nat n\<rparr>" "n < length (hl_records s)"
    and "length (hl_records s) < 2 ^ 64" "hc_encodeConsume hc \<lparr>hcres_Record = hl_records s ! n\<rparr> = Inr out"
  shows "http_serve hc ''/'' ''GET'' body s = (HttpOK out, s)"
  using assms by (simp add: http_serve_def handleConsume_def http_Read_def u64_le_iff u64_of_nat)

end
