(* ===== verification/Loadbalance.thy ===== *)
theory Loadbalance
  imports Api "HOL-Library.Multiset"
begin

text \<open>
  Client-side load balancing (src/internal/loadbalance): the resolver asks a server for the cluster
  and passes the addresses on with a leader mark; the picker sends produce calls to the leader and
  spreads consume calls over the followers. gRPC is third-party: connections are values of type \<open>'c\<close>,
  and the calls of the library are parameters.
\<close>

section \<open>Picker\<close>

record 'c Picker =
  pk_leader :: "'c option"
  pk_followers :: "'c list"
  pk_current :: u64

text \<open>
  The ready connections with their \<^verbatim>\<open>is_leader\<close> attribute, in the order in which the loop over the map
  meets them. A missing attribute makes the type assertion panic. A leader found is remembered in the
  picker; without one the picker keeps the leader it had.
\<close>

fun Build_loop :: "('c \<times> bool option) list \<Rightarrow> 'c option \<Rightarrow> 'c list \<Rightarrow> goerr + 'c option \<times> 'c list" where
  "Build_loop [] leader followers = Inr (leader, followers)"
| "Build_loop ((sc, attr) # scs) leader followers = (case attr of
     None \<Rightarrow> Inl (Panic ''interface conversion'')
   | Some isLeader \<Rightarrow>
       (if isLeader then Build_loop scs (Some sc) followers
        else Build_loop scs leader (followers @ [sc])))"

definition Picker_Build :: "('c \<times> bool option) list \<Rightarrow> 'c Picker \<Rightarrow> goerr + 'c Picker" where
  "Picker_Build readySCs p = (case Build_loop readySCs (pk_leader p) [] of
     Inl e \<Rightarrow> Inl e
   | Inr (leader, followers) \<Rightarrow> Inr (p\<lparr>pk_leader := leader, pk_followers := followers\<rparr>))"

fun strings_Contains :: "string \<Rightarrow> string \<Rightarrow> bool" where
  "strings_Contains s sub \<longleftrightarrow>
     take (length sub) s = sub \<or> (case s of [] \<Rightarrow> False | _ # s' \<Rightarrow> strings_Contains s' sub)"

declare strings_Contains.simps [simp del]

definition ErrNoSubConnAvailable :: goerr where
  "ErrNoSubConnAvailable = Extern ''no SubConn is available''"

definition nextFollower :: "'c Picker \<Rightarrow> (goerr + 'c) \<times> 'c Picker" where
  "nextFollower p =
     (let cur = pk_current p + 1;
          p' = p\<lparr>pk_current := cur\<rparr>;
          len = of_nat (length (pk_followers p)) :: u64
      in if len = 0 then (Inl (Panic ''integer divide by zero''), p')
         else (Inr (pk_followers p ! unat (cur mod len)), p'))"

definition Picker_Pick :: "string \<Rightarrow> 'c Picker \<Rightarrow> (goerr + 'c) \<times> 'c Picker" where
  "Picker_Pick fullMethodName p =
     (if strings_Contains fullMethodName ''Produce'' \<or> pk_followers p = [] then
        ((case pk_leader p of None \<Rightarrow> Inl ErrNoSubConnAvailable | Some sc \<Rightarrow> Inr sc), p)
      else if strings_Contains fullMethodName ''Consume'' then nextFollower p
      else (Inl ErrNoSubConnAvailable, p))"

section \<open>Resolver\<close>

definition resolver_Name :: string where
  "resolver_Name = ''proglog''"

record resolver_Address =
  ra_Addr :: string
  ra_IsLeader :: bool

record ('cc, 'k, 'p, 'd) grpclib =
  gl_ParseServiceConfig :: "'cc \<Rightarrow> string \<Rightarrow> 'p"
  gl_NewClient :: "string \<Rightarrow> 'd option \<Rightarrow> goerr + 'k"
  gl_GetServers :: "'k \<Rightarrow> goerr + GetServersResponse"
  gl_UpdateState :: "'cc \<Rightarrow> resolver_Address list \<Rightarrow> 'p \<Rightarrow> goerr option"
  gl_CloseConn :: "'k \<Rightarrow> goerr option"

text \<open>
  The fields of the resolver are nil until \<^verbatim>\<open>Build\<close> sets them. \<open>rv_updates\<close> and \<open>rv_log\<close> record what it does
  to the outside: the states that it passes to client connections, and the errors that it logs.
\<close>

record ('cc, 'k, 'p) Resolver =
  rv_clientConn :: "'cc option"
  rv_resolverConn :: "'k option"
  rv_serviceConf :: "'p option"
  rv_updates :: "('cc \<times> resolver_Address list \<times> 'p) list"
  rv_log :: "string list"

definition resolve_addrs :: "api_Server list \<Rightarrow> resolver_Address list" where
  "resolve_addrs servers = map (\<lambda>s. \<lparr>ra_Addr = srv_RpcAddr s, ra_IsLeader = srv_IsLeader s\<rparr>) servers"

definition ResolveNow ::
  "('cc, 'k, 'p, 'd) grpclib \<Rightarrow> ('cc, 'k, 'p) Resolver \<Rightarrow> goerr option \<times> ('cc, 'k, 'p) Resolver" where
  "ResolveNow gl r = (case rv_resolverConn r of
     None \<Rightarrow> (Some (Panic ''nil pointer dereference''), r)
   | Some conn \<Rightarrow> (case gl_GetServers gl conn of
       Inl e \<Rightarrow> (None, r\<lparr>rv_log := rv_log r @ [''failed to resolve server'']\<rparr>)
     | Inr res \<Rightarrow> (case (rv_clientConn r, rv_serviceConf r) of
         (Some cc, Some conf) \<Rightarrow>
           (let addrs = resolve_addrs (gres_Servers res);
                r' = r\<lparr>rv_updates := rv_updates r @ [(cc, addrs, conf)]\<rparr>
            in case gl_UpdateState gl cc addrs conf of
                 Some e \<Rightarrow> (None, r'\<lparr>rv_log := rv_log r @ [''failed update client's connection'']\<rparr>)
               | None \<Rightarrow> (None, r'))
       | _ \<Rightarrow> (Some (Panic ''nil pointer dereference''), r))))"

text \<open>
  \<^verbatim>\<open>Build\<close> is a method of the resolver that \<^verbatim>\<open>init\<close> registers, and it returns its own receiver as the
  resolver of the new client connection. Resolvers are shared by pointer, so they live in a list and
  \<open>a\<close> is the address of the receiver. A failing \<^verbatim>\<open>NewClient\<close> returns a nil connection along with the error,
  and it is assigned before the check.
\<close>

definition Resolver_Build ::
  "('cc, 'k, 'p, 'd) grpclib \<Rightarrow> string \<Rightarrow> 'cc \<Rightarrow> 'd option \<Rightarrow> nat \<Rightarrow> ('cc, 'k, 'p) Resolver list \<Rightarrow>
     (goerr + nat) \<times> ('cc, 'k, 'p) Resolver list" where
  "Resolver_Build gl endpoint cc dialCreds a h =
     (let r = (h ! a)\<lparr>rv_clientConn := Some cc, rv_serviceConf := Some (gl_ParseServiceConfig gl cc
            (''{\"loadBalancingConfig\":[{\"'' @ resolver_Name @ ''\":{}}]}''))\<rparr>
      in case gl_NewClient gl endpoint dialCreds of
           Inl e \<Rightarrow> (Inl e, h[a := r\<lparr>rv_resolverConn := None\<rparr>])
         | Inr conn \<Rightarrow> (case ResolveNow gl (r\<lparr>rv_resolverConn := Some conn\<rparr>) of
             (Some e, r') \<Rightarrow> (Inl e, h[a := r'])
           | (None, r') \<Rightarrow> (Inr a, h[a := r'])))"

definition Resolver_Scheme :: string where
  "Resolver_Scheme = resolver_Name"

definition Resolver_Close ::
  "('cc, 'k, 'p, 'd) grpclib \<Rightarrow> ('cc, 'k, 'p) Resolver \<Rightarrow> goerr option \<times> ('cc, 'k, 'p) Resolver" where
  "Resolver_Close gl r = (case rv_resolverConn r of
     None \<Rightarrow> (Some (Panic ''nil pointer dereference''), r)
   | Some conn \<Rightarrow> (case gl_CloseConn gl conn of
       Some e \<Rightarrow> (None, r\<lparr>rv_log := rv_log r @ [''failed to close conn'']\<rparr>)
     | None \<Rightarrow> (None, r)))"

definition init_Resolver :: "('cc, 'k, 'p) Resolver" where
  "init_Resolver = \<lparr>rv_clientConn = None, rv_resolverConn = None, rv_serviceConf = None, rv_updates = [], rv_log = []\<rparr>"

text \<open>The resolvers after \<^verbatim>\<open>init\<close>: the registered builder, at address 0.\<close>

definition init_resolvers :: "('cc, 'k, 'p) Resolver list" where
  "init_resolvers = [init_Resolver]"

definition init_Picker :: "'c Picker" where
  "init_Picker = \<lparr>pk_leader = None, pk_followers = [], pk_current = 0\<rparr>"

section \<open>Substrings\<close>

lemma strings_Contains_iff: "strings_Contains s sub \<longleftrightarrow> (\<exists>a b. s = a @ sub @ b)"
proof (induction s)
  case Nil
  show ?case by (auto simp: strings_Contains.simps)
next
  case (Cons c s)
  have "take (length sub) (c # s) = sub \<longleftrightarrow> (\<exists>b. c # s = sub @ b)"
    by (metis append_eq_conv_conj append_take_drop_id)
  moreover have "(\<exists>a b. c # s = a @ sub @ b) \<longleftrightarrow> (\<exists>b. c # s = sub @ b) \<or> (\<exists>a b. s = a @ sub @ b)"
    by (metis append_Cons append_Nil list.exhaust list.inject)
  ultimately show ?case using Cons by (simp add: strings_Contains.simps)
qed

section \<open>Building\<close>

lemma Build_loop_marked:
  "Build_loop (map (\<lambda>(sc, m). (sc, Some m)) scs) leader followers =
     Inr ((case rev (filter snd scs) of [] \<Rightarrow> leader | (sc, _) # _ \<Rightarrow> Some sc),
          followers @ map fst (filter (\<lambda>s. \<not> snd s) scs))"
proof (induction scs arbitrary: leader followers)
  case (Cons s scs)
  then show ?case by (cases s) (auto split: list.splits)
qed simp

section \<open>Round robin\<close>

text \<open>The picks of a sequence of consume calls.\<close>

fun picks :: "nat \<Rightarrow> string \<Rightarrow> 'c Picker \<Rightarrow> (goerr + 'c) list \<times> 'c Picker" where
  "picks 0 m p = ([], p)"
| "picks (Suc n) m p = (case Picker_Pick m p of (r, p') \<Rightarrow>
     (case picks n m p' of (rs, p'') \<Rightarrow> (r # rs, p'')))"

lemma nextFollower_nth:
  assumes "pk_followers p \<noteq> []" "length (pk_followers p) < 2 ^ 64" "unat (pk_current p) + 1 < 2 ^ 64"
  shows "nextFollower p = (Inr (pk_followers p ! ((unat (pk_current p) + 1) mod length (pk_followers p))),
    p\<lparr>pk_current := pk_current p + 1\<rparr>)"
proof -
  let ?n = "length (pk_followers p)"
  have n: "unat (of_nat ?n :: u64) = ?n" using assms(2) by (rule u64_of_nat)
  then have "(of_nat ?n :: u64) \<noteq> 0" using assms(1) by (metis length_0_conv unat_0)
  moreover have "unat ((pk_current p + 1) mod of_nat ?n) = (unat (pk_current p) + 1) mod ?n"
    unfolding unat_mod n using assms(3) by (simp add: unat_u64_Suc)
  ultimately show ?thesis by (simp add: nextFollower_def Let_def)
qed

lemma picks_nth:
  assumes "\<not> strings_Contains m ''Produce''" "strings_Contains m ''Consume''"
    and "pk_followers p \<noteq> []" "length (pk_followers p) < 2 ^ 64" "unat (pk_current p) + k < 2 ^ 64"
  shows "fst (picks k m p) =
    map (\<lambda>i. Inr (pk_followers p ! ((unat (pk_current p) + 1 + i) mod length (pk_followers p)))) [0..<k]"
  using assms(3-5)
proof (induction k arbitrary: p)
  case (Suc k)
  let ?p = "p\<lparr>pk_current := pk_current p + 1\<rparr>"
  have c: "unat (pk_current ?p) = unat (pk_current p) + 1" using Suc.prems(3) by (simp add: unat_u64_Suc)
  have "Picker_Pick m p =
      (Inr (pk_followers p ! ((unat (pk_current p) + 1) mod length (pk_followers p))), ?p)"
    using assms(1,2) Suc.prems nextFollower_nth [of p] by (simp add: Picker_Pick_def)
  moreover have "fst (picks k m ?p) =
      map (\<lambda>i. Inr (pk_followers p ! ((unat (pk_current p) + 1 + Suc i) mod length (pk_followers p)))) [0..<k]"
    using Suc.IH [of ?p] Suc.prems unfolding c by simp
  moreover have "map f [0..<Suc k] = f 0 # map (\<lambda>i. f (Suc i)) [0..<k]" for f :: "nat \<Rightarrow> goerr + 'a"
    by (simp add: upt_conv_Cons map_Suc_upt [symmetric] del: upt_Suc)
  ultimately show ?case by (cases "picks k m ?p") (simp del: upt_Suc)
qed simp

lemma rotation_mset:
  assumes "xs \<noteq> []"
  shows "mset (map (\<lambda>i. xs ! ((c + i) mod length xs)) [0..<length xs]) = mset xs"
proof -
  have "map (\<lambda>i. xs ! ((c + i) mod length xs)) [0..<length xs] = rotate c xs"
    by (intro nth_equalityI) (simp_all add: nth_rotate add.commute)
  then show ?thesis by (simp add: rotate_drop_take) (metis append_take_drop_id mset_append union_commute)
qed


section \<open>One leader among the ready connections\<close>

text \<open>
  gRPC opens a connection for every address of the resolver's state and hands the ready ones to the
  picker with the attributes of their addresses; \<open>conn\<close> takes an address to its connection. The order
  is that of a Go map, so it is arbitrary.
\<close>

lemma Build_one_leader:
  assumes scs: "mset scs = mset (map (\<lambda>a. (conn (ra_Addr a), Some (ra_IsLeader a))) addrs)"
    and one: "filter ra_IsLeader addrs = [ld]"
  shows "\<exists>p'. Picker_Build scs p = Inr p' \<and> pk_leader p' = Some (conn (ra_Addr ld)) \<and>
    mset (pk_followers p') = mset (map (\<lambda>a. conn (ra_Addr a)) (filter (\<lambda>a. \<not> ra_IsLeader a) addrs)) \<and>
    pk_current p' = pk_current p"
proof -
  let ?mark = "\<lambda>a. (conn (ra_Addr a), ra_IsLeader a)"
  define ms where "ms = map (\<lambda>(c, m). (c, the m)) scs"
  have "set scs = set (map (\<lambda>a. (conn (ra_Addr a), Some (ra_IsLeader a))) addrs)"
    using scs by (rule mset_eq_setD)
  then have "scs = map (\<lambda>(c, m). (c, Some m)) ms" unfolding ms_def by (auto intro!: map_idI [symmetric])
  then have loop: "Build_loop scs (pk_leader p) [] = Inr ((case rev (filter snd ms) of [] \<Rightarrow> pk_leader p | (sc, _) # _ \<Rightarrow> Some sc),
      map fst (filter (\<lambda>s. \<not> snd s) ms))" by (simp add: Build_loop_marked)
  have "mset ms = image_mset (\<lambda>(c, m). (c, the m)) (mset scs)" by (simp add: ms_def)
  also have "\<dots> = mset (map ?mark addrs)" unfolding scs by (simp add: image_mset.compositionality comp_def)
  finally have ms: "mset ms = mset (map ?mark addrs)" .
  then have "mset (filter snd ms) = mset (filter snd (map ?mark addrs))" by (metis mset_filter)
  also have "filter snd (map ?mark addrs) = [?mark ld]" using one by (simp add: filter_map comp_def)
  finally have "mset (filter snd ms) = {#?mark ld#}" by simp
  then have lead: "filter snd ms = [?mark ld]" by (simp only: mset_single_iff)
  have "mset (filter (\<lambda>s. \<not> snd s) ms) = mset (filter (\<lambda>s. \<not> snd s) (map ?mark addrs))"
    using ms by (metis mset_filter)
  then have "mset (map fst (filter (\<lambda>s. \<not> snd s) ms)) =
      mset (map (\<lambda>a. conn (ra_Addr a)) (filter (\<lambda>a. \<not> ra_IsLeader a) addrs))"
    by (simp add: filter_map comp_def image_mset.compositionality)
  then show ?thesis using loop lead by (simp add: Picker_Build_def)
qed

section \<open>Resolving again\<close>

lemma ResolveNow_again:
  assumes "rv_clientConn r = Some cc" "rv_resolverConn r = Some k" "rv_serviceConf r = Some sc"
  shows "\<exists>new. rv_updates (((\<lambda>r. snd (ResolveNow gl r)) ^^ n) r) = rv_updates r @ new \<and> (\<forall>u \<in> set new. fst u = cc) \<and>
    (\<forall>res. gl_GetServers gl k = Inr res \<longrightarrow> new = replicate n (cc, resolve_addrs (gres_Servers res), sc)) \<and>
    rv_clientConn (((\<lambda>r. snd (ResolveNow gl r)) ^^ n) r) = Some cc \<and>
    rv_resolverConn (((\<lambda>r. snd (ResolveNow gl r)) ^^ n) r) = Some k \<and>
    rv_serviceConf (((\<lambda>r. snd (ResolveNow gl r)) ^^ n) r) = Some sc"
proof (induction n)
  case (Suc n)
  let ?r = "((\<lambda>r. snd (ResolveNow gl r)) ^^ n) r"
  obtain new where new: "rv_updates ?r = rv_updates r @ new" "\<forall>u \<in> set new. fst u = cc"
    "\<forall>res. gl_GetServers gl k = Inr res \<longrightarrow> new = replicate n (cc, resolve_addrs (gres_Servers res), sc)"
    "rv_clientConn ?r = Some cc" "rv_resolverConn ?r = Some k" "rv_serviceConf ?r = Some sc" using Suc by blast
  show ?case
  proof (cases "gl_GetServers gl k")
    case (Inl e)
    then show ?thesis using new by (intro exI [of _ new]) (simp add: ResolveNow_def)
  next
    case (Inr res)
    then have "rv_updates (snd (ResolveNow gl ?r)) = rv_updates r @ new @ [(cc, resolve_addrs (gres_Servers res), sc)] \<and>
        rv_clientConn (snd (ResolveNow gl ?r)) = Some cc \<and> rv_resolverConn (snd (ResolveNow gl ?r)) = Some k \<and>
        rv_serviceConf (snd (ResolveNow gl ?r)) = Some sc"
      using new by (simp add: ResolveNow_def Let_def split: option.splits)
    then show ?thesis using new(2,3) Inr
      by (intro exI [of _ "new @ [(cc, resolve_addrs (gres_Servers res), sc)]"]) (simp add: replicate_append_same)
  qed
qed (use assms in simp)

lemma Resolver_Build_ok:
  assumes b: "Resolver_Build gl e cc dc a h = (Inr a', h')" and a: "a < length h"
  shows "a' = a \<and> length h' = length h \<and> (\<exists>k sc. gl_NewClient gl e dc = Inr k \<and> rv_clientConn (h' ! a) = Some cc \<and>
    rv_resolverConn (h' ! a) = Some k \<and> rv_serviceConf (h' ! a) = Some sc)"
  using b a by (auto simp: Resolver_Build_def ResolveNow_def Let_def split: sum.splits option.splits prod.splits)

end
