(* ===== verification/Commands.thy ===== *)
theory Commands
  imports Cli Http Loadbalance
begin

text \<open>
  The entry points of the three commands: \<^verbatim>\<open>proglog\<close> (src/cmd/proglog/main.go), \<^verbatim>\<open>getservers\<close>
  (src/cmd/getservers/main.go) and the server of the first version
  (src/_httpLogServer/cmd/server/main.go). A command ends by returning from \<^verbatim>\<open>main\<close> with what it has
  printed, or in \<^verbatim>\<open>log.Fatal\<close>.
\<close>

datatype exit = Exited "string list" | Fatal goerr

section \<open>proglog\<close>

text \<open>
  \<^verbatim>\<open>cmd.Execute\<close> of the command-line library parses the arguments, which gives the value of the flag
  \<^verbatim>\<open>config-file\<close> and what viper answers, and then runs \<^verbatim>\<open>PreRunE\<close> and \<^verbatim>\<open>RunE\<close>.
\<close>

definition proglog_main ::
  "goerr + string \<Rightarrow> string \<Rightarrow> goerr option \<Rightarrow> ((string \<times> flag_value) list \<Rightarrow> goerr + (goerr + string) \<times> viper) \<Rightarrow>
     ('c, 'p) tlslib \<Rightarrow> ('r, 'q) agentlib \<Rightarrow>
     (('r, 'q, ('c, 'p) tls_Config) Agent \<times> world \<Rightarrow> ('r, 'q, ('c, 'p) tls_Config) Agent \<times> world) \<Rightarrow> world \<Rightarrow> exit \<times> world" where
  "proglog_main os_Hostname os_TempDir bindPFlags parse tb al life w0 =
     (case setupFlags os_Hostname os_TempDir bindPFlags of
        Inl e \<Rightarrow> (Fatal e, w0)
      | Inr flags \<Rightarrow> (case parse flags of
          Inl e \<Rightarrow> (Fatal e, w0)
        | Inr (config_file, v) \<Rightarrow> (case setupConfig tb config_file v new_cli of
            (Some e, _) \<Rightarrow> (Fatal e, w0)
          | (None, cli) \<Rightarrow> (case cli_run al cli life w0 of
              (Some e, w) \<Rightarrow> (Fatal e, w)
            | (None, w) \<Rightarrow> (Exited [], w)))))"

section \<open>getservers\<close>

text \<open>\<open>fmt\<close> is the textual form that the protobuf library gives a message.\<close>

definition getservers_main ::
  "('cc, 'k, 'p, 'd) grpclib \<Rightarrow> 'd \<Rightarrow> (api_Server \<Rightarrow> string) \<Rightarrow> string \<Rightarrow> exit" where
  "getservers_main gl insecure fmt addr = (case gl_NewClient gl addr (Some insecure) of
     Inl e \<Rightarrow> Fatal e
   | Inr conn \<Rightarrow> (case gl_GetServers gl conn of
       Inl e \<Rightarrow> Fatal e
     | Inr res \<Rightarrow> Exited (''servers:'' # map (\<lambda>server. ''- '' @ fmt server) (gres_Servers res))))"

section \<open>The HTTP server\<close>

text \<open>\<^verbatim>\<open>ListenAndServe\<close> serves until it fails and returns the error.\<close>

definition httpserver_main :: "(string \<Rightarrow> http_Log \<Rightarrow> goerr) \<Rightarrow> exit" where
  "httpserver_main listenAndServe = Fatal (listenAndServe '':8080'' newHTTPServer)"

section \<open>What a node started by the command does\<close>

text \<open>
  The command exits without an error exactly when flags, arguments, configuration and agent come up
  and the agent shuts down without one.
\<close>

lemma proglog_main_exits:
  "fst (proglog_main hn tmp bind parse tb al life w) = Exited out \<longleftrightarrow>
     out = [] \<and> (\<exists>flags cf v cli w'. setupFlags hn tmp bind = Inr flags \<and> parse flags = Inr (cf, v) \<and>
       setupConfig tb cf v new_cli = (None, cli) \<and> cli_run al cli life w = (None, w'))"
  by (auto simp: proglog_main_def split: sum.splits prod.splits option.splits)

end
