(* ===== verification/Raft_Restart.thy ===== *)
theory Raft_Restart
  imports Crash Startup
begin

text \<open>
  The second log of a node, the log store of Raft (src/internal/log/distributed.go, \<^verbatim>\<open>setupRaft\<close>), when the
  node shuts down: \<^verbatim>\<open>DistributedLog.Close\<close> closes the log of records only. The lemmas show that closing
  one log leaves the other as it is, open, and what \<^verbatim>\<open>newLogStore\<close> makes of it at the next start, when it
  had been left open and when it had been closed.
\<close>

section \<open>Closing a log leaves the other directories alone\<close>

lemma fs_close:
  "os_Sync f w = (r1, w') \<Longrightarrow> fs w' = fs w"
  "os_FTruncate f n w = (r2, w') \<Longrightarrow> same_but (fst (fname f)) w w'"
  "os_Close f w = (r3, g, w') \<Longrightarrow> fs w' = fs w \<and> fname g = fname f"
  "os_Write f p w = (r4, w') \<Longrightarrow> same_but (fst (fname f)) w w'"
  "mmap_Sync x q m w = (r5, w') \<Longrightarrow> same_but (fst q) w w'"
  "mmap_UnsafeUnmap x m w = (r6, w') \<Longrightarrow> fs w' = fs w"
  by (auto simp: os_Sync_def os_FTruncate_def os_Truncate_def os_Close_def os_Write_def mmap_Sync_def mmap_UnsafeUnmap_def
      same_but_def fs_fput Let_def dest: fs_take_fault split: prod.splits option.splits if_splits sum.splits)

lemma index_Close_fs:
  "index_Close x i w = (r, i', w') \<Longrightarrow> same_but (fst (fname (ix_file i))) w w' \<and> fname (ix_file i') = fname (ix_file i)"
  by (auto simp: index_Close_def Let_def same_but_def dest!: fs_close split: if_splits prod.splits option.splits)

lemma store_Close_fs:
  "store_Close s w = (r, s', w') \<Longrightarrow> same_but (fst (fname (st_File s))) w w' \<and> fname (st_File s') = fname (st_File s)"
  by (auto simp: store_Close_def bufio_Flush_def same_but_def dest!: fs_close split: if_splits prod.splits option.splits)

definition in_dir :: "string \<Rightarrow> segment \<Rightarrow> bool" where
  "in_dir dir s \<longleftrightarrow> fst (fname (ix_file (sg_index s))) = dir \<and> fst (fname (st_File (sg_store s))) = dir"

lemma segment_Close_fs:
  "segment_Close x s w = (r, s', w') \<Longrightarrow> in_dir dir s \<Longrightarrow> same_but dir w w' \<and> in_dir dir s'"
  by (auto simp: segment_Close_def in_dir_def same_but_def dest!: index_Close_fs store_Close_fs split: prod.splits option.splits)

lemma in_dir_put:
  "in_dir dir s \<Longrightarrow> in_dir dir (seg_of l b) \<Longrightarrow> in_dir dir (seg_of (put_seg a s l) b)"
  by (cases "a < length (lg_heap l)") (simp_all add: seg_of_put_seg, simp add: put_seg_def list_update_beyond)

lemma close_segments_fs:
  assumes "close_segments x as l w = (r, l', w')" "\<forall>a \<in> set as. in_dir dir (seg_of l a)"
  shows "same_but dir w w'"
  using assms
proof (induction as arbitrary: l w)
  case (Cons a as)
  obtain e s w1 where s: "segment_Close x (seg_of l a) w = (e, s, w1)" by (metis prod.exhaust)
  have s1: "same_but dir w w1" "in_dir dir s" using segment_Close_fs [OF s] Cons.prems(2) by simp_all
  show ?case
  proof (cases e)
    case None
    then have "close_segments x as (put_seg a s l) w1 = (r, l', w')" using Cons.prems(1) s by simp
    from Cons.IH [OF this] in_dir_put [OF s1(2)] Cons.prems(2) have "same_but dir w1 w'" by simp
    then show ?thesis using s1(1) by (simp add: same_but_def)
  qed (use Cons.prems(1) s s1(1) in simp)
qed (simp add: same_but_def)

lemma Log_Close_fs:
  assumes c: "log_contract x (l, w) lo rs" and "Log_Close x l w = (r, l', w')"
  shows "same_but (lg_Dir l) w w'"
proof (rule close_segments_fs [OF assms(2) [unfolded Log_Close_def]])
  obtain rss where rep: "log_rep x l w rss" by (rule log_contractE [OF c])
  note D = log_invD [OF log_repD(1) [OF rep]]
  have "in_dir (lg_Dir l) (segs l ! i)" if "i < length (segs l)" for i
    using D(10) [OF that] by (simp add: seg_rep_def in_dir_def index_Name_def)
  then show "\<forall>a \<in> set (lg_segments l). in_dir (lg_Dir l) (seg_of l a)" by (simp add: segs_def all_set_conv_all_nth)
qed

lemma other_log_open:
  assumes c: "log_contract x (l, w) lo rs" and o: "log_contract x (ls, w) slo srs" and d: "lg_Dir ls \<noteq> lg_Dir l"
    and "Log_Close x l w = (None, l', w')"
  shows "log_contract x (ls, w') slo srs"
proof (rule log_contract_frame [OF o])
  obtain rss where rep: "log_rep x l w rss" and x: "mmap_ok x" by (rule log_contractE [OF c])
  show "quiet w'" using Log_Close_rep [OF rep x] assms(4) by (auto simp: log_disk_def)
  show "fs w' (lg_Dir ls) = fs w (lg_Dir ls)" using Log_Close_fs [OF c assms(4)] d by (simp add: same_but_def)
qed

section \<open>The log store at the next start\<close>

lemma NewLog_defaults: "NewLog x dir (config_defaults c) w = NewLog x dir c w"
  by (simp add: NewLog_def config_defaults_idem)

lemma newLogStore_after_crash:
  assumes c: "log_contract x (ls, w) slo srs" and cf: "lg_Config ls = config_defaults c"
  shows "\<exists>ls' w'. newLogStore x (lg_Dir ls) c (crashed ls w) = (Inr ls', w') \<and>
    (\<forall>e es w2. fst (StoreLogs x (e # es) ls' w2) \<noteq> None)"
proof -
  obtain ls' w' where l: "NewLog x (lg_Dir ls) (lg_Config ls) (crashed ls w) = (None, ls', w')"
    "\<forall>r w2. \<exists>e l'' w''. Log_Append x r ls' w2 = (Inl e, l'', w'')" using log_after_crash [OF c] by blast
  have "fst (StoreLogs x (e # es) ls' w2) \<noteq> None" for e es w2
  proof -
    obtain err l'' w'' where "Log_Append x (Some (record_of e)) ls' w2 = (Inl err, l'', w'')" using l(2) by blast
    then show ?thesis by simp
  qed
  moreover have "newLogStore x (lg_Dir ls) c (crashed ls w) = (Inr ls', w')"
    using l(1) unfolding cf NewLog_defaults by (simp add: newLogStore_def)
  ultimately show ?thesis by blast
qed

lemma newLogStore_after_close:
  assumes c: "log_contract x (ls, w) slo srs" and cf: "lg_Config ls = config_defaults c"
  shows "\<exists>l1 w1 ls' w'. Log_Close x ls w = (None, l1, w1) \<and> newLogStore x (lg_Dir ls) c w1 = (Inr ls', w') \<and>
    log_contract x (ls', w') slo srs"
proof -
  obtain l1 w1 ls' w' where l: "Log_Close x ls w = (None, l1, w1)" "NewLog x (lg_Dir ls) (lg_Config ls) w1 = (None, ls', w')"
    "log_contract x (ls', w') slo srs" using Log_close_reopen_contract [OF c] by blast
  have "newLogStore x (lg_Dir ls) c w1 = (Inr ls', w')"
    using l(2) unfolding cf NewLog_defaults by (simp add: newLogStore_def)
  with l(1,3) show ?thesis by blast
qed

end
