(* ===== verification/Spec2Isabelle.thy ===== *)
theory Spec2Isabelle
  imports Lifecycle_Properties DemoAgent Commands Loadbalance Raft_Restart
begin

text \<open>
  A verification library for proglog, a distributed commit log in Go.

  The program. Records are appended to a log on disk (src/internal/log): a \<^verbatim>\<open>store\<close> is a file of
  length-prefixed records, an \<^verbatim>\<open>index\<close> a memory-mapped file from offsets to positions, a \<^verbatim>\<open>segment\<close> a store
  with its index, a \<^verbatim>\<open>Log\<close> a list of segments of which the last is active. A \<^verbatim>\<open>DistributedLog\<close> replicates a
  log through the Raft library: it is the finite-state machine that Raft drives, a second log is the
  log store of Raft, and a stream layer carries Raft's connections. A gRPC service
  (src/internal/server) authenticates and authorizes the calls to it. Serf membership events
  (src/internal/discovery) change the Raft configuration, a resolver and a picker
  (src/internal/loadbalance) route the calls of clients, and an agent (src/internal/agent) puts
  the parts together for the command (src/cmd/proglog).

  Theories, in the order in which they build on each other. Definitions have the names of the Go
  code, with the type in front where a method name is shared (\<^verbatim>\<open>Log.Append\<close> is \<open>Log_Append\<close>).

  \<^item> \<open>Prelude\<close>: machine words, Go errors and panics (\<open>goerr\<close>), the big-endian codec; \<open>GoOS\<close>: files,
    directories, the buffered writer and path names. The world is a record of a file system, kernel
    read positions and a list of faults: every system call takes the next fault and fails with it.
  \<^item> \<open>Api\<close>: messages (api/v1), configuration (config.go), and the record \<open>ext\<close> of third-party calls.
  \<^item> \<open>Store\<close> (store.go), \<open>Index\<close> (index.go), \<open>Segment\<close> (segment.go), \<open>Log\<close> and \<open>Recovery\<close> (log.go). Every part
    has a representation predicate (\<open>store_rep\<close>, \<open>index_rep\<close>, \<open>seg_rep\<close>, \<open>log_rep\<close>) that relates the object
    and the disk to the sequence it stands for; \<open>log_disk\<close> does so for a closed log. The lemmas are the
    effect of each operation on that sequence. Segments are shared by pointer, so a log has a heap of
    them.
  \<^item> \<open>CommitLog\<close>: the interface of the service as the locale \<open>commit_log\<close> (append, read, lowest offset and
    records), and its interpretation on the log. \<open>History\<close>: the step relation \<open>log_step\<close> over appends,
    reads, truncations and restarts, with an invariant that holds in every reachable state.
  \<^item> \<open>Faults\<close>: stores and segments when system calls fail. \<open>store_safe\<close> and \<open>seg_safe\<close> are the weaker
    representations that no fault can break. \<open>Truncate_Faults\<close>: a segment that a failed truncation leaves in
    the log. \<open>Fault_Histories\<close>: \<open>run_ops\<close> runs a sequence of appends, reads, truncations and closings under
    faults, and \<open>hist_safe\<close> is the invariant of such a run: every segment of the list is safe or dead, that
    is, its index was unmapped. The run stops before an operation that would touch such an index
    (\<open>undefined_access\<close>): Go does not define its effect, and the address may have been given to another
    mapping. Without truncations and closings nothing is unmapped (\<open>alive\<close>), so the run goes to its end.
    \<open>Crash\<close>: what a killed process leaves on the disk (\<open>crashed\<close>) and what \<^verbatim>\<open>NewLog\<close> makes of it.
    \<open>Lost_Writes\<close>: a log whose last write fails while it is closed, and what is found when it is opened again.
  \<^item> \<open>Fsm\<close>, \<open>Snapshot\<close>, \<open>RaftStore\<close>, \<open>Distributed\<close>, \<open>StreamLayer\<close>: the parts of distributed.go; \<open>Reader\<close>: reading
    the whole log in pieces (\<open>reads\<close>), and copying one that was just opened. \<open>spec_run\<close> is
    the abstract state machine of committed commands; \<open>dlog_contract\<close> makes the distributed log of a
    leader another instance of \<open>commit_log\<close>. \<open>Cluster_Runs\<close>: the step relation \<open>cl_step\<close> of a cluster whose
    servers apply the committed commands each at its own pace and answer reads from their own log, with
    the invariant that ties every server to a prefix of one sequence of records.
  \<^item> \<open>Auth\<close> and \<open>Server\<close>: authorizer.go and server.go; the locale \<open>service\<close> extends \<open>commit_log\<close> by a server
    over it and is interpreted on the log (\<open>lgs\<close>) and, in \<open>Agent\<close>, on the distributed log (\<open>dls\<close>).
  \<^item> \<open>Membership\<close>: membership.go; the locale \<open>cluster_handler\<close> states what a handler of its events keeps, and
    is interpreted on \<open>DistributedLog_Handler\<close>.
  \<^item> \<open>Loadbalance\<close>: picker.go and resolver.go. \<open>Net\<close>: the part of Go's package net that is used.
    \<open>Configuration\<close>: files.go and tls.go. \<open>Agent\<close>: agent.go. \<open>Startup\<close>: an agent on a machine without data, down
    to the empty log of a leader. \<open>Raft_Restart\<close>: the log store of Raft, which a shutdown leaves open, at the
    next start. \<open>Cli\<close>: src/cmd/proglog/main.go. \<open>Http\<close>: the first version of the service
    (src/_httpLogServer), again an instance of \<open>commit_log\<close>. \<open>Commands\<close>: the three \<^verbatim>\<open>main\<close> functions.
  \<^item> \<open>Demo\<close>, \<open>DemoCluster\<close>, \<open>DemoAgent\<close>: concrete parameters and states, to which the properties are applied.
  \<^item> \<open>Storage_Properties\<close>, \<open>Cluster_Properties\<close>, \<open>Lifecycle_Properties\<close> and this theory hold the properties,
    numbered C1 to C40: what the log and its parts promise, also under faults (C1 to C5, C11, C14, C18,
    C39), replication and the service over it (C6 to C9, C12, C15, C16, C21, C23), membership,
    routing, connections, the agent and the first version (C10, C13, C17, C19, C20, C22, C29, C40), and where
    the code falls short (C24 to C28, C30 to C38).

  Third-party code is a parameter. \<open>ext\<close> and \<open>dext\<close> hold the protobuf codec and the memory mapping, \<open>raftlib\<close>
  Raft, \<open>serflib\<close> Serf, \<open>grpclib\<close> gRPC's client, \<open>tlslib\<close> crypto/tls, \<open>agentlib\<close> what the agent calls,
  \<open>http_codec\<close> the JSON codec; an authorizer holds casbin's decision. What a property needs of them is a
  predicate that states documented behaviour: \<open>codec_ok\<close> and \<open>preq_codec_ok\<close> (a serialised message is
  parsed back), \<open>mmap_ok\<close> (a mapping that the system grants shows and updates its file; the system calls
  behind it may fail like any other), \<open>raft_ok\<close> (a leader applies a command to its state machine before it
  answers, and writes its own files besides, but not those of the log), \<open>raft_starts\<close> (Raft on a machine
  without Raft state), \<open>raft_conf_ok\<close> and \<open>raft_follower_ok\<close> (how the configuration changes on a leader, with
  the checks by which Raft refuses a voter, and that it does not change on a follower). The demo
  theories satisfy all of them.

  Bounds. Offsets and positions are 64-bit words. \<open>config_ok\<close> asks for an index of at least one entry and
  less than \<open>2^32\<close> bytes and a store limit below \<open>2^62\<close>, so that positions do not wrap; the defaults of
  \<^verbatim>\<open>NewLog\<close> satisfy it. \<open>log_fits\<close> asks that the record can be serialised and that the next offset exists.
  \<open>quiet\<close> says that no fault is pending; C11, C23, C33 and C34 do without, C27 starts with some, and
  C28 meets one while it closes the log. C11 allows \<open>2^29\<close> operations, because records are smaller than
  \<open>2^31\<close> bytes and a store must not outgrow an \<^verbatim>\<open>int64\<close>. Loops are structural or have a measure; the
  handlers that wait for the network run over the list of what happens, and the loop of \<^verbatim>\<open>Restore\<close> over
  the bytes that are left, so no fuel is needed.

  Not modelled. Goroutines and locks: every operation under a mutex is one step, and what other
  clients do between the polls of a stream is a parameter of the poll (\<open>tk_others\<close>). Wire formats of
  protobuf and JSON, generated accessors and stubs (src/api/v1), logging, tracing and metrics. TLS is a
  constructor around a connection and the certificates that a peer has proved. Parsing the arguments of
  the commands and the text form of a message are parameters. Addresses of mappings: an access to an
  index that was unmapped is the panic \<^verbatim>\<open>unexpected fault address\<close> (\<open>mem_slice\<close>), which is what the machine
  does as long as nothing else has been mapped there. src/internal/log/replicator.go is commented out.
\<close>


section \<open>Load balancing\<close>

lemma filter_snd_unique:
  assumes "distinct (map snd xs)" "(i, a) \<in> set xs"
  shows "filter (\<lambda>s. a = snd s) xs = [(i, a)]"
  using assms
proof (induction xs)
  case (Cons x xs)
  then show ?case by (cases "a = snd x") (auto simp: filter_empty_conv image_iff)
qed simp

text \<open>
  C19. Produce calls reach the leader. The servers that the leader reports are passed to the client
  connection of the resolver, and whatever the order in which gRPC hands over the connections made
  from them, the picker sends every produce call to the leader and has exactly the other servers as
  followers.
\<close>

theorem produce_to_leader:
  assumes "raft_conf_ok rf lead self conf" and "lead (dl_raft d)"
    and "rf_Leader rf (dl_raft d) = a" and "(i, a) \<in> set (conf (dl_raft d))"
    and "gl_GetServers gl k = fst (server_GetServers (dlog_server dx rf au) c (d, w))"
    and "rv_resolverConn r = Some k" and "rv_clientConn r = Some cc" and "rv_serviceConf r = Some sc"
    and "strings_Contains m ''Produce''"
  shows "\<exists>addrs. rv_updates (snd (ResolveNow gl r)) = rv_updates r @ [(cc, addrs, sc)] \<and>
    (\<forall>scs p. mset scs = mset (map (\<lambda>s. (conn (ra_Addr s), Some (ra_IsLeader s))) addrs) \<longrightarrow>
      (\<exists>p'. Picker_Build scs p = Inr p' \<and> Picker_Pick m p' = (Inr (conn a), p') \<and>
         mset (pk_followers p') = mset (map (\<lambda>s. conn (snd s)) (filter (\<lambda>s. snd s \<noteq> a) (conf (dl_raft d))))))"
proof -
  note D = raft_conf_okD [OF assms(1,2)]
  define addrs where "addrs = map (\<lambda>s. \<lparr>ra_Addr = snd s, ra_IsLeader = (a = snd s)\<rparr>) (conf (dl_raft d))"
  have "gl_GetServers gl k = Inr \<lparr>gres_Servers =
      map (\<lambda>(sid, saddr). \<lparr>srv_Id = sid, srv_RpcAddr = saddr, srv_IsLeader = (a = saddr)\<rparr>) (conf (dl_raft d))\<rparr>"
    using assms(3,5) D(1) by (simp add: server_GetServers_def dlog_server_def DistributedLog_GetServers_def)
  then have upd: "rv_updates (snd (ResolveNow gl r)) = rv_updates r @ [(cc, addrs, sc)]"
    using assms(6-8)
    by (auto simp: ResolveNow_def resolve_addrs_def addrs_def Let_def case_prod_beta comp_def split: option.splits)
  have one: "filter ra_IsLeader addrs = [\<lparr>ra_Addr = a, ra_IsLeader = True\<rparr>]"
    using filter_snd_unique [OF D(3) assms(4)] by (simp add: addrs_def filter_map comp_def)
  have "filter (\<lambda>s. \<not> ra_IsLeader s) addrs =
      map (\<lambda>s. \<lparr>ra_Addr = snd s, ra_IsLeader = (a = snd s)\<rparr>) (filter (\<lambda>s. snd s \<noteq> a) (conf (dl_raft d)))"
    by (simp add: addrs_def filter_map comp_def eq_commute)
  then have "\<exists>p'. Picker_Build scs p = Inr p' \<and> Picker_Pick m p' = (Inr (conn a), p') \<and>
      mset (pk_followers p') = mset (map (\<lambda>s. conn (snd s)) (filter (\<lambda>s. snd s \<noteq> a) (conf (dl_raft d))))"
    if "mset scs = mset (map (\<lambda>s. (conn (ra_Addr s), Some (ra_IsLeader s))) addrs)" for scs p
    using Build_one_leader [OF that one, of p] assms(9) by (auto simp: Picker_Pick_def comp_def)
  with upd show ?thesis by blast
qed

definition d_two :: "raft_demo DistributedLog" where
  "d_two = dlog0\<lparr>dl_raft := [(''0'', ''10.0.0.1:8400''), (''1'', ''10.0.0.2:8400'')]\<rparr>"

definition gl_demo :: "(nat, unit, string, unit) grpclib" where
  "gl_demo = \<lparr>gl_ParseServiceConfig = (\<lambda>cc s. s), gl_NewClient = (\<lambda>e dc. Inr ()),
     gl_GetServers = (\<lambda>k. fst (server_GetServers (dlog_server ddx rf_demo acl) (ctx_of ''root'') (d_two, snd log0))),
     gl_UpdateState = (\<lambda>cc addrs p. None), gl_CloseConn = (\<lambda>k. None)\<rparr>"

theorem produce_to_leader_witness:
  "\<exists>addrs. rv_updates (snd (ResolveNow gl_demo (init_Resolver\<lparr>rv_clientConn := Some 7, rv_resolverConn := Some (),
      rv_serviceConf := Some []\<rparr>))) = [(7, addrs, [])] \<and>
    (\<forall>scs p. mset scs = mset (map (\<lambda>s. (ra_Addr s, Some (ra_IsLeader s))) addrs) \<longrightarrow>
      (\<exists>p'. Picker_Build scs p = Inr p' \<and> Picker_Pick ''/log.v1.Log/Produce'' p' = (Inr ''10.0.0.1:8400'', p') \<and>
         mset (pk_followers p') = {#''10.0.0.2:8400''#}))"
proof -
  have "strings_Contains ''/log.v1.Log/Produce'' ''Produce''"
    by (simp add: strings_Contains_iff) (rule exI [of _ "''/log.v1.Log/''"], simp)
  from produce_to_leader [OF rf_demo_conf_ok, of d_two "''10.0.0.1:8400''" "''0''" gl_demo "()" ddx acl "ctx_of ''root''"
      "snd log0" "init_Resolver\<lparr>rv_clientConn := Some 7, rv_resolverConn := Some (), rv_serviceConf := Some []\<rparr>" 7 "[]"
      _ "\<lambda>s. s", OF _ _ _ _ _ _ _ this]
  show ?thesis by (simp add: d_two_def lead_demo_def rf_demo_def gl_demo_def init_Resolver_def)
qed

text \<open>
  C20. Round robin. As many consume calls as there are followers reach every follower exactly once,
  wherever the rotation stands (as long as its 64-bit counter does not wrap on the way).
\<close>

theorem consume_round_robin:
  assumes "\<not> strings_Contains m ''Produce''" and "strings_Contains m ''Consume''"
    and "pk_followers p \<noteq> []" and "unat (pk_current p) + length (pk_followers p) < 2 ^ 64"
  shows "mset (fst (picks (length (pk_followers p)) m p)) = mset (map Inr (pk_followers p))"
proof -
  have "fst (picks (length (pk_followers p)) m p) = map Inr (map (\<lambda>i. pk_followers p !
      ((unat (pk_current p) + 1 + i) mod length (pk_followers p))) [0..<length (pk_followers p)])"
    using picks_nth [OF assms(1-3) _ assms(4)] assms(4) by simp
  then show ?thesis using rotation_mset [OF assms(3), of "unat (pk_current p) + 1"] by (simp only: mset_map)
qed

theorem consume_round_robin_witness:
  "mset (fst (picks 3 ''/log.v1.Log/Consume'' \<lparr>pk_leader = Some ''a'', pk_followers = [''b'', ''c'', ''d''], pk_current = 5\<rparr>)) =
    {#Inr ''b'', Inr ''c'', Inr ''d''#}"
proof -
  have "strings_Contains ''/log.v1.Log/Consume'' ''Consume''"
    by (simp add: strings_Contains_iff) (rule exI [of _ "''/log.v1.Log/''"], simp)
  moreover have "\<not> strings_Contains ''/log.v1.Log/Consume'' ''Produce''" by (simp add: strings_Contains.simps)
  ultimately show ?thesis
    using consume_round_robin [of "''/log.v1.Log/Consume''" "\<lparr>pk_leader = Some ''a'', pk_followers = [''b'', ''c'', ''d''], pk_current = 5\<rparr>"]
    by (simp add: numeral_3_eq_3 del: picks.simps)
qed

text \<open>
  C37. A picker that is built from connections none of which is marked as leader keeps the leader it had:
  produce calls go on to a connection that gRPC no longer lists as ready.
\<close>

theorem stale_leader:
  assumes "list_all (\<lambda>s. snd s = Some False) scs" and "pk_leader p = Some old" and "strings_Contains m ''Produce''"
  shows "\<exists>p'. Picker_Build scs p = Inr p' \<and> pk_followers p' = map fst scs \<and> Picker_Pick m p' = (Inr old, p')"
proof -
  have "Build_loop scs l fs = Inr (l, fs @ map fst scs)" for l fs
    using assms(1) by (induction scs arbitrary: fs) auto
  then show ?thesis using assms(2,3) by (simp add: Picker_Build_def Picker_Pick_def)
qed

theorem stale_leader_witness:
  "\<exists>p'. Picker_Build [(''b'', Some False), (''c'', Some False)] \<lparr>pk_leader = Some ''a'', pk_followers = [], pk_current = 0\<rparr> = Inr p' \<and>
    pk_followers p' = [''b'', ''c''] \<and> Picker_Pick ''Produce'' p' = (Inr ''a'', p')"
  using stale_leader [of "[(''b'', Some False), (''c'', Some False)]"
      "\<lparr>pk_leader = Some ''a'', pk_followers = [], pk_current = 0\<rparr>" "''a''" "''Produce''"]
  by (simp add: strings_Contains.simps)

text \<open>
  C38. One resolver for all. The registered resolver is the builder and its own product: two client
  connections get the same resolver, and the second takes it over. From then on every resolution that
  gRPC asks for on behalf of the first connection is reported to the second one, as often as it asks,
  and the first connection gets no update any more.
\<close>

theorem resolver_shared:
  assumes "a < length h" and "Resolver_Build gl e1 cc1 dc1 a h = (Inr a1, h1)"
    and "Resolver_Build gl e2 cc2 dc2 a h1 = (Inr a2, h2)"
  shows "a1 = a \<and> a2 = a \<and> (\<exists>k sc. gl_NewClient gl e2 dc2 = Inr k \<and>
    (\<forall>n. \<exists>new. rv_updates (((\<lambda>r. snd (ResolveNow gl r)) ^^ n) (h2 ! a1)) = rv_updates (h2 ! a1) @ new \<and>
       (\<forall>u \<in> set new. fst u = cc2) \<and>
       (\<forall>res. gl_GetServers gl k = Inr res \<longrightarrow> new = replicate n (cc2, resolve_addrs (gres_Servers res), sc))))"
proof -
  have 1: "a1 = a" "length h1 = length h" using Resolver_Build_ok [OF assms(2,1)] by simp_all
  then obtain k sc where 2: "a2 = a" "gl_NewClient gl e2 dc2 = Inr k" "rv_clientConn (h2 ! a) = Some cc2"
    "rv_resolverConn (h2 ! a) = Some k" "rv_serviceConf (h2 ! a) = Some sc"
    using Resolver_Build_ok [OF assms(3)] assms(1) by auto
  have "\<exists>new. rv_updates (((\<lambda>r. snd (ResolveNow gl r)) ^^ n) (h2 ! a1)) = rv_updates (h2 ! a1) @ new \<and>
      (\<forall>u \<in> set new. fst u = cc2) \<and>
      (\<forall>res. gl_GetServers gl k = Inr res \<longrightarrow> new = replicate n (cc2, resolve_addrs (gres_Servers res), sc))" for n
    using ResolveNow_again [OF 2(3-5), where gl = gl and n = n] unfolding 1(1) by (elim exE conjE) (intro exI conjI)
  then show ?thesis using 1(1) 2(1,2) by (intro conjI exI [of _ k] exI [of _ sc] allI)
qed

theorem resolver_shared_witness:
  "\<exists>a1 h1 a2 h2 addrs. Resolver_Build gl_demo ''10.0.0.1:8400'' 1 None 0 init_resolvers = (Inr a1, h1) \<and>
    Resolver_Build gl_demo ''10.0.0.1:8400'' 2 None 0 h1 = (Inr a2, h2) \<and>
    rv_updates (((\<lambda>r. snd (ResolveNow gl_demo r)) ^^ 3) (h2 ! a1)) = rv_updates (h2 ! a1) @ replicate 3 (2, addrs)"
proof -
  obtain res where res: "gl_GetServers gl_demo () = Inr res"
    by (simp add: gl_demo_def server_GetServers_def dlog_server_def DistributedLog_GetServers_def rf_demo_def)
  have b: "\<exists>h'. Resolver_Build gl_demo e cc None 0 h = (Inr 0, h')" for e cc h
    using res by (auto simp: Resolver_Build_def ResolveNow_def Let_def gl_demo_def split: sum.splits)
  obtain h1 h2 where h: "Resolver_Build gl_demo ''10.0.0.1:8400'' 1 None 0 init_resolvers = (Inr 0, h1)"
    "Resolver_Build gl_demo ''10.0.0.1:8400'' 2 None 0 h1 = (Inr 0, h2)" using b by meson
  have "0 < length init_resolvers" by (simp add: init_resolvers_def)
  note shared = resolver_shared [OF this h]
  obtain sc where "\<forall>n. \<exists>new. rv_updates (((\<lambda>r. snd (ResolveNow gl_demo r)) ^^ n) (h2 ! 0)) = rv_updates (h2 ! 0) @ new \<and>
      (\<forall>u \<in> set new. fst u = 2) \<and>
      (\<forall>res. gl_GetServers gl_demo () = Inr res \<longrightarrow> new = replicate n (2, resolve_addrs (gres_Servers res), sc))"
    using shared by (elim conjE exE) simp
  then have "rv_updates (((\<lambda>r. snd (ResolveNow gl_demo r)) ^^ 3) (h2 ! 0)) =
      rv_updates (h2 ! 0) @ replicate 3 (2, resolve_addrs (gres_Servers res), sc)"
    using res by (elim allE [of _ 3] exE conjE) simp
  with h show ?thesis by (intro exI conjI)
qed

section \<open>Membership\<close>

text \<open>
  C10. The cluster follows its members. On the leader, the configuration after any sequence of membership
  events is that of the specification: members that join are added, members that come back under
  another address are replaced, members that leave or fail are removed, and the local member is
  never touched. A member without an identifier or an address, and one whose address belongs to
  another server, is refused by Raft: it is not added, its old entry is gone, and one error is logged
  for it. Nothing else is logged, and the node stays leader.
\<close>

theorem cluster_follows_events:
  assumes "raft_conf_ok rf lead self conf" and "lead (dl_raft d)"
  shows "\<exists>d' errors. eventHandler (DistributedLog_Handler rf) self es (d, lg) = (d', lg @ errors) \<and> lead (dl_raft d') \<and>
    conf (dl_raft d') = fst (spec_events self es (conf (dl_raft d))) \<and>
    list_all2 (\<lambda>m e. le_level e = ErrorLevel \<and> le_msg e = ''failed to join'' \<and> le_err e \<noteq> raft_ErrNotLeader \<and>
        le_name e = mb_Name m \<and> le_rpc_addr e = tag m ''rpc_addr'')
      (snd (spec_events self es (conf (dl_raft d)))) errors"
  using ch.eventHandler_conf [where lead = lead, OF conjI [OF assms]]
  unfolding refusal_def [abs_def] by blast

definition member_of :: "string \<Rightarrow> string \<Rightarrow> member" where
  "member_of n a = \<lparr>mb_Name = n, mb_Tags = [''rpc_addr'' \<mapsto> a]\<rparr>"

theorem cluster_follows_events_witness:
  "\<exists>d' e. eventHandler (DistributedLog_Handler rf_demo) ''0''
      [EventMemberJoin [member_of ''0'' ''a:1'', member_of ''1'' ''b:1'', member_of ''2'' ''c:1''],
       EventMemberJoin [member_of ''1'' ''b:2'', \<lparr>mb_Name = ''3'', mb_Tags = (\<lambda>k. None)\<rparr>],
       EventMemberFailed [member_of ''2'' ''c:1'']]
      (dlog0\<lparr>dl_raft := [(''0'', ''a:1'')]\<rparr>, []) = (d', [e]) \<and>
    dl_raft d' = [(''0'', ''a:1''), (''1'', ''b:2'')] \<and> le_level e = ErrorLevel \<and> le_name e = ''3''"
proof -
  let ?d = "dlog0\<lparr>dl_raft := [(''0'', ''a:1'')]\<rparr>"
  let ?es = "[EventMemberJoin [member_of ''0'' ''a:1'', member_of ''1'' ''b:1'', member_of ''2'' ''c:1''],
       EventMemberJoin [member_of ''1'' ''b:2'', \<lparr>mb_Name = ''3'', mb_Tags = (\<lambda>k. None)\<rparr>],
       EventMemberFailed [member_of ''2'' ''c:1'']]"
  have l: "lead_demo (dl_raft ?d)" by (simp add: lead_demo_def)
  have s: "spec_events ''0'' ?es (dl_raft ?d) = ([(''0'', ''a:1''), (''1'', ''b:2'')], [\<lparr>mb_Name = ''3'', mb_Tags = (\<lambda>k. None)\<rparr>])"
    by (simp add: member_of_def spec_join_def refused_def isLocal_def tag_def)
  obtain d' errors where "eventHandler (DistributedLog_Handler rf_demo) ''0'' ?es (?d, []) = (d', [] @ errors)"
    "dl_raft d' = fst (spec_events ''0'' ?es (dl_raft ?d))"
    "list_all2 (\<lambda>m e. le_level e = ErrorLevel \<and> le_msg e = ''failed to join'' \<and> le_err e \<noteq> raft_ErrNotLeader \<and>
        le_name e = mb_Name m \<and> le_rpc_addr e = tag m ''rpc_addr'') (snd (spec_events ''0'' ?es (dl_raft ?d))) errors"
    using cluster_follows_events [OF rf_demo_conf_ok l, of ?es "[]"] by blast
  then show ?thesis unfolding s by (auto simp: list_all2_Cons1 simp del: eventHandler.simps)
qed

text \<open>
  C29. Followers stay out of it. On a server that is not the leader the same events change nothing, and
  everything that is logged is \<^verbatim>\<open>raft.ErrNotLeader\<close> at debug level.
\<close>

theorem followers_stay_out:
  assumes "raft_follower_ok rf follow conf" and "follow (dl_raft d)"
  shows "\<exists>log. eventHandler (DistributedLog_Handler rf) self es (d, lg) = (d, lg @ log) \<and>
    list_all (\<lambda>e. le_level e = DebugLevel \<and> le_err e = raft_ErrNotLeader) log"
  using eventHandler_follower [OF assms] by (auto simp: follower_log_def list_all_iff)

theorem followers_stay_out_witness:
  "\<exists>log. eventHandler (DistributedLog_Handler rf_follower) ''1'' [EventMemberJoin [member_of ''2'' ''c:1'']] (dlog0, []) = (dlog0, log) \<and>
    list_all (\<lambda>e. le_level e = DebugLevel \<and> le_err e = raft_ErrNotLeader) log"
  using followers_stay_out [OF rf_follower_ok, where d = dlog0 and self = "''1''" and lg = "[]" and
      es = "[EventMemberJoin [member_of ''2'' ''c:1'']]"] by (simp del: eventHandler.simps)

text \<open>
  C35. A node that comes back under a new name at its old address cannot join: the code asks Raft to remove
  the new name instead of the server that holds the address, so nothing is removed and Raft refuses
  the voter. The comment in the code says that the existing server is removed.
\<close>

theorem renamed_node_refused:
  assumes "raft_conf_ok rf lead self conf" and "lead (dl_raft d)"
    and "i \<notin> fst ` set (conf (dl_raft d))" and "(j, a) \<in> set (conf (dl_raft d))"
  shows "\<exists>e d'. DistributedLog_Join rf i a d = (Some e, d') \<and> conf (dl_raft d') = conf (dl_raft d)"
  using Join_taken [OF assms] by fastforce

theorem renamed_node_refused_witness:
  "\<exists>e d'. DistributedLog_Join rf_demo ''2'' ''10.0.0.2:8400'' d_two = (Some e, d') \<and>
    dl_raft d' = [(''0'', ''10.0.0.1:8400''), (''1'', ''10.0.0.2:8400'')]"
  using renamed_node_refused [OF rf_demo_conf_ok, of d_two "''2''" "''1''" "''10.0.0.2:8400''"]
  by (simp add: d_two_def lead_demo_def)

section \<open>One port for Raft and gRPC\<close>

text \<open>
  C22. A connection that the stream layer dials is recognised at the other end as one of Raft, and is
  accepted with exactly the bytes that were sent after dialling; both ends speak TLS if they are
  configured to. A connection that starts with any other byte goes to gRPC.
\<close>

theorem raft_connection:
  assumes "dial addr = Inr c0" and "rw_out c0 = []" and "StreamLayer_Dial dial None addr cli = Inr conn"
    and "rw_in c = Stream (rw_out (raw conn) @ payload) err" and "accept (sl_ln srv) = (Inr c, ln)"
  shows "mux_dispatch c = RaftService \<and>
    (\<exists>conn'. StreamLayer_Accept accept srv = (Inr conn', srv\<lparr>sl_ln := ln\<rparr>) \<and> rw_in (raw conn') = Stream payload err \<and>
       (conn = Plain (raw conn) \<longleftrightarrow> sl_peerTLSConfig cli = None) \<and>
       (conn' = Plain (raw conn') \<longleftrightarrow> sl_serverTLSConfig srv = None)) \<and>
    (\<forall>b bs e. b \<noteq> RaftRPC \<longrightarrow> mux_dispatch (c\<lparr>rw_in := Stream (b # bs) e\<rparr>) = GRPCService)"
proof -
  have d: "rw_out (raw conn) = [RaftRPC]" "conn = Plain (raw conn) \<longleftrightarrow> sl_peerTLSConfig cli = None"
    using StreamLayer_Dial_ok [of dial addr c0 cli] assms(1-3) by (auto split: option.splits)
  then have c: "rw_in c = Stream (RaftRPC # payload) err" using assms(4) by simp
  then have "mux_dispatch c = RaftService" by (auto simp: mux_dispatch_iff)
  moreover have "\<exists>conn'. StreamLayer_Accept accept srv = (Inr conn', srv\<lparr>sl_ln := ln\<rparr>) \<and>
      rw_in (raw conn') = Stream payload err \<and> (conn' = Plain (raw conn') \<longleftrightarrow> sl_serverTLSConfig srv = None)"
    using StreamLayer_Accept_raft [where accept = accept and s = srv and c = c and ln = ln, OF assms(5) c]
    by (auto split: option.splits)
  ultimately show ?thesis using d(2) by (auto simp: mux_dispatch_def raft_match_def)
qed

theorem raft_connection_witness:
  "\<exists>conn conn'. StreamLayer_Dial (\<lambda>a. Inr \<lparr>rw_in = Stream [] EOF, rw_out = []\<rparr>) None ''10.0.0.2:8400''
      (NewStreamLayer () (None :: unit option) None) = Inr conn \<and>
    StreamLayer_Accept (\<lambda>ln. (Inr \<lparr>rw_in = Stream (rw_out (raw conn) @ [9, 8]) EOF, rw_out = []\<rparr>, ln))
      (NewStreamLayer () (None :: unit option) None) = (Inr conn', NewStreamLayer () None None) \<and>
    rw_in (raw conn') = Stream [9, 8] EOF"
proof -
  let ?dial = "\<lambda>a :: string. Inr \<lparr>rw_in = Stream [] EOF, rw_out = []\<rparr> :: goerr + raw_conn"
  let ?s = "NewStreamLayer () (None :: unit option) None"
  obtain conn where d: "StreamLayer_Dial ?dial None ''10.0.0.2:8400'' ?s = Inr conn"
    using StreamLayer_Dial_ok [of ?dial] by blast
  from raft_connection [of ?dial, OF refl _ d, of "\<lparr>rw_in = Stream (rw_out (raw conn) @ [9, 8]) EOF, rw_out = []\<rparr>" "[9, 8]" EOF
      "\<lambda>ln. (Inr \<lparr>rw_in = Stream (rw_out (raw conn) @ [9, 8]) EOF, rw_out = []\<rparr>, ln)" ?s "()"] d
  show ?thesis by (auto simp: NewStreamLayer_def)
qed

text \<open>
  The address of the RPC port. For a bind address with a host name or an IPv4 address, or with an
  address in brackets, the agent computes the address of its RPC port; that address is read back as
  the host and the RPC port exactly when the host contains no colon. For IPv6 the brackets are lost.
\<close>

theorem rpc_addr_reads_back:
  assumes "ac_BindAddr c = host @ '':'' @ port \<and> plain_addr host \<or> ac_BindAddr c = ''['' @ host @ '']:'' @ port"
    and "CHR ''['' \<notin> set host" and "CHR '']'' \<notin> set host" and "plain_addr port"
  shows "\<exists>addr. RPCAddr c = Inr addr \<and>
    (SplitHostPort addr = Inr (host, dec_int (ac_RPCPort c)) \<longleftrightarrow> CHR '':'' \<notin> set host)"
proof -
  have r: "RPCAddr c = Inr (host @ '':'' @ dec_int (ac_RPCPort c))"
    using assms RPCAddr_plain RPCAddr_brackets by blast
  have "SplitHostPort (host @ '':'' @ dec_int (ac_RPCPort c)) = Inr (host, dec_int (ac_RPCPort c)) \<longleftrightarrow> CHR '':'' \<notin> set host"
    using SplitHostPort_plain [of host "dec_int (ac_RPCPort c)"] SplitHostPort_colons [of host "dec_int (ac_RPCPort c)"]
      dec_int_plain assms(2,3) by (auto simp: plain_addr_def)
  with r show ?thesis by blast
qed

theorem rpc_addr_reads_back_witness:
  "\<exists>addr. RPCAddr (cfg_demo\<lparr>ac_BindAddr := ''[::1]:8401''\<rparr>) = Inr addr \<and>
    SplitHostPort addr \<noteq> Inr (''::1'', dec_int 8400)"
  using rpc_addr_reads_back [of "cfg_demo\<lparr>ac_BindAddr := ''[::1]:8401''\<rparr>" "''::1''" "''8401''"]
  by (auto simp: plain_addr_def cfg_demo_def)


section \<open>The agent\<close>

text \<open>
  C13. A new node serves. On a machine without data, when the libraries start without a fault and Raft
  elects the only server, \<^verbatim>\<open>New\<close> returns an agent whose components agree, and whose server stores a
  record that an allowed client produces at offset 0 and returns it to an allowed client.
\<close>

theorem agent_serves_fresh:
  assumes "libs_start al cfg addr au" and "ac_Bootstrap cfg" and "fresh_machine (ac_DataDir cfg) w"
    and "codec_ok (dx_ext (al_dext al))" and "mmap_ok (dx_ext (al_dext al))" and "preq_codec_ok (al_dext al)"
    and "raft_starts (al_raft al) (ac_DataDir cfg) (log_Config cfg addr) r1" and "raft_ok (al_dext al) (al_raft al) lead"
    and "\<exists>t \<in> set (al_ticks al). rf_Leader (al_raft al) t \<noteq> ''''"
    and "\<forall>t \<in> set (al_ticks al). rf_Leader (al_raft al) t \<noteq> '''' \<longrightarrow> lead t"
    and "peer_subject c = Some sub" and "dlog_fits (al_dext al) 0 (preq_Record req)"
    and "au_enforcer au sub objectWildcard produceAction = Inr True"
    and "au_enforcer au sub objectWildcard consumeAction = Inr True"
  shows "\<exists>a w' d srv s1 s2. NewAgent al cfg w = (Inr a, w') \<and> wired al a \<and> ag_log a = Some d \<and> ag_server a = Some srv \<and>
    unary_call (\<lambda>c. Produce (gs_Config srv) c req) c (d, w') = (Inr \<lparr>pres_Offset = 0\<rparr>, s1) \<and>
    unary_call (\<lambda>c. Consume (gs_Config srv) c \<lparr>creq_Offset = 0\<rparr>) c s1 = (Inr \<lparr>cres_Record = log_stamp 0 (preq_Record req)\<rparr>, s2)"
proof -
  obtain a w' d srv where a: "NewAgent al cfg w = (Inr a, w')" "ag_log a = Some d" "ag_server a = Some srv"
    "gs_Config srv = dlog_server (al_dext al) (al_raft al) au" "dlog_contract (al_dext al) (al_raft al) lead (d, w') 0 []"
    using NewAgent_fresh [OF assms(1-10)] by blast
  have allowed: "allowed (dlog_server dx rf au) (c\<lparr>ctx_subject := Some sub\<rparr>) produceAction"
    "allowed (dlog_server dx rf au) (c\<lparr>ctx_subject := Some sub\<rparr>) consumeAction" for dx rf
    using assms(13,14) by (simp_all add: allowed_def dlog_server_def)
  have run: "unary_call h c s = h (c\<lparr>ctx_subject := Some sub\<rparr>) s" for h :: "ctx \<Rightarrow> 'a DistributedLog \<times> world \<Rightarrow> (goerr + 'd) \<times> 'a DistributedLog \<times> world" and s
    using authenticate_subject(1) [OF assms(11)] by (simp add: unary_call_def)
  obtain s1 where s1: "Produce (gs_Config srv) (c\<lparr>ctx_subject := Some sub\<rparr>) req (d, w') = (Inr \<lparr>pres_Offset = 0\<rparr>, s1)"
    "dlog_contract (al_dext al) (al_raft al) lead s1 0 [log_stamp 0 (preq_Record req)]"
    using dls.Produce_rep [OF allowed(1) a(5), of req] assms(12) unfolding a(4) by auto
  obtain s2 where "Consume (gs_Config srv) (c\<lparr>ctx_subject := Some sub\<rparr>) \<lparr>creq_Offset = 0\<rparr> s1 =
      (Inr \<lparr>cres_Record = log_stamp 0 (preq_Record req)\<rparr>, s2)"
    using dls.Consume_hit [OF allowed(2) s1(2), of "\<lparr>creq_Offset = 0\<rparr>"] unfolding a(4) by auto
  with a(1-3) s1(1) conjunct1 [OF NewAgent_wired [OF a(1)]] show ?thesis unfolding run by blast
qed

theorem agent_serves_fresh_witness:
  "\<exists>a w' d srv s1 s2. NewAgent al_demo cfg_demo w_new = (Inr a, w') \<and> ag_log a = Some d \<and> ag_server a = Some srv \<and>
    unary_call (\<lambda>c. Produce (gs_Config srv) c \<lparr>preq_Record = Some (rec_of 3)\<rparr>)
      \<lparr>ctx_peer = Some \<lparr>peer_AuthInfo = Some (TLSInfo [[''root'', ''ca'']])\<rparr>, ctx_subject = None\<rparr> (d, w') =
      (Inr \<lparr>pres_Offset = 0\<rparr>, s1) \<and>
    unary_call (\<lambda>c. Consume (gs_Config srv) c \<lparr>creq_Offset = 0\<rparr>)
      \<lparr>ctx_peer = Some \<lparr>peer_AuthInfo = Some (TLSInfo [[''root'', ''ca'']])\<rparr>, ctx_subject = None\<rparr> s1 =
      (Inr \<lparr>cres_Record = rec_of 3\<rparr>, s2)"
proof -
  let ?c = "\<lparr>ctx_peer = Some \<lparr>peer_AuthInfo = Some (TLSInfo [[''root'', ''ca'']])\<rparr>, ctx_subject = None\<rparr>"
  have ids: "rc_LocalID (dc_Raft (log_Config cfg_demo ''127.0.0.1:8400'')) = ''0''"
    "dc_BindAddr (log_Config cfg_demo ''127.0.0.1:8400'') = ''127.0.0.1:8400''"
    "rf_Leader rf_demo [(''0'', ''127.0.0.1:8400'')] = ''127.0.0.1:8400''"
    by (simp_all add: log_Config_def cfg_demo_def rf_demo_def)
  have hyps: "fresh_machine (ac_DataDir cfg_demo) w_new" "codec_ok (dx_ext (al_dext al_demo))"
    "mmap_ok (dx_ext (al_dext al_demo))" "preq_codec_ok (al_dext al_demo)"
    "raft_starts (al_raft al_demo) (ac_DataDir cfg_demo) (log_Config cfg_demo ''127.0.0.1:8400'') [(''0'', ''127.0.0.1:8400'')]"
    "raft_ok (al_dext al_demo) (al_raft al_demo) lead_demo"
    "\<exists>t \<in> set (al_ticks al_demo). rf_Leader (al_raft al_demo) t \<noteq> ''''"
    "\<forall>t \<in> set (al_ticks al_demo). rf_Leader (al_raft al_demo) t \<noteq> '''' \<longrightarrow> lead_demo t"
    "peer_subject ?c = Some ''root''"
    using fresh_machine_demo raft_starts_demo [of "''data''" "log_Config cfg_demo ''127.0.0.1:8400''"] ids
    by (simp_all add: lead_demo_def peer_subject_def)
  have fits: "dlog_fits (al_dext al_demo) 0 (preq_Record \<lparr>preq_Record = Some (rec_of 3)\<rparr>)"
    using demo_fits [of 0 "rec_of 3"] by (simp add: dlog_fits_def rec_of_def ddx_def demo_marshal_def)
  have acl: "au_enforcer acl ''root'' objectWildcard produceAction = Inr True"
    "au_enforcer acl ''root'' objectWildcard consumeAction = Inr True"
    by (simp_all add: acl_def objectWildcard_def produceAction_def consumeAction_def)
  have stamp: "log_stamp 0 (preq_Record \<lparr>preq_Record = Some (rec_of 3)\<rparr>) = rec_of 3"
    by (simp add: log_stamp_def rec_of_def)
  from agent_serves_fresh [OF libs_start_demo cfg_demo_simps(2) hyps fits acl] show ?thesis unfolding stamp by blast
qed

text \<open>
  C17. Shutdown keeps the records. When the cluster and Raft let the agent go, its shutdown succeeds, and
  \<^verbatim>\<open>setupLog\<close>, the first step of a start, then finds in the same data directory a log with the same
  records at the same offsets. (The next step, opening the log store of Raft, is the subject of C24;
  what Raft makes of the records when it applies its log again, of C25.)
\<close>

theorem agent_restart:
  assumes "ag_log a = Some d" and "ag_server a = Some srv" and "ag_membership a = Some m" and "\<not> ag_shutdown a"
    and "log_contract (dx_ext (al_dext al)) (dl_log d, w) lo rs"
    and "lg_Dir (dl_log d) = path_Join [dataDir, ''log'']" and "lg_Config (dl_log d) = config_defaults (dc_Segment c)"
    and "fst (Membership_Leave (al_serf al) m) = None" and "fst (rf_Shutdown (al_raft al) (dl_raft d)) = None"
  shows "\<exists>a' w' l w''. Shutdown al a w = (None, a', w') \<and> ag_stopped a' \<and>
    DistributedLog_setupLog (dx_ext (al_dext al)) dataDir c w' = (Inr l, w'') \<and>
    log_contract (dx_ext (al_dext al)) (l, w'') lo rs"
proof -
  obtain m' r where "Membership_Leave (al_serf al) m = (None, m')" "rf_Shutdown (al_raft al) (dl_raft d) = (None, r)"
    using assms(8,9) by (metis prod.collapse)
  note ok = Shutdown_ok [OF assms(1-4) this]
  obtain l1 w1 l2 w2 where l: "Log_Close (dx_ext (al_dext al)) (dl_log d) w = (None, l1, w1)"
    "DistributedLog_setupLog (dx_ext (al_dext al)) dataDir c w1 = (Inr l2, w2)"
    "log_contract (dx_ext (al_dext al)) (l2, w2) lo rs" using setupLog_reopen [OF assms(5-7)] by blast
  from ok [OF l(1)] l(2,3) show ?thesis by fastforce
qed

definition running_demo :: "Log \<Rightarrow> (raft_demo, member list, unit) Agent" where
  "running_demo l = \<lparr>ag_Config = cfg_demo, ag_mux = Some ''127.0.0.1:8400'', ag_stream = None,
     ag_log = Some \<lparr>dl_config = log_Config cfg_demo ''127.0.0.1:8400'', dl_log = l, dl_raft = [(''0'', ''127.0.0.1:8400'')]\<rparr>,
     ag_creds = None, ag_server = Some \<lparr>gs_health = ['''' \<mapsto> SERVING], gs_Config = dlog_server ddx rf_demo acl\<rparr>,
     ag_stopped = False,
     ag_membership = Some \<lparr>ms_Config = \<lparr>mc_NodeName = ''0'', mc_BindAddr = ''127.0.0.1:8401'',
       mc_Tags = [''rpc_addr'' \<mapsto> ''127.0.0.1:8400''], mc_StartJoinAddrs = None\<rparr>, ms_serf = []\<rparr>,
     ag_shutdown = False\<rparr>"

lemma fresh_agent_log:
  "\<exists>l w. log_contract demo (l, w) 0 [(rec_of 1)\<lparr>r_Offset := 0\<rparr>] \<and> lg_Dir l = ''data/log'' \<and>
    lg_Config l = config_defaults (dc_Segment (log_Config cfg_demo ''127.0.0.1:8400''))"
proof -
  let ?c = "dc_Segment (log_Config cfg_demo ''127.0.0.1:8400'')"
  have ok: "config_ok (config_defaults ?c)" by (simp add: log_Config_def config_defaults_def config_ok_def Let_def)
  have w: "quiet w_new" "fs w_new ''data/log'' = None" by (simp_all add: w_new_def quiet_def)
  obtain l w where l: "log_contract demo (l, w) 0 []" "lg_Dir l = ''data/log''" "lg_Config l = config_defaults ?c"
    using fresh_log [OF w ok demo_codec_ok demo_mmap_ok] by (auto simp: log_Config_def)
  have "log_fits demo (0 + length ([] :: api_Record list)) (Some (rec_of 1))" by (rule demo_fits) (simp_all add: rec_of_def)
  from Log_Append_contract [OF l(1) this] obtain l' w' where
    l': "Log_Append demo (Some (rec_of 1)) l w = (Inr 0, l', w')" "log_contract demo (l', w') 0 [(rec_of 1)\<lparr>r_Offset := 0\<rparr>]"
    unfolding list.size append_Nil add_0 semiring_1_class.of_nat_0 by blast
  have "lg_Dir l' = ''data/log''" "lg_Config l' = config_defaults ?c" using Log_Append_dir [OF l'(1)] l(2,3) by simp_all
  with l'(2) show ?thesis by blast
qed

theorem agent_restart_witness:
  "\<exists>l0 w a' w' l w''. log_contract demo (l0, w) 0 [(rec_of 1)\<lparr>r_Offset := 0\<rparr>] \<and>
    Shutdown al_demo (running_demo l0) w = (None, a', w') \<and>
    DistributedLog_setupLog demo ''data'' (log_Config cfg_demo ''127.0.0.1:8400'') w' = (Inr l, w'') \<and>
    log_contract demo (l, w'') 0 [(rec_of 1)\<lparr>r_Offset := 0\<rparr>]"
proof -
  obtain l0 w where l0: "log_contract demo (l0, w) 0 [(rec_of 1)\<lparr>r_Offset := 0\<rparr>]" "lg_Dir l0 = ''data/log''"
    "lg_Config l0 = config_defaults (dc_Segment (log_Config cfg_demo ''127.0.0.1:8400''))" using fresh_agent_log by blast
  have al: "al_dext al_demo = ddx" "al_raft al_demo = rf_demo" "al_serf al_demo = serf_demo" by (simp_all add: al_demo_def)
  let ?a = "running_demo l0"
  have a: "ag_server ?a = Some (the (ag_server ?a))" "ag_membership ?a = Some (the (ag_membership ?a))"
    "\<not> ag_shutdown ?a" "ag_log ?a = Some (the (ag_log ?a))" "dl_log (the (ag_log ?a)) = l0"
    by (simp_all add: running_demo_def)
  have free: "fst (Membership_Leave (al_serf al_demo) m) = None" "fst (rf_Shutdown (al_raft al_demo) r) = None" for m r
    by (simp_all add: al Membership_Leave_def serf_demo_def rf_demo_def)
  have dir: "lg_Dir (dl_log (the (ag_log ?a))) = path_Join [''data'', ''log'']"
    "lg_Config (dl_log (the (ag_log ?a))) = config_defaults (dc_Segment (log_Config cfg_demo ''127.0.0.1:8400''))"
    using l0(2,3) by (simp_all only: a(5) path_Join_demo)
  have c: "log_contract (dx_ext (al_dext al_demo)) (dl_log (the (ag_log ?a)), w) 0 [(rec_of 1)\<lparr>r_Offset := 0\<rparr>]"
    using l0(1) by (simp only: al ddx_ext a(5))
  from agent_restart [OF a(4,1,2,3) c dir free] l0(1) show ?thesis unfolding al ddx_ext by blast
qed

text \<open>
  C24. The log store of Raft is never closed. \<^verbatim>\<open>setupRaft\<close> hands it to Raft, which does not close it, and
  \<^verbatim>\<open>DistributedLog.Close\<close> closes the log of records only. So after a shutdown that reports success its index
  files have the length they were mapped with, as after a crash: the next start opens the log store
  without an error, but Raft cannot store a single entry in it. If it had been closed, the next start
  would find its entries and could go on.
\<close>

theorem raft_store_left_open:
  assumes "ag_log a = Some d" and "ag_server a = Some srv" and "ag_membership a = Some m" and "\<not> ag_shutdown a"
    and "log_contract (dx_ext (al_dext al)) (dl_log d, w) lo rs"
    and "fst (Membership_Leave (al_serf al) m) = None" and "fst (rf_Shutdown (al_raft al) (dl_raft d)) = None"
    and "log_contract (dx_ext (al_dext al)) (logStore, w) slo srs" and "lg_Dir logStore \<noteq> lg_Dir (dl_log d)"
    and "lg_Dir logStore = path_Join [dataDir, ''raft'', ''log'']"
    and "lg_Config logStore = config_defaults ((dc_Segment c)\<lparr>InitialOffset := 1\<rparr>)"
  shows "\<exists>a' w'. Shutdown al a w = (None, a', w') \<and>
    (\<exists>ls w''. newLogStore (dx_ext (al_dext al)) (path_Join [dataDir, ''raft'', ''log'']) ((dc_Segment c)\<lparr>InitialOffset := 1\<rparr>)
        (crashed logStore w') = (Inr ls, w'') \<and>
      (\<forall>e es w2. fst (StoreLogs (dx_ext (al_dext al)) (e # es) ls w2) \<noteq> None)) \<and>
    (\<exists>ls1 w1 ls w''. Log_Close (dx_ext (al_dext al)) logStore w' = (None, ls1, w1) \<and>
      newLogStore (dx_ext (al_dext al)) (path_Join [dataDir, ''raft'', ''log'']) ((dc_Segment c)\<lparr>InitialOffset := 1\<rparr>) w1 = (Inr ls, w'') \<and>
      log_contract (dx_ext (al_dext al)) (ls, w'') slo srs)"
proof -
  obtain m' r where "Membership_Leave (al_serf al) m = (None, m')" "rf_Shutdown (al_raft al) (dl_raft d) = (None, r)"
    using assms(6,7) by (metis prod.collapse)
  note ok = Shutdown_ok [OF assms(1-4) this]
  obtain l1 w1 where l: "Log_Close (dx_ext (al_dext al)) (dl_log d) w = (None, l1, w1)"
    using Log_close_reopen_contract [OF assms(5)] by blast
  have still: "log_contract (dx_ext (al_dext al)) (logStore, w1) slo srs" by (rule other_log_open [OF assms(5,8,9) l])
  show ?thesis
    using ok [OF l] newLogStore_after_crash [OF still assms(11)] newLogStore_after_close [OF still assms(11)]
    unfolding assms(10) by blast
qed

lemma fresh_agent_logs:
  "\<exists>l ls w. log_contract demo (l, w) 0 [] \<and> lg_Dir l = ''data/log'' \<and> log_contract demo (ls, w) 1 [] \<and>
    lg_Dir ls = ''data/raft/log'' \<and>
    lg_Config ls = config_defaults ((dc_Segment (log_Config cfg_demo ''127.0.0.1:8400''))\<lparr>InitialOffset := 1\<rparr>)"
proof -
  let ?c = "dc_Segment (log_Config cfg_demo ''127.0.0.1:8400'')"
  have ok: "config_ok (config_defaults ?c)" "config_ok (config_defaults (?c\<lparr>InitialOffset := 1\<rparr>))"
    by (simp_all add: log_Config_def config_defaults_def config_ok_def Let_def)
  have w: "quiet w_new" "fs w_new ''data/log'' = None" by (simp_all add: w_new_def quiet_def)
  obtain l w where l: "log_contract demo (l, w) 0 []" "lg_Dir l = ''data/log''" "quiet w" "same_but ''data/log'' w_new w"
    using fresh_log [OF w ok(1) demo_codec_ok demo_mmap_ok] by (auto simp: log_Config_def)
  then have n: "fs w ''data/raft/log'' = None" by (simp add: same_but_def w_new_def)
  obtain ls w' where ls: "log_contract demo (ls, w') 1 []" "lg_Dir ls = ''data/raft/log''"
    "lg_Config ls = config_defaults (?c\<lparr>InitialOffset := 1\<rparr>)" "quiet w'" "same_but ''data/raft/log'' w w'"
    using fresh_log [OF l(3) n ok(2) demo_codec_ok demo_mmap_ok] by auto
  then have "log_contract demo (l, w') 0 []" using l(2) by (intro log_contract_frame [OF l(1)]) (simp_all add: same_but_def)
  with l(2) ls(1-3) show ?thesis by blast
qed

theorem raft_store_left_open_witness:
  "\<exists>l0 logStore w a' w' ls w''. log_contract demo (logStore, w) 1 [] \<and>
    Shutdown al_demo (running_demo l0) w = (None, a', w') \<and>
    newLogStore demo ''data/raft/log'' ((dc_Segment (log_Config cfg_demo ''127.0.0.1:8400''))\<lparr>InitialOffset := 1\<rparr>)
      (crashed logStore w') = (Inr ls, w'') \<and> fst (StoreLogs demo [cmd_of 1] ls w'') \<noteq> None"
proof -
  obtain l0 logStore w where l: "log_contract demo (l0, w) 0 []" "lg_Dir l0 = ''data/log''" "log_contract demo (logStore, w) 1 []"
    "lg_Dir logStore = ''data/raft/log''"
    "lg_Config logStore = config_defaults ((dc_Segment (log_Config cfg_demo ''127.0.0.1:8400''))\<lparr>InitialOffset := 1\<rparr>)"
    using fresh_agent_logs by blast
  let ?a = "running_demo l0"
  have al: "al_dext al_demo = ddx" "al_raft al_demo = rf_demo" "al_serf al_demo = serf_demo" by (simp_all add: al_demo_def)
  have a: "ag_server ?a = Some (the (ag_server ?a))" "ag_membership ?a = Some (the (ag_membership ?a))"
    "\<not> ag_shutdown ?a" "ag_log ?a = Some (the (ag_log ?a))" "dl_log (the (ag_log ?a)) = l0"
    by (simp_all add: running_demo_def)
  have free: "fst (Membership_Leave (al_serf al_demo) m) = None" "fst (rf_Shutdown (al_raft al_demo) r) = None" for m r
    by (simp_all add: al Membership_Leave_def serf_demo_def rf_demo_def)
  have c: "log_contract (dx_ext (al_dext al_demo)) (dl_log (the (ag_log ?a)), w) 0 []"
    "log_contract (dx_ext (al_dext al_demo)) (logStore, w) 1 []" using l(1,3) by (simp_all only: al ddx_ext a(5))
  have d: "lg_Dir logStore \<noteq> lg_Dir (dl_log (the (ag_log ?a)))" "lg_Dir logStore = path_Join [''data'', ''raft'', ''log'']"
    using l(2,4) by (simp_all only: a(5) path_Join_demo) simp
  from raft_store_left_open [OF a(4,1,2,3) c(1) free c(2) d l(5)] l(3) show ?thesis
    unfolding al ddx_ext path_Join_demo by blast
qed

text \<open>
  C36. A shutdown that fails cannot be repeated. The agent marks itself as shut down before it has done
  anything. When leaving the cluster fails, the server keeps running and the log stays open, and every
  later call reports success without doing anything.
\<close>

theorem shutdown_not_retried:
  assumes "ag_membership a = Some m" and "\<not> ag_shutdown a" and "Membership_Leave (al_serf al) m = (Some e, m')"
  shows "\<exists>a'. Shutdown al a w = (Some e, a', w) \<and> ag_stopped a' = ag_stopped a \<and> ag_log a' = ag_log a \<and>
    (\<forall>w''. Shutdown al a' w'' = (None, a', w''))"
proof -
  let ?a = "a\<lparr>ag_shutdown := True, ag_membership := Some m'\<rparr>"
  have "Shutdown al a w = (Some e, ?a, w)" using assms by (simp add: Shutdown_def Let_def)
  then show ?thesis using Shutdown_twice [of al a w "Some e" ?a w] by (intro exI [of _ ?a]) simp
qed

theorem shutdown_not_retried_witness:
  "\<exists>a'. Shutdown (al_demo\<lparr>al_serf := serf_demo\<lparr>serf_Leave := \<lambda>q. (Some (Extern ''timeout''), q)\<rparr>\<rparr>) (running_demo (fst log0)) (snd log0) =
      (Some (Extern ''timeout''), a', snd log0) \<and> \<not> ag_stopped a' \<and>
    Shutdown (al_demo\<lparr>al_serf := serf_demo\<lparr>serf_Leave := \<lambda>q. (Some (Extern ''timeout''), q)\<rparr>\<rparr>) a' (snd log0) = (None, a', snd log0)"
  using shutdown_not_retried [of "running_demo (fst log0)" "the (ag_membership (running_demo (fst log0)))"
      "al_demo\<lparr>al_serf := serf_demo\<lparr>serf_Leave := \<lambda>q. (Some (Extern ''timeout''), q)\<rparr>\<rparr>" "Extern ''timeout''"
      "the (ag_membership (running_demo (fst log0)))" "snd log0"]
  by (auto simp: running_demo_def Membership_Leave_def)

text \<open>
  C9. Producing through the assembled server. A call is authenticated before its handler runs, so the
  record of a produce call gets into the replicated log exactly when the certificate of the peer (or
  its absence) proves a subject that the policy allows to produce; then it gets the next offset. Any
  other call fails and changes nothing.
\<close>

theorem secure_produce:
  assumes "NewGRPCServer vr (dlog_server dx rf au) = Inr srv"
    and "dlog_contract dx rf lead s lo rs" and "dlog_fits dx (lo + length rs) (preq_Record req)"
  shows "if \<exists>sub. peer_subject c = Some sub \<and> au_enforcer au sub objectWildcard produceAction = Inr True
    then \<exists>s'. unary_call (\<lambda>c. Produce (gs_Config srv) c req) c s = (Inr \<lparr>pres_Offset = of_nat (lo + length rs)\<rparr>, s') \<and>
      dlog_contract dx rf lead s' lo (rs @ [log_stamp (lo + length rs) (preq_Record req)])
    else \<exists>e. unary_call (\<lambda>c. Produce (gs_Config srv) c req) c s = (Inl e, s)"
proof -
  have cfg: "gs_Config srv = dlog_server dx rf au"
    using assms(1) by (auto simp: NewGRPCServer_def newgrpcServer_def split: option.splits)
  have al: "allowed (dlog_server dx rf au) (c\<lparr>ctx_subject := Some sub\<rparr>) produceAction \<longleftrightarrow>
      au_enforcer au sub objectWildcard produceAction = Inr True" for sub
    by (simp add: allowed_def dlog_server_def)
  show ?thesis
  proof (cases "peer_subject c")
    case None
    then show ?thesis using authenticate_subject(2) [OF None] by (auto simp: unary_call_def)
  next
    case (Some sub)
    have run: "unary_call (\<lambda>c. Produce (gs_Config srv) c req) c s =
        Produce (dlog_server dx rf au) (c\<lparr>ctx_subject := Some sub\<rparr>) req s"
      using authenticate_subject(1) [OF Some] by (simp add: unary_call_def cfg)
    show ?thesis
      using dls.Produce_rep [OF _ assms(2,3), of au "c\<lparr>ctx_subject := Some sub\<rparr>"]
        Produce_denied [of "dlog_server dx rf au" "c\<lparr>ctx_subject := Some sub\<rparr>" req s]
      unfolding run al Some by auto
  qed
qed

theorem secure_produce_witness:
  "\<exists>s'. unary_call (\<lambda>c. Produce (dlog_server ddx rf_demo acl) c \<lparr>preq_Record = Some (rec_of 1)\<rparr>)
      \<lparr>ctx_peer = Some \<lparr>peer_AuthInfo = Some (TLSInfo [[''root'', ''ca'']])\<rparr>, ctx_subject = None\<rparr> (dlog0, snd log0) =
    (Inr \<lparr>pres_Offset = 16\<rparr>, s') \<and> dlog_contract ddx rf_demo lead_demo s' 16 [(rec_of 1)\<lparr>r_Offset := 16\<rparr>]"
proof -
  let ?c = "\<lparr>ctx_peer = Some \<lparr>peer_AuthInfo = Some (TLSInfo [[''root'', ''ca'']])\<rparr>, ctx_subject = None\<rparr>"
  have srv: "NewGRPCServer None (dlog_server ddx rf_demo acl) =
      Inr \<lparr>gs_health = ['''' \<mapsto> SERVING], gs_Config = dlog_server ddx rf_demo acl\<rparr>"
    by (simp add: NewGRPCServer_def newgrpcServer_def)
  have fits: "dlog_fits ddx (16 + length ([] :: api_Record list)) (preq_Record \<lparr>preq_Record = Some (rec_of 1)\<rparr>)"
    using demo_fits [of 16 "rec_of 1"] by (simp add: dlog_fits_def rec_of_def ddx_def demo_marshal_def)
  have root: "\<exists>sub. peer_subject ?c = Some sub \<and> au_enforcer acl sub objectWildcard produceAction = Inr True"
    by (simp add: peer_subject_def acl_def objectWildcard_def produceAction_def)
  from secure_produce [OF srv dlog0_contract fits, of ?c, unfolded if_P [OF root]]
  show ?thesis by (simp add: log_stamp_def)
qed


section \<open>The command\<close>

text \<open>
  The flag for the ACL model is dead. The command defines \<^verbatim>\<open>acl-model-file\<close>, but reads the key
  \<^verbatim>\<open>acl-mode-file\<close>, which no flag defines: whatever is given for the flag, the configuration of the
  agent is the same.
\<close>

theorem acl_model_flag:
  assumes "setupFlags hostname tmp bind = Inr flags"
  shows "''acl-model-file'' \<in> fst ` set flags \<and> ''acl-mode-file'' \<notin> fst ` set flags \<and>
    setupConfig tb cf (v\<lparr>vp_GetString := (vp_GetString v)(''acl-model-file'' := file)\<rparr>) c = setupConfig tb cf v c"
  using assms setupConfig_model_flag by (auto simp: setupFlags_def Let_def split: sum.splits option.splits)

definition viper_demo :: viper where
  "viper_demo = \<lparr>vp_ReadInConfig = (\<lambda>f. ReadOK), vp_GetString = (\<lambda>k. []), vp_GetInt = (\<lambda>k. 8400),
     vp_GetStringSlice = (\<lambda>k. None), vp_GetBool = (\<lambda>k. False)\<rparr>"

theorem acl_model_flag_witness:
  "\<exists>flags. setupFlags (Inr ''host'') ''/tmp'' None = Inr flags \<and> ''acl-model-file'' \<in> fst ` set flags"
proof -
  obtain flags where "setupFlags (Inr ''host'') ''/tmp'' None = Inr flags" by (simp add: setupFlags_def Let_def)
  from acl_model_flag [OF this, of undefined "Inr []" viper_demo "''model.conf''"] this show ?thesis by blast
qed


section \<open>The first version over HTTP\<close>

text \<open>
  C40. What is posted can be got. A record that is posted is answered with the number of records before
  it, and whatever requests follow, getting that offset returns the record with its offset.
\<close>

theorem http_post_get:
  assumes "hc_decodeProduce hc body = Inr \<lparr>hpreq_Record = r\<rparr>"
    and "hc_encodeProduce hc \<lparr>hpres_Offset = of_nat (length (hl_records s))\<rparr> = Inr out"
    and "hc_decodeConsume hc query = Inr \<lparr>hcreq_Offset = of_nat (length (hl_records s))\<rparr>"
    and "hc_encodeConsume hc \<lparr>hcres_Record = r\<lparr>hr_Offset := of_nat (length (hl_records s))\<rparr>\<rparr> = Inr out'"
    and "length (hl_records s) + 1 + length reqs < 2 ^ 64"
  shows "\<exists>s'. http_serve hc ''/'' ''POST'' body s = (HttpOK out, s') \<and>
    http_serve hc ''/'' ''GET'' query (http_served hc reqs s') = (HttpOK out', http_served hc reqs s')"
proof -
  let ?n = "length (hl_records s)"
  let ?s = "s\<lparr>hl_records := hl_records s @ [http_stamp ?n r]\<rparr>"
  obtain more where more: "hl_records (http_served hc reqs ?s) = (hl_records s @ [http_stamp ?n r]) @ more"
    "length more \<le> length reqs" using http_served_extends [of hc reqs ?s] by auto
  then have "hl_records (http_served hc reqs ?s) ! ?n = http_stamp ?n r" by simp
  then have "http_serve hc ''/'' ''GET'' query (http_served hc reqs ?s) = (HttpOK out', http_served hc reqs ?s)"
    using more assms(4,5) by (intro http_get [OF assms(3)]) (simp_all add: http_stamp_def)
  with http_post [OF assms(1,2)] show ?thesis by blast
qed

definition hc_demo :: http_codec where
  "hc_demo = \<lparr>hc_decodeProduce = (\<lambda>b. Inr \<lparr>hpreq_Record = \<lparr>hr_Value = b, hr_Offset = 0\<rparr>\<rparr>),
     hc_encodeProduce = (\<lambda>res. Inr (PutUint64 (hpres_Offset res))),
     hc_decodeConsume = (\<lambda>b. Inr \<lparr>hcreq_Offset = Uint64 b\<rparr>),
     hc_encodeConsume = (\<lambda>res. Inr (hr_Value (hcres_Record res)))\<rparr>"

theorem http_post_get_witness:
  "\<exists>s'. http_serve hc_demo ''/'' ''POST'' [1, 2, 3] newHTTPServer = (HttpOK (PutUint64 0), s') \<and>
    fst (http_serve hc_demo ''/'' ''GET'' (PutUint64 0)
      (http_served hc_demo [(''/'', ''POST'', [4]), (''/x'', ''GET'', [])] s')) = HttpOK [1, 2, 3]"
  using http_post_get [of hc_demo "[1, 2, 3]" "\<lparr>hr_Value = [1, 2, 3], hr_Offset = 0\<rparr>" newHTTPServer "PutUint64 0"
      "PutUint64 0" "[1, 2, 3]" "[(''/'', ''POST'', [4]), (''/x'', ''GET'', [])]"]
  by (auto simp: hc_demo_def newHTTPServer_def http_NewLog_def)

end
